(* ===== verification/Prelude.thy ===== *)
theory Prelude
  imports Main "HOL-Library.Word"
begin

text \<open>
  Shared vocabulary of the development.

  Machine integers are words (\<open>u8\<close>, \<open>u16\<close>, \<open>u32\<close>, \<open>u64\<close>), byte buffers are lists of
  bytes.  A C \<open>memcpy\<close> into the middle of a buffer is \<open>memcpy_at\<close>, a read of \<open>n\<close> bytes at an
  offset is \<open>bslice\<close>.  A counted C loop \<open>for (i = a; i < b; i++)\<close> is a \<open>fold\<close> over \<open>[a..<b]\<close>,
  and \<open>fold_upt_invar\<close> is its Hoare rule.

  The collections: \<open>buf_simps\<close> (buffers), \<open>addr_simps\<close> (hash addresses), \<open>len_simps\<close> (lengths
  of outputs).
\<close>

unbundle bit_operations_syntax

named_theorems buf_simps \<open>reads and writes of byte buffers\<close>
named_theorems addr_simps \<open>overwriting fields of a hash address\<close>
named_theorems len_simps \<open>lengths of the buffers an operation produces\<close>

type_synonym u8 = "8 word"
type_synonym u16 = "16 word"
type_synonym u32 = "32 word"
type_synonym u64 = "64 word"
type_synonym bytes = "u8 list"

section \<open>Buffers\<close>

definition bslice :: "nat \<Rightarrow> nat \<Rightarrow> 'a list \<Rightarrow> 'a list" where
  "bslice off n xs = take n (drop off xs)"

definition memcpy_at :: "'a list \<Rightarrow> nat \<Rightarrow> 'a list \<Rightarrow> 'a list" where
  "memcpy_at buf off src = take off buf @ src @ drop (off + length src) buf"

lemma length_memcpy_at [simp, buf_simps]:
  "off + length src \<le> length buf \<Longrightarrow> length (memcpy_at buf off src) = length buf"
  by (simp add: memcpy_at_def)

lemma length_bslice [simp, buf_simps]:
  "off + n \<le> length xs \<Longrightarrow> length (bslice off n xs) = n"
  by (simp add: bslice_def)

lemma nth_memcpy_at [buf_simps]:
  assumes "off + length src \<le> length buf" and "i < length buf"
  shows "memcpy_at buf off src ! i =
    (if off \<le> i \<and> i < off + length src then src ! (i - off) else buf ! i)"
  using assms by (auto simp: memcpy_at_def nth_append min_def)

lemma memcpy_at_cong:
  assumes "off + length src \<le> length buf" and "length buf = length buf'"
    and "\<And>i. i < length buf \<Longrightarrow> i < off \<or> off + length src \<le> i \<Longrightarrow> buf ! i = buf' ! i"
  shows "memcpy_at buf off src = memcpy_at buf' off src"
  by (rule nth_equalityI) (use assms in \<open>auto simp: nth_memcpy_at\<close>)

lemma memcpy_at_twice [simp, buf_simps]:
  assumes "off + length src \<le> length buf" and "length src' = length src"
  shows "memcpy_at (memcpy_at buf off src) off src' = memcpy_at buf off src'"
  by (rule nth_equalityI) (use assms in \<open>auto simp: nth_memcpy_at\<close>)

lemma memcpy_at_swap:
  assumes "off + length src \<le> length buf" and "off' + length src' \<le> length buf"
    and "off + length src \<le> off' \<or> off' + length src' \<le> off"
  shows "memcpy_at (memcpy_at buf off src) off' src' = memcpy_at (memcpy_at buf off' src') off src"
  by (rule nth_equalityI) (use assms in \<open>auto simp: nth_memcpy_at\<close>)

lemma bslice_memcpy_at_same [simp, buf_simps]:
  "off \<le> length buf \<Longrightarrow> n = length src \<Longrightarrow> bslice off n (memcpy_at buf off src) = src"
  by (simp add: bslice_def memcpy_at_def)

lemma bslice_memcpy_at_other [buf_simps]:
  assumes "off + length src \<le> length buf" and "off' + n \<le> length buf"
    and "off + length src \<le> off' \<or> off' + n \<le> off"
  shows "bslice off' n (memcpy_at buf off src) = bslice off' n buf"
  by (rule nth_equalityI) (use assms in \<open>auto simp: bslice_def nth_memcpy_at\<close>)

lemma memcpy_at_0_append [simp]:
  "length src = length a \<Longrightarrow> memcpy_at (a @ b) 0 src = src @ b"
  by (simp add: memcpy_at_def)

text \<open>A buffer of \<open>k\<close> blocks of \<open>n\<close> bytes is the concatenation of its blocks.\<close>

lemma bslice_concat:
  assumes "\<And>x. x \<in> set xss \<Longrightarrow> length x = n" and "i < length xss"
  shows "bslice (i * n) n (concat xss) = xss ! i"
  using assms
proof (induction xss arbitrary: i)
  case Nil
  then show ?case by simp
next
  case (Cons x xss)
  show ?case
  proof (cases i)
    case 0
    with Cons.prems show ?thesis by (simp add: bslice_def)
  next
    case (Suc j)
    with Cons.prems have "drop (i * n) (concat (x # xss)) = drop (j * n) (concat xss)"
      by simp
    with Cons.IH [of j] Cons.prems Suc show ?thesis by (simp add: bslice_def)
  qed
qed

lemma length_concat_blocks:
  assumes "\<And>x. x \<in> set xss \<Longrightarrow> length x = n"
  shows "length (concat xss) = length xss * n"
  using assms by (induction xss) auto

lemma concat_slices:
  assumes "length xs = k * n"
  shows "concat (map (\<lambda>i. bslice (i * n) n xs) [0..<k]) = xs"
  using assms
proof (induction k arbitrary: xs)
  case 0
  then show ?case by simp
next
  case (Suc k)
  let ?ys = "take (k * n) xs"
  have "bslice (i * n) n xs = bslice (i * n) n ?ys" if "i < k" for i
  proof -
    from that have "i * n + n \<le> k * n"
      by (metis add.commute mult_Suc mult_le_mono1 Suc_leI)
    then show ?thesis by (simp add: bslice_def drop_take)
  qed
  then have "map (\<lambda>i. bslice (i * n) n xs) [0..<k] = map (\<lambda>i. bslice (i * n) n ?ys) [0..<k]"
    by simp
  moreover have "concat (map (\<lambda>i. bslice (i * n) n ?ys) [0..<k]) = ?ys"
    using Suc.IH [of ?ys] Suc.prems by simp
  ultimately have "concat (map (\<lambda>i. bslice (i * n) n xs) [0..<k]) = ?ys"
    by (rule trans [OF arg_cong [of _ _ concat]])
  moreover have "bslice (k * n) n xs = drop (k * n) xs"
    using Suc.prems by (simp add: bslice_def)
  ultimately show ?case by simp
qed

section \<open>Counted loops\<close>

lemma fold_upt_Suc: "a \<le> b \<Longrightarrow> fold f [a..<Suc b] s = f b (fold f [a..<b] s)"
  by simp

lemma fold_upt_invar:
  assumes "a \<le> b" and "P a s" and "\<And>i s. a \<le> i \<Longrightarrow> i < b \<Longrightarrow> P i s \<Longrightarrow> P (Suc i) (f i s)"
  shows "P b (fold f [a..<b] s)"
  using assms(1,3)
proof (induction b rule: dec_induct)
  case base
  from assms(2) show ?case by simp
next
  case (step n)
  then have "P n (fold f [a..<n] s)" by simp
  with step show ?case by simp
qed

section \<open>Words\<close>

lemma unat_drop_bit_div: "unat (drop_bit n (w :: 'a::len word)) = unat w div 2 ^ n"
  by (simp only: unat_drop_bit_eq) (simp only: drop_bit_eq_div)

lemma unat_drop_bit1: "unat (drop_bit (Suc 0) (w :: 'a::len word)) = unat w div 2"
  using unat_drop_bit_div [of "Suc 0" w] by simp

lemma and_1_eq_0_iff_even: "((w :: 'a::len word) AND 1 = 0) = even (unat w)"
proof -
  have "w AND 1 = of_bool (odd w)"
    by (simp add: and_one_eq mod_2_eq_odd)
  moreover have "even w = even (unat w)"
    by (metis even_of_nat mult.right_neutral unsigned_1 word_arith_nat_mult)
  ultimately show ?thesis by simp
qed

lemma unat_byte_less: "unat (b :: u8) < 256"
  using unsigned_less [of b] by simp

lemma unat_low_byte: "unat (ucast (x AND 0xff :: 'a::len word) :: u8) = unat x mod 256"
proof -
  have eq: "(0xff :: 'a word) = mask 8"
    by (simp add: mask_eq_exp_minus_1)
  have "(ucast (x AND 0xff) :: u8) = ucast x"
    unfolding eq by (rule bit_word_eqI) (auto simp: bit_simps intro: bit_imp_le_length)
  also have "unat (ucast x :: u8) = unat x mod 256"
    by (simp add: unsigned_ucast_eq take_bit_eq_mod)
  finally show ?thesis .
qed

lemma unat_add_1_less:
  assumes "(w :: 'a::len word) < m"
  shows "unat (w + 1) = unat w + 1"
proof -
  from assms have "1 + w \<noteq> 0"
    by (metis add.commute add_eq_0_iff2 linorder_not_less word_n1_ge)
  then show ?thesis by (simp add: unatSuc add.commute)
qed

lemma xor_eq_iff: "(a XOR b = c) = (a = c XOR (b :: 'a::len word))"
proof
  assume "a XOR b = c"
  then have "(a XOR b) XOR b = c XOR b" by simp
  then show "a = c XOR b" by (simp only: xor.assoc xor_self_eq xor.right_neutral)
next
  assume "a = c XOR b"
  then show "a XOR b = c" by (simp only: xor.assoc xor_self_eq xor.right_neutral)
qed

end
