(* ===== verification/SLH_Address.thy ===== *)
theory SLH_Address
  imports Prelude
begin

text \<open>
  The parameters of SLH-DSA, the conversions between integers and byte strings, and the 32-byte
  hash address (\<open>pqmagic/sig/slh_dsa/std\<close>: \<open>params/\<close>, \<open>utils.c\<close>, \<open>address.c\<close>).

  The C code fixes the parameters and the offsets of the address fields by macros, one header per
  parameter set; here they are a record that every operation takes as its first argument.  The
  code always reads and writes \<open>uint32_t addr[8]\<close> through an \<open>unsigned char *\<close>, so an address is
  its list of 32 bytes.
\<close>

section \<open>Parameters\<close>

record spx_params =
  SPX_N :: nat
  SPX_FULL_HEIGHT :: nat
  SPX_D :: nat
  SPX_FORS_HEIGHT :: nat
  SPX_FORS_TREES :: nat
  SPX_WOTS_W :: nat
  SPX_OFFSET_LAYER :: nat
  SPX_OFFSET_TREE :: nat
  SPX_OFFSET_TYPE :: nat
  SPX_OFFSET_KP_ADDR :: nat
  SPX_OFFSET_CHAIN_ADDR :: nat
  SPX_OFFSET_HASH_ADDR :: nat
  SPX_OFFSET_TREE_HGT :: nat
  SPX_OFFSET_TREE_INDEX :: nat

definition SPX_ADDR_BYTES :: nat where
  "SPX_ADDR_BYTES = 32"

definition SPX_WOTS_LOGW :: "spx_params \<Rightarrow> nat" where
  "SPX_WOTS_LOGW p = (if SPX_WOTS_W p = 256 then 8 else 4)"

definition SPX_WOTS_LEN1 :: "spx_params \<Rightarrow> nat" where
  "SPX_WOTS_LEN1 p = 8 * SPX_N p div SPX_WOTS_LOGW p"

definition SPX_WOTS_LEN2 :: "spx_params \<Rightarrow> nat" where
  "SPX_WOTS_LEN2 p =
     (if SPX_WOTS_W p = 256 then (if SPX_N p \<le> 1 then 1 else 2)
      else if SPX_N p \<le> 8 then 2 else if SPX_N p \<le> 136 then 3 else 4)"

definition SPX_WOTS_LEN :: "spx_params \<Rightarrow> nat" where
  "SPX_WOTS_LEN p = SPX_WOTS_LEN1 p + SPX_WOTS_LEN2 p"

definition SPX_WOTS_BYTES :: "spx_params \<Rightarrow> nat" where
  "SPX_WOTS_BYTES p = SPX_WOTS_LEN p * SPX_N p"

definition SPX_TREE_HEIGHT :: "spx_params \<Rightarrow> nat" where
  "SPX_TREE_HEIGHT p = SPX_FULL_HEIGHT p div SPX_D p"

definition SPX_FORS_MSG_BYTES :: "spx_params \<Rightarrow> nat" where
  "SPX_FORS_MSG_BYTES p = (SPX_FORS_HEIGHT p * SPX_FORS_TREES p + 7) div 8"

definition SPX_FORS_BYTES :: "spx_params \<Rightarrow> nat" where
  "SPX_FORS_BYTES p = (SPX_FORS_HEIGHT p + 1) * SPX_FORS_TREES p * SPX_N p"

definition SPX_BYTES :: "spx_params \<Rightarrow> nat" where
  "SPX_BYTES p =
     SPX_N p + SPX_FORS_BYTES p + SPX_D p * SPX_WOTS_BYTES p + SPX_FULL_HEIGHT p * SPX_N p"

definition SPX_PK_BYTES :: "spx_params \<Rightarrow> nat" where
  "SPX_PK_BYTES p = 2 * SPX_N p"

definition SPX_SK_BYTES :: "spx_params \<Rightarrow> nat" where
  "SPX_SK_BYTES p = 2 * SPX_N p + SPX_PK_BYTES p"

lemmas spx_size_defs = SPX_WOTS_LEN_def SPX_WOTS_BYTES_def SPX_FORS_BYTES_def SPX_BYTES_def
  SPX_PK_BYTES_def SPX_SK_BYTES_def

text \<open>The offsets of the address fields, for the 32-byte address and for the compressed one.\<close>

definition shake_params :: "nat \<Rightarrow> nat \<Rightarrow> nat \<Rightarrow> nat \<Rightarrow> nat \<Rightarrow> nat \<Rightarrow> spx_params" where
  "shake_params n full_height d fors_height fors_trees w =
     \<lparr>SPX_N = n, SPX_FULL_HEIGHT = full_height, SPX_D = d, SPX_FORS_HEIGHT = fors_height,
      SPX_FORS_TREES = fors_trees, SPX_WOTS_W = w,
      SPX_OFFSET_LAYER = 3, SPX_OFFSET_TREE = 8, SPX_OFFSET_TYPE = 19, SPX_OFFSET_KP_ADDR = 20,
      SPX_OFFSET_CHAIN_ADDR = 27, SPX_OFFSET_HASH_ADDR = 31, SPX_OFFSET_TREE_HGT = 27,
      SPX_OFFSET_TREE_INDEX = 28\<rparr>"

definition sm3_params :: "nat \<Rightarrow> nat \<Rightarrow> nat \<Rightarrow> nat \<Rightarrow> nat \<Rightarrow> nat \<Rightarrow> spx_params" where
  "sm3_params n full_height d fors_height fors_trees w =
     \<lparr>SPX_N = n, SPX_FULL_HEIGHT = full_height, SPX_D = d, SPX_FORS_HEIGHT = fors_height,
      SPX_FORS_TREES = fors_trees, SPX_WOTS_W = w,
      SPX_OFFSET_LAYER = 0, SPX_OFFSET_TREE = 1, SPX_OFFSET_TYPE = 9, SPX_OFFSET_KP_ADDR = 10,
      SPX_OFFSET_CHAIN_ADDR = 17, SPX_OFFSET_HASH_ADDR = 21, SPX_OFFSET_TREE_HGT = 17,
      SPX_OFFSET_TREE_INDEX = 18\<rparr>"

definition slh_dsa_shake_128f :: spx_params where
  "slh_dsa_shake_128f = shake_params 16 66 22 6 33 16"

definition slh_dsa_shake_128s :: spx_params where
  "slh_dsa_shake_128s = shake_params 16 63 7 12 14 16"

definition slh_dsa_shake_192f :: spx_params where
  "slh_dsa_shake_192f = shake_params 24 66 22 8 33 16"

definition slh_dsa_shake_192s :: spx_params where
  "slh_dsa_shake_192s = shake_params 24 63 7 14 17 16"

definition slh_dsa_shake_256f :: spx_params where
  "slh_dsa_shake_256f = shake_params 32 68 17 9 35 16"

definition slh_dsa_shake_256s :: spx_params where
  "slh_dsa_shake_256s = shake_params 32 64 8 14 22 16"

definition slh_dsa_sm3_128f :: spx_params where
  "slh_dsa_sm3_128f = sm3_params 16 66 22 6 33 16"

definition slh_dsa_sm3_128s :: spx_params where
  "slh_dsa_sm3_128s = sm3_params 16 63 7 12 14 16"

text \<open>
  What the preprocessor checks of a parameter set (\<open>#error\<close>) and what the offsets must satisfy:
  fields that are used together do not overlap and lie inside the address.
\<close>

definition wf_offsets :: "spx_params \<Rightarrow> bool" where
  "wf_offsets p \<longleftrightarrow>
     SPX_OFFSET_LAYER p < SPX_OFFSET_TREE p \<and>
     SPX_OFFSET_TREE p + 8 \<le> SPX_OFFSET_TYPE p \<and>
     SPX_OFFSET_TYPE p < SPX_OFFSET_KP_ADDR p \<and>
     SPX_OFFSET_KP_ADDR p + 4 \<le> SPX_OFFSET_CHAIN_ADDR p \<and>
     SPX_OFFSET_CHAIN_ADDR p < SPX_OFFSET_HASH_ADDR p \<and>
     SPX_OFFSET_HASH_ADDR p < SPX_ADDR_BYTES \<and>
     SPX_OFFSET_KP_ADDR p + 4 \<le> SPX_OFFSET_TREE_HGT p \<and>
     SPX_OFFSET_TREE_HGT p < SPX_OFFSET_TREE_INDEX p \<and>
     SPX_OFFSET_TREE_INDEX p + 4 \<le> SPX_ADDR_BYTES"

definition wf_params :: "spx_params \<Rightarrow> bool" where
  "wf_params p \<longleftrightarrow>
     wf_offsets p \<and> SPX_WOTS_W p \<in> {16, 256} \<and> 0 < SPX_N p \<and> SPX_N p \<le> 32 \<and> 0 < SPX_D p \<and>
     SPX_TREE_HEIGHT p * SPX_D p = SPX_FULL_HEIGHT p \<and>
     0 < SPX_TREE_HEIGHT p \<and> SPX_TREE_HEIGHT p \<le> 16 \<and>
     SPX_TREE_HEIGHT p * (SPX_D p - 1) \<le> 64 \<and>
     0 < SPX_FORS_HEIGHT p \<and> SPX_FORS_HEIGHT p \<le> 16 \<and> SPX_FORS_TREES p \<le> 256"

section \<open>Integers and byte strings\<close>

text \<open>\<open>ull_to_bytes\<close> fills the output from its last byte to its first.\<close>

fun ull_to_bytes :: "nat \<Rightarrow> u64 \<Rightarrow> bytes" where
  "ull_to_bytes 0 inp = []"
| "ull_to_bytes (Suc outlen) inp =
     ull_to_bytes outlen (drop_bit 8 inp) @ [ucast (inp AND 0xff)]"

definition u32_to_bytes :: "u32 \<Rightarrow> bytes" where
  "u32_to_bytes inp =
     [ucast (drop_bit 24 inp), ucast (drop_bit 16 inp), ucast (drop_bit 8 inp), ucast inp]"

definition bytes_to_ull :: "bytes \<Rightarrow> nat \<Rightarrow> u64" where
  "bytes_to_ull inp inlen =
     fold (\<lambda>i retval. retval OR push_bit (8 * (inlen - 1 - i)) (ucast (inp ! i)))
       [0..<inlen] 0"

section \<open>The hash address\<close>

definition SPX_ADDR_TYPE_WOTS :: u32 where "SPX_ADDR_TYPE_WOTS = 0"
definition SPX_ADDR_TYPE_WOTSPK :: u32 where "SPX_ADDR_TYPE_WOTSPK = 1"
definition SPX_ADDR_TYPE_HASHTREE :: u32 where "SPX_ADDR_TYPE_HASHTREE = 2"
definition SPX_ADDR_TYPE_FORSTREE :: u32 where "SPX_ADDR_TYPE_FORSTREE = 3"
definition SPX_ADDR_TYPE_FORSPK :: u32 where "SPX_ADDR_TYPE_FORSPK = 4"
definition SPX_ADDR_TYPE_WOTSPRF :: u32 where "SPX_ADDR_TYPE_WOTSPRF = 5"
definition SPX_ADDR_TYPE_FORSPRF :: u32 where "SPX_ADDR_TYPE_FORSPRF = 6"

definition zero_addr :: bytes where
  "zero_addr = replicate SPX_ADDR_BYTES 0"

definition set_layer_addr :: "spx_params \<Rightarrow> bytes \<Rightarrow> u32 \<Rightarrow> bytes" where
  "set_layer_addr p addr layer = memcpy_at addr (SPX_OFFSET_LAYER p) [ucast layer]"

definition set_tree_addr :: "spx_params \<Rightarrow> bytes \<Rightarrow> u64 \<Rightarrow> bytes" where
  "set_tree_addr p addr tree = memcpy_at addr (SPX_OFFSET_TREE p) (ull_to_bytes 8 tree)"

definition set_type :: "spx_params \<Rightarrow> bytes \<Rightarrow> u32 \<Rightarrow> bytes" where
  "set_type p addr ty = memcpy_at addr (SPX_OFFSET_TYPE p) [ucast ty]"

definition copy_subtree_addr :: "spx_params \<Rightarrow> bytes \<Rightarrow> bytes \<Rightarrow> bytes" where
  "copy_subtree_addr p out inp = memcpy_at out 0 (take (SPX_OFFSET_TREE p + 8) inp)"

definition set_keypair_addr :: "spx_params \<Rightarrow> bytes \<Rightarrow> u32 \<Rightarrow> bytes" where
  "set_keypair_addr p addr keypair =
     memcpy_at addr (SPX_OFFSET_KP_ADDR p) (u32_to_bytes keypair)"

definition copy_keypair_addr :: "spx_params \<Rightarrow> bytes \<Rightarrow> bytes \<Rightarrow> bytes" where
  "copy_keypair_addr p out inp =
     memcpy_at (memcpy_at out 0 (take (SPX_OFFSET_TREE p + 8) inp))
       (SPX_OFFSET_KP_ADDR p) (bslice (SPX_OFFSET_KP_ADDR p) 4 inp)"

definition set_chain_addr :: "spx_params \<Rightarrow> bytes \<Rightarrow> u32 \<Rightarrow> bytes" where
  "set_chain_addr p addr chain = memcpy_at addr (SPX_OFFSET_CHAIN_ADDR p) [ucast chain]"

definition set_hash_addr :: "spx_params \<Rightarrow> bytes \<Rightarrow> u32 \<Rightarrow> bytes" where
  "set_hash_addr p addr hash = memcpy_at addr (SPX_OFFSET_HASH_ADDR p) [ucast hash]"

definition set_tree_height :: "spx_params \<Rightarrow> bytes \<Rightarrow> u32 \<Rightarrow> bytes" where
  "set_tree_height p addr tree_height =
     memcpy_at addr (SPX_OFFSET_TREE_HGT p) [ucast tree_height]"

definition set_tree_index :: "spx_params \<Rightarrow> bytes \<Rightarrow> u32 \<Rightarrow> bytes" where
  "set_tree_index p addr tree_index =
     memcpy_at addr (SPX_OFFSET_TREE_INDEX p) (u32_to_bytes tree_index)"

section \<open>Conversions: bounds and round trips\<close>

lemma length_ull_to_bytes [simp, len_simps]: "length (ull_to_bytes n x) = n"
  by (induction n x rule: ull_to_bytes.induct) auto

lemma length_u32_to_bytes [simp, len_simps]: "length (u32_to_bytes x) = 4"
  by (simp add: u32_to_bytes_def)

text \<open>The value of a big-endian byte string.\<close>

fun be_value :: "bytes \<Rightarrow> nat" where
  "be_value [] = 0"
| "be_value (b # bs) = unat b * 2 ^ (8 * length bs) + be_value bs"

lemma be_value_append:
  "be_value (xs @ ys) = be_value xs * 2 ^ (8 * length ys) + be_value ys"
  by (induction xs) (auto simp: algebra_simps power_add)

lemma be_value_less: "be_value bs < 2 ^ (8 * length bs)"
proof (induction bs)
  case Nil
  then show ?case by simp
next
  case (Cons b bs)
  let ?M = "2 ^ (8 * length bs) :: nat"
  have "unat b * ?M + be_value bs < Suc (unat b) * ?M"
    using Cons by simp
  also have "\<dots> \<le> 256 * ?M"
    by (rule mult_le_mono1) (use unat_byte_less [of b] in simp)
  finally show ?case by (simp add: power_add)
qed

lemma be_value_ull_to_bytes: "be_value (ull_to_bytes n x) = unat x mod 2 ^ (8 * n)"
proof (induction n x rule: ull_to_bytes.induct)
  case (1 x)
  then show ?case by simp
next
  case (2 n x)
  have "unat x mod 2 ^ (8 * Suc n) = unat x mod (256 * 2 ^ (8 * n))"
    by (simp add: power_add)
  also have "\<dots> = 256 * (unat x div 256 mod 2 ^ (8 * n)) + unat x mod 256"
    by (rule mod_mult2_eq)
  finally show ?case
    using 2 by (simp only: ull_to_bytes.simps be_value_append) (simp add: unat_low_byte unat_drop_bit_div)
qed

lemma bytes_to_ull_be_value:
  assumes "n \<le> 8" and "n \<le> length bs"
  shows "unat (bytes_to_ull bs n) = be_value (take n bs)"
proof -
  let ?f = "\<lambda>i (retval :: u64). retval OR push_bit (8 * (n - 1 - i)) (ucast (bs ! i))"
  let ?P = "\<lambda>i (r :: u64). r = push_bit (8 * (n - i)) (of_nat (be_value (take i bs)))"
  have "?P n (fold ?f [0..<n] 0)"
  proof (rule fold_upt_invar [where P = ?P])
    fix i r
    assume "0 \<le> i" and i: "i < n" and r: "?P i r"
    let ?V = "be_value (take i bs)" and ?m = "8 * (n - 1 - i)"
    have m: "8 * (n - i) = ?m + 8" using i by simp
    have "r = push_bit ?m (of_nat (?V * 256))"
      using r m by (simp add: push_bit_eq_mult power_add)
    moreover have "r AND push_bit ?m (ucast (bs ! i)) = 0"
      unfolding r by (rule bit_word_eqI) (use i in \<open>auto simp: bit_simps m dest: bit_imp_le_length\<close>)
    ultimately have "?f i r = push_bit ?m (of_nat (?V * 256)) + push_bit ?m (ucast (bs ! i))"
      by (simp add: disjunctive_add_eq_or)
    also have "\<dots> = push_bit ?m (of_nat (?V * 256 + unat (bs ! i)))"
      by (simp add: push_bit_add)
    also have "?V * 256 + unat (bs ! i) = be_value (take (Suc i) bs)"
      using i assms by (simp add: take_Suc_conv_app_nth be_value_append)
    finally show "?P (Suc i) (?f i r)" by simp
  qed auto
  moreover have "be_value (take n bs) < 2 ^ 64"
    using be_value_less [of "take n bs"] assms power_increasing [of "8 * n" 64 "2::nat"] by simp
  ultimately show ?thesis
    by (simp add: bytes_to_ull_def unsigned_of_nat take_bit_nat_eq_self)
qed

lemma unat_bytes_to_ull_to_bytes:
  assumes "n \<le> 8"
  shows "bytes_to_ull (ull_to_bytes n x) n = take_bit (8 * n) x"
proof -
  have "unat (bytes_to_ull (ull_to_bytes n x) n) = unat x mod 2 ^ (8 * n)"
    using assms by (simp add: bytes_to_ull_be_value be_value_ull_to_bytes)
  then show ?thesis
    by (simp add: word_unat_eq_iff unsigned_take_bit_eq flip: take_bit_eq_mod)
qed

lemma be_value_inj:
  "length xs = length ys \<Longrightarrow> be_value xs = be_value ys \<Longrightarrow> xs = ys"
proof (induction xs ys rule: list_induct2)
  case Nil
  then show ?case by simp
next
  case (Cons x xs y ys)
  let ?M = "2 ^ (8 * length ys) :: nat"
  have "unat x = (unat x * ?M + be_value xs) div ?M"
    using be_value_less [of xs] Cons.hyps by simp
  also have "\<dots> = (unat y * ?M + be_value ys) div ?M"
    using Cons.prems Cons.hyps by simp
  also have "\<dots> = unat y"
    using be_value_less [of ys] by simp
  finally have "unat x = unat y" .
  with Cons show ?case by (simp add: word_unat_eq_iff)
qed

lemma ull_to_bytes_to_ull:
  assumes "n \<le> 8" and "length bs = n"
  shows "ull_to_bytes n (bytes_to_ull bs n) = bs"
  by (rule be_value_inj)
    (use assms be_value_less [of bs] in \<open>simp_all add: be_value_ull_to_bytes bytes_to_ull_be_value\<close>)

section \<open>Algebra of the address\<close>

lemma length_zero_addr [simp, len_simps]: "length zero_addr = SPX_ADDR_BYTES"
  by (simp add: zero_addr_def)

lemma nth_zero_addr [addr_simps]: "b < SPX_ADDR_BYTES \<Longrightarrow> zero_addr ! b = 0"
  by (simp add: zero_addr_def)

lemma wf_offsets_bounds:
  assumes "wf_offsets p"
  shows "SPX_OFFSET_LAYER p < SPX_ADDR_BYTES" "SPX_OFFSET_TREE p + 8 \<le> SPX_ADDR_BYTES"
    "SPX_OFFSET_TYPE p < SPX_ADDR_BYTES" "SPX_OFFSET_KP_ADDR p + 4 \<le> SPX_ADDR_BYTES"
    "SPX_OFFSET_CHAIN_ADDR p < SPX_ADDR_BYTES" "SPX_OFFSET_HASH_ADDR p < SPX_ADDR_BYTES"
    "SPX_OFFSET_TREE_HGT p < SPX_ADDR_BYTES" "SPX_OFFSET_TREE_INDEX p + 4 \<le> SPX_ADDR_BYTES"
  using assms by (auto simp: wf_offsets_def)

lemmas addr_defs = set_layer_addr_def set_tree_addr_def set_type_def copy_subtree_addr_def
  set_keypair_addr_def copy_keypair_addr_def set_chain_addr_def set_hash_addr_def
  set_tree_height_def set_tree_index_def

text \<open>Every operation keeps the length of the address \<dots>\<close>

lemma length_addr_ops [len_simps]:
  assumes "wf_offsets p" and "length a = SPX_ADDR_BYTES"
  shows "length (set_layer_addr p a layer) = SPX_ADDR_BYTES"
    and "length (set_tree_addr p a tree) = SPX_ADDR_BYTES"
    and "length (set_type p a ty) = SPX_ADDR_BYTES"
    and "length (set_keypair_addr p a kp) = SPX_ADDR_BYTES"
    and "length (set_chain_addr p a ch) = SPX_ADDR_BYTES"
    and "length (set_hash_addr p a hs) = SPX_ADDR_BYTES"
    and "length (set_tree_height p a h) = SPX_ADDR_BYTES"
    and "length (set_tree_index p a i) = SPX_ADDR_BYTES"
    and "length b = SPX_ADDR_BYTES \<Longrightarrow> length (copy_subtree_addr p a b) = SPX_ADDR_BYTES"
    and "length b = SPX_ADDR_BYTES \<Longrightarrow> length (copy_keypair_addr p a b) = SPX_ADDR_BYTES"
  using wf_offsets_bounds [OF assms(1)] assms(2) by (simp_all add: addr_defs)

text \<open>\<dots> and writes exactly the bytes of its field.\<close>

lemma nth_addr_ops [addr_simps]:
  assumes "wf_offsets p" and "length a = SPX_ADDR_BYTES" and "b < SPX_ADDR_BYTES"
  shows "set_layer_addr p a layer ! b = (if b = SPX_OFFSET_LAYER p then ucast layer else a ! b)"
    and "set_tree_addr p a tree ! b =
      (if SPX_OFFSET_TREE p \<le> b \<and> b < SPX_OFFSET_TREE p + 8
       then ull_to_bytes 8 tree ! (b - SPX_OFFSET_TREE p) else a ! b)"
    and "set_type p a ty ! b = (if b = SPX_OFFSET_TYPE p then ucast ty else a ! b)"
    and "set_keypair_addr p a kp ! b =
      (if SPX_OFFSET_KP_ADDR p \<le> b \<and> b < SPX_OFFSET_KP_ADDR p + 4
       then u32_to_bytes kp ! (b - SPX_OFFSET_KP_ADDR p) else a ! b)"
    and "set_chain_addr p a ch ! b = (if b = SPX_OFFSET_CHAIN_ADDR p then ucast ch else a ! b)"
    and "set_hash_addr p a hs ! b = (if b = SPX_OFFSET_HASH_ADDR p then ucast hs else a ! b)"
    and "set_tree_height p a h ! b = (if b = SPX_OFFSET_TREE_HGT p then ucast h else a ! b)"
    and "set_tree_index p a i ! b =
      (if SPX_OFFSET_TREE_INDEX p \<le> b \<and> b < SPX_OFFSET_TREE_INDEX p + 4
       then u32_to_bytes i ! (b - SPX_OFFSET_TREE_INDEX p) else a ! b)"
    and "length c = SPX_ADDR_BYTES \<Longrightarrow>
      copy_subtree_addr p a c ! b = (if b < SPX_OFFSET_TREE p + 8 then c ! b else a ! b)"
    and "length c = SPX_ADDR_BYTES \<Longrightarrow>
      copy_keypair_addr p a c ! b =
      (if b < SPX_OFFSET_TREE p + 8 \<or> SPX_OFFSET_KP_ADDR p \<le> b \<and> b < SPX_OFFSET_KP_ADDR p + 4
       then c ! b else a ! b)"
  using wf_offsets_bounds [OF assms(1)] assms(2,3)
  by (auto simp: addr_defs nth_memcpy_at bslice_def)

lemma addr_eqI:
  assumes "length a = SPX_ADDR_BYTES" and "length b = SPX_ADDR_BYTES"
    and "\<And>i. i < SPX_ADDR_BYTES \<Longrightarrow> a ! i = b ! i"
  shows "a = b"
  using assms by (simp add: nth_equalityI)

text \<open>
  Two normal forms.  \<open>node_addr\<close>: the address of the node at height \<open>h\<close> and index \<open>i\<close> of the
  tree whose address is \<open>base\<close>.  \<open>chain_addr\<close>: the address of a hash of a WOTS chain.  Each field
  written again replaces the former value, whatever the order of the writes.
\<close>

definition node_addr :: "spx_params \<Rightarrow> bytes \<Rightarrow> u32 \<Rightarrow> u32 \<Rightarrow> bytes" where
  "node_addr p base h i = set_tree_index p (set_tree_height p base h) i"

definition chain_addr :: "spx_params \<Rightarrow> bytes \<Rightarrow> u32 \<Rightarrow> u32 \<Rightarrow> u32 \<Rightarrow> u32 \<Rightarrow> bytes" where
  "chain_addr p base kp ch ty hs =
     set_hash_addr p (set_type p (set_chain_addr p (set_keypair_addr p base kp) ch) ty) hs"

lemma length_node_addr [len_simps]:
  "wf_offsets p \<Longrightarrow> length base = SPX_ADDR_BYTES \<Longrightarrow> length (node_addr p base h i) = SPX_ADDR_BYTES"
  by (simp add: node_addr_def len_simps)

lemma length_chain_addr [len_simps]:
  "wf_offsets p \<Longrightarrow> length base = SPX_ADDR_BYTES \<Longrightarrow>
   length (chain_addr p base kp ch ty hs) = SPX_ADDR_BYTES"
  by (simp add: chain_addr_def len_simps)

lemma node_addr_overwrite [addr_simps]:
  assumes "wf_offsets p" and "length base = SPX_ADDR_BYTES"
  shows "set_tree_height p (node_addr p base h i) h' = node_addr p base h' i"
    and "set_tree_index p (node_addr p base h i) i' = node_addr p base h i'"
    and "set_type p (node_addr p base h i) ty = node_addr p (set_type p base ty) h i"
    and "node_addr p (node_addr p base h i) h' i' = node_addr p base h' i'"
  unfolding node_addr_def
  by (rule addr_eqI; use assms in \<open>auto simp: len_simps addr_simps wf_offsets_def\<close>)+

lemma chain_addr_overwrite [addr_simps]:
  assumes "wf_offsets p" and "length base = SPX_ADDR_BYTES"
  shows "set_keypair_addr p (chain_addr p base kp ch ty hs) kp' = chain_addr p base kp' ch ty hs"
    and "set_chain_addr p (chain_addr p base kp ch ty hs) ch' = chain_addr p base kp ch' ty hs"
    and "set_type p (chain_addr p base kp ch ty hs) ty' = chain_addr p base kp ch ty' hs"
    and "set_hash_addr p (chain_addr p base kp ch ty hs) hs' = chain_addr p base kp ch ty hs'"
  unfolding chain_addr_def
  by (rule addr_eqI; use assms in \<open>auto simp: len_simps addr_simps wf_offsets_def\<close>)+

end
