(* ===== verification/SLH_Interface.thy ===== *)
theory SLH_Interface
  imports SLH_Address
begin

text \<open>
  The hash functions SLH-DSA is built from, as an interface.  The C code selects them by linking
  one \<open>hash_*.c\<close> and one \<open>thash_*.c\<close> file; here they are a record of functions (\<open>hash.h\<close>,
  \<open>thash.h\<close>) that every operation of the scheme takes as an argument.  The locales state what the
  scheme relies on; the theory of each implementation interprets them.
\<close>

record spx_ctx =
  pub_seed :: bytes
  sk_seed :: bytes
  state_seeded :: bytes
  state_seeded_512 :: bytes

record spx_hash =
  initialize_hash_function :: "spx_ctx \<Rightarrow> spx_ctx"
  prf_addr :: "spx_ctx \<Rightarrow> bytes \<Rightarrow> bytes"
  gen_message_random :: "bytes \<Rightarrow> bytes \<Rightarrow> bytes \<Rightarrow> spx_ctx \<Rightarrow> bytes"
  hash_message :: "bytes \<Rightarrow> bytes \<Rightarrow> bytes \<Rightarrow> spx_ctx \<Rightarrow> bytes \<times> u64 \<times> u32"
  thash :: "bytes \<Rightarrow> nat \<Rightarrow> spx_ctx \<Rightarrow> bytes \<Rightarrow> bytes"

text \<open>What the tree and chain routines rely on: an \<open>SPX_N\<close>-byte output.\<close>

locale spx_thash =
  fixes p :: spx_params and H :: spx_hash
  assumes wf_p: "wf_params p"
    and length_thash [simp, len_simps]: "length (thash H inp k ctx a) = SPX_N p"
    and length_prf_addr [simp, len_simps]: "length (prf_addr H ctx a) = SPX_N p"
begin

lemma wf_offsets_p [simp]: "wf_offsets p"
  using wf_p by (simp add: wf_params_def)

lemma N_pos: "0 < SPX_N p"
  using wf_p by (simp add: wf_params_def)

end

text \<open>
  What the whole scheme relies on: the public operations (\<open>thash\<close>, \<open>hash_message\<close>) depend on the
  public seed only, so that signer and verifier compute the same values; the secret elements depend
  on the two seeds only, so that key generation and signing do; and the message hash yields indices
  in the range of the hypertree.
\<close>

locale spx_hash_laws = spx_thash +
  assumes thash_public:
      "pub_seed c = pub_seed c' \<Longrightarrow>
       thash H inp k (initialize_hash_function H c) a = thash H inp k (initialize_hash_function H c') a"
    and prf_addr_seeds:
      "pub_seed c = pub_seed c' \<Longrightarrow> sk_seed c = sk_seed c' \<Longrightarrow>
       prf_addr H (initialize_hash_function H c) a = prf_addr H (initialize_hash_function H c') a"
    and hash_message_public:
      "hash_message H R pk m (initialize_hash_function H c) =
       hash_message H R pk m (initialize_hash_function H c')"
    and length_gen_message_random: "length (gen_message_random H sk_prf optrand m c) = SPX_N p"
    and hash_message_range:
      "hash_message H R pk m c = (mhash, tree, idx_leaf) \<Longrightarrow>
       length mhash = SPX_FORS_MSG_BYTES p \<and>
       unat tree < 2 ^ (SPX_TREE_HEIGHT p * (SPX_D p - 1)) \<and>
       unat idx_leaf < 2 ^ SPX_TREE_HEIGHT p"

end
