(* ===== verification/SLH_Tree.thy ===== *)
theory SLH_Tree
  imports SLH_Interface
begin

text \<open>
  Merkle trees (\<open>pqmagic/sig/slh_dsa/std/utils.c\<close>, \<open>utilsx1.c\<close>): \<open>compute_root\<close>, the verifier's
  walk from a leaf to the root, and the two tree builders, \<open>treehash\<close> with its stack of nodes and
  heights and \<open>treehashx1\<close>, which keeps one pending left node per height.

  \<open>merkle_node\<close> is the specification: the node at height \<open>h\<close> and index \<open>i\<close> of the tree over given
  leaves.  Both builders return its root and the authentication path of the chosen leaf, and
  \<open>compute_root\<close> on that path returns the root again.
\<close>

section \<open>The code\<close>

text \<open>
  \<open>compute_root\<close>: the loop over the inner levels, \<open>left\<close> counting the iterations that remain.
\<close>

fun compute_root_loop ::
  "spx_params \<Rightarrow> spx_hash \<Rightarrow> spx_ctx \<Rightarrow> nat \<Rightarrow> nat \<Rightarrow> u32 \<Rightarrow> u32 \<Rightarrow> bytes \<Rightarrow> bytes \<Rightarrow> bytes \<Rightarrow>
   u32 \<times> u32 \<times> bytes \<times> bytes" where
  "compute_root_loop p H ctx 0 i leaf_idx idx_offset buffer auth_path addr =
     (leaf_idx, idx_offset, buffer, addr)"
| "compute_root_loop p H ctx (Suc left) i leaf_idx idx_offset buffer auth_path addr =
     (let leaf_idx = drop_bit 1 leaf_idx;
          idx_offset = drop_bit 1 idx_offset;
          addr = set_tree_height p addr (of_nat (i + 1));
          addr = set_tree_index p addr (leaf_idx + idx_offset);
          node = thash H buffer 2 ctx addr;
          sibling = take (SPX_N p) auth_path;
          buffer = (if leaf_idx AND 1 \<noteq> 0 then sibling @ node else node @ sibling)
      in compute_root_loop p H ctx left (i + 1) leaf_idx idx_offset buffer
           (drop (SPX_N p) auth_path) addr)"

definition compute_root ::
  "spx_params \<Rightarrow> spx_hash \<Rightarrow> bytes \<Rightarrow> u32 \<Rightarrow> u32 \<Rightarrow> bytes \<Rightarrow> nat \<Rightarrow> spx_ctx \<Rightarrow> bytes \<Rightarrow>
   bytes \<times> bytes" where
  "compute_root p H leaf leaf_idx idx_offset auth_path tree_height ctx addr =
     (let sibling = take (SPX_N p) auth_path;
          buffer = (if leaf_idx AND 1 \<noteq> 0 then sibling @ leaf else leaf @ sibling);
          (leaf_idx, idx_offset, buffer, addr) =
            compute_root_loop p H ctx (tree_height - 1) 0 leaf_idx idx_offset buffer
              (drop (SPX_N p) auth_path) addr;
          leaf_idx = drop_bit 1 leaf_idx;
          idx_offset = drop_bit 1 idx_offset;
          addr = set_tree_height p addr (of_nat tree_height);
          addr = set_tree_index p addr (leaf_idx + idx_offset)
      in (thash H buffer 2 ctx addr, addr))"

text \<open>
  \<open>treehash\<close>: the arrays \<open>stack\<close> and \<open>heights\<close> up to \<open>offset\<close> are a list of pairs, the top first.
  \<open>treehash_merge\<close> is the inner \<open>while\<close>: it ends because every turn shortens the stack.
\<close>

fun treehash_merge ::
  "spx_params \<Rightarrow> spx_hash \<Rightarrow> spx_ctx \<Rightarrow> u32 \<Rightarrow> u32 \<Rightarrow> u32 \<Rightarrow> (bytes \<times> nat) list \<Rightarrow> bytes \<Rightarrow> bytes \<Rightarrow>
   (bytes \<times> nat) list \<times> bytes \<times> bytes" where
  "treehash_merge p H ctx leaf_idx idx_offset idx ((right, h) # (left, h') # stack) auth_path addr =
     (if h = h' then
        let tree_idx = drop_bit (h + 1) idx;
            addr = set_tree_height p addr (of_nat (h + 1));
            addr = set_tree_index p addr (tree_idx + drop_bit (h + 1) idx_offset);
            node = thash H (left @ right) 2 ctx addr;
            auth_path = (if drop_bit (h + 1) leaf_idx XOR 1 = tree_idx
                         then memcpy_at auth_path ((h + 1) * SPX_N p) node else auth_path)
        in treehash_merge p H ctx leaf_idx idx_offset idx ((node, h + 1) # stack) auth_path addr
      else ((right, h) # (left, h') # stack, auth_path, addr))"
| "treehash_merge p H ctx leaf_idx idx_offset idx stack auth_path addr = (stack, auth_path, addr)"

definition treehash ::
  "spx_params \<Rightarrow> spx_hash \<Rightarrow> bytes \<Rightarrow> spx_ctx \<Rightarrow> u32 \<Rightarrow> u32 \<Rightarrow> nat \<Rightarrow>
   (spx_ctx \<Rightarrow> u32 \<Rightarrow> bytes \<Rightarrow> bytes) \<Rightarrow> bytes \<Rightarrow> bytes \<times> bytes \<times> bytes" where
  "treehash p H auth_path ctx leaf_idx idx_offset tree_height gen_leaf tree_addr =
     (let (stack, auth_path, tree_addr) =
        fold (\<lambda>i (stack, auth_path, tree_addr).
            let idx = of_nat i;
                leaf = gen_leaf ctx (idx + idx_offset) tree_addr;
                auth_path = (if leaf_idx XOR 1 = idx then memcpy_at auth_path 0 leaf else auth_path)
            in treehash_merge p H ctx leaf_idx idx_offset idx ((leaf, 0) # stack) auth_path tree_addr)
          [0..<2 ^ tree_height] ([], auth_path, tree_addr)
      in (fst (last stack), auth_path, tree_addr))"

text \<open>
  \<open>treehashx1\<close>, the inner loop: climb from the fresh leaf, \<open>left\<close> counting the levels below the
  top, until the root (\<open>Inl\<close>) or a left child that has to wait in the stack (\<open>Inr\<close>).
\<close>

fun treehashx1_up ::
  "spx_params \<Rightarrow> spx_hash \<Rightarrow> spx_ctx \<Rightarrow> nat \<Rightarrow> u32 \<Rightarrow> u32 \<Rightarrow> nat \<Rightarrow> u32 \<Rightarrow> u32 \<Rightarrow> u32 \<Rightarrow>
   bytes \<Rightarrow> bytes \<Rightarrow> bytes \<Rightarrow> bytes \<Rightarrow> (bytes \<times> bytes \<times> bytes) + (bytes \<times> bytes \<times> bytes)" where
  "treehashx1_up p H ctx tree_height idx max_idx 0
     internal_idx internal_leaf internal_idx_offset current stack auth_path tree_addr =
     Inl (current, auth_path, tree_addr)"
| "treehashx1_up p H ctx tree_height idx max_idx (Suc left)
     internal_idx internal_leaf internal_idx_offset current stack auth_path tree_addr =
     (let h = tree_height - Suc left;
          auth_path = (if internal_idx XOR internal_leaf = 1
                       then memcpy_at auth_path (h * SPX_N p) current else auth_path)
      in if internal_idx AND 1 = 0 \<and> idx < max_idx
         then Inr (memcpy_at stack (h * SPX_N p) current, auth_path, tree_addr)
         else let internal_idx_offset = drop_bit 1 internal_idx_offset;
                  tree_addr = set_tree_height p tree_addr (of_nat (h + 1));
                  tree_addr = set_tree_index p tree_addr (internal_idx div 2 + internal_idx_offset);
                  left_node = bslice (h * SPX_N p) (SPX_N p) stack
              in treehashx1_up p H ctx tree_height idx max_idx left
                   (drop_bit 1 internal_idx) (drop_bit 1 internal_leaf) internal_idx_offset
                   (thash H (left_node @ current) 2 ctx tree_addr) stack auth_path tree_addr)"

lemma treehashx1_up_Inr:
  "treehashx1_up p H ctx th idx max_idx left ii il io current stack auth addr = Inr x \<Longrightarrow> idx < max_idx"
  by (induction p H ctx th idx max_idx left ii il io current stack auth addr
      rule: treehashx1_up.induct) (auto simp: Let_def split: if_splits)

function treehashx1_loop ::
  "spx_params \<Rightarrow> spx_hash \<Rightarrow> spx_ctx \<Rightarrow> u32 \<Rightarrow> u32 \<Rightarrow> nat \<Rightarrow> (spx_ctx \<Rightarrow> u32 \<Rightarrow> 'i \<Rightarrow> bytes \<times> 'i) \<Rightarrow>
   u32 \<Rightarrow> u32 \<Rightarrow> bytes \<Rightarrow> bytes \<Rightarrow> bytes \<Rightarrow> 'i \<Rightarrow> bytes \<times> bytes \<times> bytes \<times> 'i" where
  "treehashx1_loop p H ctx leaf_idx idx_offset tree_height gen_leaf max_idx idx
     stack auth_path tree_addr info =
     (let (leaf, info) = gen_leaf ctx (idx + idx_offset) info
      in case treehashx1_up p H ctx tree_height idx max_idx tree_height idx leaf_idx idx_offset
           leaf stack auth_path tree_addr of
           Inl (root, auth_path, tree_addr) \<Rightarrow> (root, auth_path, tree_addr, info)
         | Inr (stack, auth_path, tree_addr) \<Rightarrow>
             treehashx1_loop p H ctx leaf_idx idx_offset tree_height gen_leaf max_idx (idx + 1)
               stack auth_path tree_addr info)"
  by pat_completeness auto
termination
proof (relation "measure (\<lambda>(p, H, ctx, leaf_idx, idx_offset, tree_height, gen_leaf, max_idx, idx, r).
    unat max_idx - unat idx)", goal_cases)
  case 1
  then show ?case by simp
next
  case (2 p H ctx leaf_idx idx_offset tree_height gen_leaf max_idx idx stack auth_path tree_addr
    info x leaf info' y z)
  then have "idx < max_idx" by (metis treehashx1_up_Inr)
  then have "unat (idx + 1) = unat idx + 1" and "unat idx < unat max_idx"
    by (simp_all add: unat_add_1_less word_less_nat_alt)
  then show ?case by simp
qed

definition treehashx1 ::
  "spx_params \<Rightarrow> spx_hash \<Rightarrow> bytes \<Rightarrow> spx_ctx \<Rightarrow> u32 \<Rightarrow> u32 \<Rightarrow> nat \<Rightarrow>
   (spx_ctx \<Rightarrow> u32 \<Rightarrow> 'i \<Rightarrow> bytes \<times> 'i) \<Rightarrow> bytes \<Rightarrow> 'i \<Rightarrow> bytes \<times> bytes \<times> bytes \<times> 'i" where
  "treehashx1 p H auth_path ctx leaf_idx idx_offset tree_height gen_leaf tree_addr info =
     treehashx1_loop p H ctx leaf_idx idx_offset tree_height gen_leaf
       (push_bit tree_height 1 - 1) 0 (replicate (tree_height * SPX_N p) 0) auth_path tree_addr info"

declare treehashx1_loop.simps [simp del]

section \<open>The specification\<close>

fun merkle_node :: "(nat \<Rightarrow> nat \<Rightarrow> bytes \<Rightarrow> bytes) \<Rightarrow> (nat \<Rightarrow> bytes) \<Rightarrow> nat \<Rightarrow> nat \<Rightarrow> bytes" where
  "merkle_node hsh leaf 0 i = leaf i"
| "merkle_node hsh leaf (Suc h) i =
     hsh (Suc h) i (merkle_node hsh leaf h (2 * i) @ merkle_node hsh leaf h (2 * i + 1))"

definition node_hash ::
  "spx_params \<Rightarrow> spx_hash \<Rightarrow> spx_ctx \<Rightarrow> bytes \<Rightarrow> u32 \<Rightarrow> nat \<Rightarrow> nat \<Rightarrow> bytes \<Rightarrow> bytes" where
  "node_hash p H ctx base off h i x =
     thash H x 2 ctx (node_addr p base (of_nat h) (of_nat i + drop_bit h off))"

definition sibling :: "nat \<Rightarrow> nat" where
  "sibling i = (if even i then i + 1 else i - 1)"

text \<open>The leaves a stateful generator produces, in order, and its state after \<open>k\<close> of them.\<close>

fun leaf_info :: "(spx_ctx \<Rightarrow> u32 \<Rightarrow> 'i \<Rightarrow> bytes \<times> 'i) \<Rightarrow> spx_ctx \<Rightarrow> u32 \<Rightarrow> 'i \<Rightarrow> nat \<Rightarrow> 'i" where
  "leaf_info gen ctx off info 0 = info"
| "leaf_info gen ctx off info (Suc k) = snd (gen ctx (of_nat k + off) (leaf_info gen ctx off info k))"

definition leaf_at :: "(spx_ctx \<Rightarrow> u32 \<Rightarrow> 'i \<Rightarrow> bytes \<times> 'i) \<Rightarrow> spx_ctx \<Rightarrow> u32 \<Rightarrow> 'i \<Rightarrow> nat \<Rightarrow> bytes" where
  "leaf_at gen ctx off info k = fst (gen ctx (of_nat k + off) (leaf_info gen ctx off info k))"

section \<open>Arithmetic of the climb\<close>

lemma xor_eq_1_iff_sibling: "((a :: 'a::len word) XOR b = 1) = (unat a = sibling (unat b))"
proof -
  have "(a XOR b = 1) = (a = b XOR 1)"
    by (simp only: xor_eq_iff xor.commute [of 1 b])
  also have "\<dots> = (unat a = unat b XOR 1)"
    by (simp add: word_unat_eq_iff unsigned_xor_eq)
  also have "unat b XOR 1 = sibling (unat b)"
    by (simp add: sibling_def xor_Suc_0_eq)
  finally show ?thesis .
qed

lemma div_exp_of_dvd_Suc:
  assumes "2 ^ h dvd Suc k"
  obtains m where "Suc k = 2 ^ h * Suc m" and "k div 2 ^ h = m"
proof -
  from assms obtain m' where m': "Suc k = 2 ^ h * m'" by (elim dvdE)
  then obtain m where m: "m' = Suc m" by (cases m') auto
  have "k div 2 ^ h = m"
  proof (rule div_nat_eqI)
    have "Suc k = 2 ^ h * m + 2 ^ h" using m' m by simp
    moreover have "0 < (2::nat) ^ h" by simp
    ultimately show "2 ^ h * m \<le> k" by linarith
    show "k < 2 ^ h * Suc m" using m' m by simp
  qed
  with m' m that show thesis by blast
qed

lemma dvd_Suc_step:
  assumes "2 ^ h dvd Suc k" and "odd (k div 2 ^ h)"
  shows "2 ^ Suc h dvd Suc k" and "k div 2 ^ h = 2 * (k div 2 ^ Suc h) + 1"
proof -
  from assms(1) obtain m where m: "Suc k = 2 ^ h * Suc m" "k div 2 ^ h = m"
    by (rule div_exp_of_dvd_Suc)
  from m assms(2) have "even (Suc m)" by simp
  then obtain j where j: "Suc m = 2 * j" by (elim evenE)
  with m(1) show "2 ^ Suc h dvd Suc k" by simp
  have "k div 2 ^ Suc h = k div 2 ^ h div 2"
    by (simp only: power_Suc2 div_mult2_eq)
  with assms(2) show "k div 2 ^ h = 2 * (k div 2 ^ Suc h) + 1" by simp
qed

lemma exp_split_less:
  assumes "h < h'"
  shows "(2::nat) ^ h' = 2 ^ h * (2 * 2 ^ (h' - Suc h))"
proof -
  from assms have "h' = h + Suc (h' - Suc h)" by simp
  then have "(2::nat) ^ h' = 2 ^ (h + Suc (h' - Suc h))" by simp
  then show ?thesis by (simp only: power_add power_Suc)
qed

lemma div_Suc_of_not_dvd: "\<not> d dvd Suc k \<Longrightarrow> Suc k div d = k div d"
  by (simp add: div_Suc dvd_eq_mod_eq_0)


section \<open>treehashx1 builds the tree\<close>

text \<open>
  The state of \<open>treehashx1\<close> after \<open>k\<close> leaves: a slot of the stack holds the last complete left
  node where bit \<open>h\<close> of \<open>k\<close> is set, and the authentication path holds every sibling node all of
  whose leaves are done.
\<close>

definition stack_ok :: "nat \<Rightarrow> nat \<Rightarrow> (nat \<Rightarrow> nat \<Rightarrow> bytes) \<Rightarrow> nat \<Rightarrow> bytes \<Rightarrow> bool" where
  "stack_ok N th nd k stack \<longleftrightarrow> length stack = th * N \<and>
     (\<forall>h<th. odd (k div 2 ^ h) \<longrightarrow> bslice (h * N) N stack = nd h (k div 2 ^ h - 1))"

definition auth_ok :: "nat \<Rightarrow> nat \<Rightarrow> (nat \<Rightarrow> nat \<Rightarrow> bytes) \<Rightarrow> nat \<Rightarrow> (nat \<Rightarrow> nat) \<Rightarrow> bytes \<Rightarrow> bool" where
  "auth_ok N th nd l lim auth \<longleftrightarrow> length auth = th * N \<and>
     (\<forall>h<th. Suc (sibling (l div 2 ^ h)) * 2 ^ h \<le> lim h \<longrightarrow>
        bslice (h * N) N auth = nd h (sibling (l div 2 ^ h)))"

definition addr_ok :: "spx_params \<Rightarrow> bytes \<Rightarrow> bytes \<Rightarrow> bool" where
  "addr_ok p base a \<longleftrightarrow> length a = SPX_ADDR_BYTES \<and> (\<forall>h i. node_addr p a h i = node_addr p base h i)"

lemma bslice_block_write:
  assumes "h < th" and "length src = N" and "length buf = th * N" and "h' < th"
  shows "bslice (h' * N) N (memcpy_at buf (h * N) src) = (if h' = h then src else bslice (h' * N) N buf)"
proof -
  have le: "i * N + N \<le> th * N" if "i < th" for i
    using that by (metis add.commute mult_Suc mult_le_mono1 Suc_leI)
  show ?thesis
  proof (cases "h' = h")
    case True
    with le [OF assms(1)] assms show ?thesis by simp
  next
    case False
    then have "h * N + N \<le> h' * N \<or> h' * N + N \<le> h * N"
      by (metis add.commute linorder_neqE_nat mult_Suc mult_le_mono1 Suc_leI)
    with False le [OF assms(1)] le [OF assms(4)] assms show ?thesis
      by (simp add: bslice_memcpy_at_other)
  qed
qed

lemma length_block_write:
  assumes "h < th" and "length src = N" and "length buf = th * N"
  shows "length (memcpy_at buf (h * N) src) = th * N"
proof -
  from assms(1) have "h * N + N \<le> th * N"
    by (metis add.commute mult_Suc mult_le_mono1 Suc_leI)
  with assms(2,3) show ?thesis by simp
qed

text \<open>One level of the climb: recording the node in the authentication path.\<close>

lemma auth_ok_record:
  assumes auth: "auth_ok N th nd l (\<lambda>h'. if h' < h then Suc k else k) auth"
    and h: "h < th" and dvd: "2 ^ h dvd Suc k" and len: "length (nd h (k div 2 ^ h)) = N"
  shows "auth_ok N th nd l (\<lambda>h'. if h' < Suc h then Suc k else k)
    (if k div 2 ^ h = sibling (l div 2 ^ h) then memcpy_at auth (h * N) (nd h (k div 2 ^ h)) else auth)"
proof -
  obtain m where m: "Suc k = 2 ^ h * Suc m" "k div 2 ^ h = m"
    using dvd by (rule div_exp_of_dvd_Suc)
  let ?s = "sibling (l div 2 ^ h)"
  have "Suc ?s * 2 ^ h \<le> k" if "Suc ?s * 2 ^ h \<le> Suc k" and "m \<noteq> ?s"
  proof -
    from that(1) m(1) have "Suc ?s \<le> Suc m" by (simp add: mult.commute)
    with that(2) have "Suc ?s \<le> m" by simp
    then have "Suc ?s * 2 ^ h \<le> m * 2 ^ h" by (rule mult_le_mono1)
    also have "\<dots> \<le> k" using m(2) by (metis div_times_less_eq_dividend)
    finally show ?thesis .
  qed
  note close = this
  let ?b = "k div 2 ^ h = ?s"
  let ?auth = "if ?b then memcpy_at auth (h * N) (nd h (k div 2 ^ h)) else auth"
  have len_auth: "length auth = th * N" using auth by (simp add: auth_ok_def)
  show ?thesis
    unfolding auth_ok_def
  proof (intro conjI allI impI)
    show "length ?auth = th * N"
      by (simp only: len_auth length_block_write [OF h len len_auth] split: if_split) simp
    fix h' assume h': "h' < th"
      and le: "Suc (sibling (l div 2 ^ h')) * 2 ^ h' \<le> (if h' < Suc h then Suc k else k)"
    show "bslice (h' * N) N ?auth = nd h' (sibling (l div 2 ^ h'))"
    proof (cases "h' = h \<and> ?b")
      case True
      then show ?thesis using bslice_block_write [OF h len len_auth h'] by simp
    next
      case False
      then have "bslice (h' * N) N ?auth = bslice (h' * N) N auth"
        by (simp only: bslice_block_write [OF h len len_auth h'] split: if_split) auto
      moreover have "Suc (sibling (l div 2 ^ h')) * 2 ^ h' \<le> (if h' < h then Suc k else k)"
        using le False close m(2) by (cases "h' = h") auto
      ultimately show ?thesis using auth h' by (simp only: auth_ok_def)
    qed
  qed
qed

lemma auth_ok_finish:
  assumes auth: "auth_ok N th nd l (\<lambda>h'. if h' < Suc h then Suc k else k) auth"
    and dvd: "2 ^ h dvd Suc k" and ev: "even (k div 2 ^ h)"
  shows "auth_ok N th nd l (\<lambda>_. Suc k) auth"
proof -
  obtain m where m: "Suc k = 2 ^ h * Suc m" "k div 2 ^ h = m"
    using dvd by (rule div_exp_of_dvd_Suc)
  have "s * 2 ^ h' \<le> k" if "h < h'" "s * 2 ^ h' \<le> Suc k" for s h'
  proof (rule ccontr)
    assume "\<not> s * 2 ^ h' \<le> k"
    with that(2) have "s * 2 ^ h' = 2 ^ h * Suc m" using m(1) by simp
    moreover have "(2::nat) ^ h' = 2 ^ h * (2 * 2 ^ (h' - Suc h))"
      using that(1) by (rule exp_split_less)
    ultimately have "2 ^ h * (s * (2 * 2 ^ (h' - Suc h))) = 2 ^ h * Suc m"
      by (simp only: mult.left_commute [of s])
    then have eq: "s * (2 * 2 ^ (h' - Suc h)) = Suc m"
      using nat_mult_eq_cancel1 [of "2 ^ h" "s * (2 * 2 ^ (h' - Suc h))" "Suc m"] by simp
    have "even (Suc m)" unfolding eq [symmetric] by simp
    with ev m(2) show False by simp
  qed
  then have "Suc t * 2 ^ h' \<le> (if h' < Suc h then Suc k else k)" if "Suc t * 2 ^ h' \<le> Suc k" for t h'
    using that by (cases "h' < Suc h") (simp_all add: not_less_eq del: mult_Suc)
  then show ?thesis
    using auth unfolding auth_ok_def by (simp del: mult_Suc)
qed

lemma stack_ok_push:
  assumes st: "stack_ok N th nd k stack" and h: "h < th"
    and dvd: "2 ^ h dvd Suc k" and ev: "even (k div 2 ^ h)" and len: "length (nd h (k div 2 ^ h)) = N"
  shows "stack_ok N th nd (Suc k) (memcpy_at stack (h * N) (nd h (k div 2 ^ h)))"
proof -
  obtain m where m: "Suc k = 2 ^ h * Suc m" "k div 2 ^ h = m"
    using dvd by (rule div_exp_of_dvd_Suc)
  have low: "even (Suc k div 2 ^ h')" if "h' < h" for h'
  proof -
    have "(2::nat) ^ h = 2 ^ h' * (2 * 2 ^ (h - Suc h'))"
      using that by (rule exp_split_less)
    then have "Suc k div 2 ^ h' = 2 * 2 ^ (h - Suc h') * Suc m"
      using m(1) by simp
    then show ?thesis by simp
  qed
  have mid: "Suc k div 2 ^ h = Suc m" using m(1) by simp
  have high: "Suc k div 2 ^ h' = k div 2 ^ h'" if "h < h'" for h'
  proof (rule div_Suc_of_not_dvd, rule notI)
    assume "2 ^ h' dvd Suc k"
    moreover have "(2::nat) ^ Suc h dvd 2 ^ h'" using that by (intro le_imp_power_dvd) simp
    ultimately have "2 ^ Suc h dvd Suc k" by (rule dvd_trans [rotated])
    then have "2 ^ h * 2 dvd 2 ^ h * Suc m" by (simp only: m(1) power_Suc2)
    then have "even (Suc m)"
      using nat_mult_dvd_cancel1 [of "2 ^ h" 2 "Suc m"] by (simp only: zero_less_power zero_less_numeral)
    with ev m(2) show False by simp
  qed
  have len_st: "length stack = th * N" using st by (simp add: stack_ok_def)
  show ?thesis
    unfolding stack_ok_def
  proof (intro conjI allI impI)
    show "length (memcpy_at stack (h * N) (nd h (k div 2 ^ h))) = th * N"
      using len_st h len by (simp add: length_block_write)
    fix h' assume h': "h' < th" and od: "odd (Suc k div 2 ^ h')"
    have "\<not> h' < h" using od low by blast
    then consider "h' = h" | "h < h'" by linarith
    then show "bslice (h' * N) N (memcpy_at stack (h * N) (nd h (k div 2 ^ h))) = nd h' (Suc k div 2 ^ h' - 1)"
    proof cases
      case 1
      with h len len_st m(2) mid show ?thesis by (simp add: bslice_block_write)
    next
      case 2
      with st od h' high show ?thesis
        by (simp add: bslice_block_write [OF h len len_st h'] stack_ok_def)
    qed
  qed
qed

lemma drop_bit_drop_bit1: "drop_bit (Suc 0) (drop_bit h (w :: 'a::len word)) = drop_bit (Suc h) w"
  by (simp add: drop_bit_drop_bit)

lemma addr_ok_node [simp]:
  assumes "wf_offsets p" and "addr_ok p base a" and "length base = SPX_ADDR_BYTES"
  shows "set_tree_index p (set_tree_height p a h) i = node_addr p base h i"
    and "addr_ok p base (node_addr p base h i)"
  using assms by (simp_all add: addr_ok_def addr_simps len_simps flip: node_addr_def)

lemma unat_exp_minus_1:
  assumes "th < 32"
  shows "unat (push_bit th 1 - 1 :: u32) = 2 ^ th - 1"
proof -
  have "push_bit th 1 - 1 = (mask th :: u32)"
    by (simp add: mask_eq_exp_minus_1)
  also have "unat (mask th :: u32) = mask th"
    using assms by (simp add: unat_eq_nat_uint uint_mask_eq min_def nat_mask_eq)
  finally show ?thesis by (simp add: mask_eq_exp_minus_1)
qed

lemma sibling_bound:
  assumes "l < 2 ^ th" and "h < th"
  shows "Suc (sibling (l div 2 ^ h)) * 2 ^ h \<le> 2 ^ th"
proof -
  have split: "(2::nat) ^ th = 2 ^ h * (2 * 2 ^ (th - Suc h))"
    using assms(2) by (rule exp_split_less)
  with assms(1) have "l div 2 ^ h < 2 * 2 ^ (th - Suc h)"
    by (simp add: less_mult_imp_div_less mult.commute)
  then have "Suc (sibling (l div 2 ^ h)) \<le> 2 * 2 ^ (th - Suc h)"
    by (auto simp: sibling_def)
  then show ?thesis unfolding split by (simp only: mult.commute [of "2 ^ h"] mult_le_mono1)
qed

context spx_thash
begin

lemma length_merkle_node:
  assumes "\<And>k. length (leaf k) = SPX_N p"
  shows "length (merkle_node (node_hash p H ctx base off) leaf h i) = SPX_N p"
  using assms by (cases h) (simp_all add: node_hash_def)

lemma treehashx1_up_correct:
  fixes leaf :: "nat \<Rightarrow> bytes" and ctx :: spx_ctx and base :: bytes and off :: u32
  defines "nd \<equiv> merkle_node (node_hash p H ctx base off) leaf"
  assumes leaf: "\<And>k. length (leaf k) = SPX_N p" and base: "length base = SPX_ADDR_BYTES"
    and k: "k < 2 ^ th"
    and left: "left \<le> th" and dvd: "2 ^ (th - left) dvd Suc k"
    and idx: "unat idx = k" and max_idx: "unat max_idx = 2 ^ th - 1"
    and ii: "unat ii = k div 2 ^ (th - left)"
    and il: "unat il = l div 2 ^ (th - left)"
    and current: "current = nd (th - left) (k div 2 ^ (th - left))"
    and stack: "stack_ok (SPX_N p) th nd k stack"
    and auth: "auth_ok (SPX_N p) th nd l (\<lambda>h'. if h' < th - left then Suc k else k) auth"
    and addr: "addr_ok p base addr"
  shows "case treehashx1_up p H ctx th idx max_idx left ii il
        (drop_bit (th - left) off) current stack auth addr of
      Inl (root, auth', addr') \<Rightarrow>
        Suc k = 2 ^ th \<and> root = nd th 0 \<and> auth_ok (SPX_N p) th nd l (\<lambda>_. Suc k) auth' \<and> addr_ok p base addr'
    | Inr (stack', auth', addr') \<Rightarrow>
        Suc k < 2 ^ th \<and> stack_ok (SPX_N p) th nd (Suc k) stack' \<and>
        auth_ok (SPX_N p) th nd l (\<lambda>_. Suc k) auth' \<and> addr_ok p base addr'"
  using left dvd ii il current auth addr
proof (induction left arbitrary: ii il current auth addr)
  case 0
  then have "2 ^ th dvd Suc k" by simp
  then have "Suc k = 2 ^ th" using k by (simp add: dvd_imp_le le_antisym)
  moreover have "auth_ok (SPX_N p) th nd l (\<lambda>_. Suc k) auth"
    using 0 unfolding auth_ok_def by (simp del: mult_Suc)
  ultimately show ?case using 0 k by simp
next
  case (Suc left)
  let ?h = "th - Suc left" and ?N = "SPX_N p"
  let ?j = "k div 2 ^ ?h"
  have h: "?h < th" and hS: "th - left = Suc ?h" using Suc.prems(1) by simp_all
  have nd_len: "length (nd ?h ?j) = ?N"
    unfolding nd_def by (rule length_merkle_node) (rule leaf)
  define auth' where "auth' =
    (if ii XOR il = 1 then memcpy_at auth (?h * ?N) current else auth)"
  have a': "auth_ok ?N th nd l (\<lambda>h'. if h' < Suc ?h then Suc k else k) auth'"
    using auth_ok_record [OF Suc.prems(6) h Suc.prems(2) nd_len]
    by (simp only: auth'_def xor_eq_1_iff_sibling Suc.prems(3,4,5))
  show ?case
  proof (cases "ii AND 1 = 0 \<and> idx < max_idx")
    case True
    then have ev: "even ?j" and "k < 2 ^ th - 1"
      using Suc.prems(3) by (simp_all add: and_1_eq_0_iff_even word_less_nat_alt idx max_idx)
    moreover have "stack_ok ?N th nd (Suc k) (memcpy_at stack (?h * ?N) current)"
      using stack_ok_push [OF stack h Suc.prems(2) ev nd_len] Suc.prems(5) by simp
    moreover have "auth_ok ?N th nd l (\<lambda>_. Suc k) auth'"
      using a' Suc.prems(2) ev by (rule auth_ok_finish)
    ultimately show ?thesis
      using True Suc.prems(7) by (simp add: Let_def auth'_def)
  next
    case False
    have od: "odd ?j"
    proof (cases "k < 2 ^ th - 1")
      case True
      with False Suc.prems(3) show ?thesis
        by (simp add: and_1_eq_0_iff_even word_less_nat_alt idx max_idx)
    next
      case False
      with k have "Suc k = 2 ^ th" by simp
      then have "Suc k = 2 ^ ?h * (2 * 2 ^ (th - Suc ?h))"
        using exp_split_less [OF h] by simp
      moreover obtain m where "Suc k = 2 ^ ?h * Suc m" "?j = m"
        using Suc.prems(2) by (rule div_exp_of_dvd_Suc)
      ultimately have "2 ^ ?h * Suc ?j = 2 ^ ?h * (2 * 2 ^ (th - Suc ?h))"
        by (simp only:)
      then have "Suc ?j = 2 * 2 ^ (th - Suc ?h)"
        by (subst (asm) nat_mult_eq_cancel1) simp_all
      then show ?thesis by (metis dvd_triv_left even_Suc)
    qed
    note step = dvd_Suc_step [OF Suc.prems(2) od]
    have left_node: "bslice (?h * ?N) ?N stack = nd ?h (?j - 1)"
      using stack h od by (simp add: stack_ok_def)
    have node: "thash H (bslice (?h * ?N) ?N stack @ current) 2 ctx
        (node_addr p base (of_nat (Suc ?h)) (ii div 2 + drop_bit (Suc ?h) off)) =
      nd (Suc ?h) (k div 2 ^ Suc ?h)"
    proof -
      have "unat (ii div 2) = k div 2 ^ Suc ?h"
        using Suc.prems(3) by (simp add: unat_div power_Suc2 div_mult2_eq del: power_Suc)
      then have "ii div 2 = of_nat (k div 2 ^ Suc ?h)"
        by (metis of_nat_unat ucast_id)
      then show ?thesis
        using left_node Suc.prems(5) step(2) by (simp add: nd_def node_hash_def)
    qed
    have IH: "case treehashx1_up p H ctx th idx max_idx left (drop_bit 1 ii) (drop_bit 1 il)
        (drop_bit (th - left) off)
        (thash H (bslice (?h * ?N) ?N stack @ current) 2 ctx
          (node_addr p base (of_nat (Suc ?h)) (ii div 2 + drop_bit (Suc ?h) off)))
        stack auth' (node_addr p base (of_nat (Suc ?h)) (ii div 2 + drop_bit (Suc ?h) off)) of
      Inl (root, auth', addr') \<Rightarrow>
        Suc k = 2 ^ th \<and> root = nd th 0 \<and> auth_ok (SPX_N p) th nd l (\<lambda>_. Suc k) auth' \<and> addr_ok p base addr'
    | Inr (stack', auth', addr') \<Rightarrow>
        Suc k < 2 ^ th \<and> stack_ok (SPX_N p) th nd (Suc k) stack' \<and>
        auth_ok (SPX_N p) th nd l (\<lambda>_. Suc k) auth' \<and> addr_ok p base addr'"
    proof (rule Suc.IH)
      show "2 ^ (th - left) dvd Suc k" using step(1) hS by simp
      show "unat (drop_bit 1 ii) = k div 2 ^ (th - left)"
        using Suc.prems(3) hS by (simp add: unat_drop_bit1 power_Suc2 div_mult2_eq del: power_Suc)
      show "unat (drop_bit 1 il) = l div 2 ^ (th - left)"
        using Suc.prems(4) hS by (simp add: unat_drop_bit1 power_Suc2 div_mult2_eq del: power_Suc)
    qed (use Suc.prems(1,7) hS node a' base in simp_all)
    have c: "(ii AND 1 = 0 \<and> idx < max_idx) = False" using False by simp
    have "treehashx1_up p H ctx th idx max_idx (Suc left) ii il (drop_bit ?h off) current stack auth addr =
      treehashx1_up p H ctx th idx max_idx left (drop_bit 1 ii) (drop_bit 1 il)
        (drop_bit (th - left) off)
        (thash H (bslice (?h * ?N) ?N stack @ current) 2 ctx
          (node_addr p base (of_nat (Suc ?h)) (ii div 2 + drop_bit (Suc ?h) off)))
        stack auth' (node_addr p base (of_nat (Suc ?h)) (ii div 2 + drop_bit (Suc ?h) off))"
      unfolding treehashx1_up.simps Let_def c if_False
      using Suc.prems(7) base by (simp add: hS auth'_def drop_bit_drop_bit1 del: of_nat_Suc of_nat_diff)
    with IH show ?thesis by simp
  qed
qed


lemma treehashx1_loop_correct:
  fixes gen :: "spx_ctx \<Rightarrow> u32 \<Rightarrow> 'i \<Rightarrow> bytes \<times> 'i" and info :: 'i and ctx :: spx_ctx
    and base :: bytes and off :: u32
  defines "nd \<equiv> merkle_node (node_hash p H ctx base off) (leaf_at gen ctx off info)"
  assumes leaf: "\<And>k. length (leaf_at gen ctx off info k) = SPX_N p"
    and base: "length base = SPX_ADDR_BYTES" and th: "th < 32"
    and k: "k < 2 ^ th" and max_idx: "unat max_idx = 2 ^ th - 1" and idx: "unat idx = k"
    and stack: "stack_ok (SPX_N p) th nd k stack"
    and auth: "auth_ok (SPX_N p) th nd (unat leaf_idx) (\<lambda>_. k) auth" and addr: "addr_ok p base addr"
  shows "\<exists>auth' addr'.
    treehashx1_loop p H ctx leaf_idx off th gen max_idx idx stack auth addr (leaf_info gen ctx off info k) =
      (nd th 0, auth', addr', leaf_info gen ctx off info (2 ^ th)) \<and>
    auth_ok (SPX_N p) th nd (unat leaf_idx) (\<lambda>_. 2 ^ th) auth' \<and> addr_ok p base addr'"
  using k idx stack auth addr
proof (induction "2 ^ th - k" arbitrary: k idx stack auth addr rule: less_induct)
  case less
  let ?info = "leaf_info gen ctx off info"
  let ?up = "treehashx1_up p H ctx th idx max_idx th idx leaf_idx off (leaf_at gen ctx off info k)
    stack auth addr"
  have idx_eq: "idx = of_nat k" using less.prems(2) by (metis of_nat_unat ucast_id)
  have gen: "gen ctx (idx + off) (?info k) = (leaf_at gen ctx off info k, ?info (Suc k))"
    by (simp add: leaf_at_def idx_eq)
  have up: "case ?up of
      Inl (root, auth', addr') \<Rightarrow>
        Suc k = 2 ^ th \<and> root = nd th 0 \<and>
        auth_ok (SPX_N p) th nd (unat leaf_idx) (\<lambda>_. Suc k) auth' \<and> addr_ok p base addr'
    | Inr (stack', auth', addr') \<Rightarrow>
        Suc k < 2 ^ th \<and> stack_ok (SPX_N p) th nd (Suc k) stack' \<and>
        auth_ok (SPX_N p) th nd (unat leaf_idx) (\<lambda>_. Suc k) auth' \<and> addr_ok p base addr'"
    using treehashx1_up_correct [where leaf = "leaf_at gen ctx off info" and left = th and ii = idx
        and il = leaf_idx and ctx = ctx and off = off and current = "leaf_at gen ctx off info k"
        and l = "unat leaf_idx" and stack = stack and auth = auth and addr = addr,
        OF leaf base less.prems(1) order.refl _ less.prems(2) max_idx] less.prems
    unfolding nd_def by simp
  show ?case
  proof (cases ?up)
    case (Inl res)
    obtain root auth' addr' where "res = (root, auth', addr')" by (cases res)
    with Inl up have "?up = Inl (nd th 0, auth', addr')" and "Suc k = 2 ^ th"
      and "auth_ok (SPX_N p) th nd (unat leaf_idx) (\<lambda>_. 2 ^ th) auth'" and "addr_ok p base addr'"
      by auto
    with gen show ?thesis
      by (subst treehashx1_loop.simps) simp
  next
    case (Inr res)
    obtain stack' auth' addr' where "res = (stack', auth', addr')" by (cases res)
    with Inr up have up': "?up = Inr (stack', auth', addr')" and "Suc k < 2 ^ th"
      "stack_ok (SPX_N p) th nd (Suc k) stack'"
      "auth_ok (SPX_N p) th nd (unat leaf_idx) (\<lambda>_. Suc k) auth'" "addr_ok p base addr'" by auto
    moreover have "unat (idx + 1) = Suc k"
      using treehashx1_up_Inr [OF up'] less.prems(2) by (simp add: unat_add_1_less)
    ultimately have "\<exists>auth'' addr''.
      treehashx1_loop p H ctx leaf_idx off th gen max_idx (idx + 1) stack' auth' addr' (?info (Suc k)) =
        (nd th 0, auth'', addr'', ?info (2 ^ th)) \<and>
      auth_ok (SPX_N p) th nd (unat leaf_idx) (\<lambda>_. 2 ^ th) auth'' \<and> addr_ok p base addr''"
      by (intro less.hyps) auto
    then show ?thesis
      using up' gen by (subst treehashx1_loop.simps) simp
  qed
qed

lemma treehashx1_correct:
  fixes gen :: "spx_ctx \<Rightarrow> u32 \<Rightarrow> 'i \<Rightarrow> bytes \<times> 'i" and info :: 'i and ctx :: spx_ctx
    and base :: bytes and off :: u32
  defines "nd \<equiv> merkle_node (node_hash p H ctx base off) (leaf_at gen ctx off info)"
  assumes leaf: "\<And>k. length (leaf_at gen ctx off info k) = SPX_N p"
    and base: "length base = SPX_ADDR_BYTES" and th: "th < 32" and auth: "length auth = th * SPX_N p"
  obtains auth' addr' where
    "treehashx1 p H auth ctx leaf_idx off th gen base info =
       (nd th 0, auth', addr', leaf_info gen ctx off info (2 ^ th))"
    and "length auth' = th * SPX_N p" and "addr_ok p base addr'"
    and "\<And>h. unat leaf_idx < 2 ^ th \<Longrightarrow> h < th \<Longrightarrow>
      bslice (h * SPX_N p) (SPX_N p) auth' = nd h (sibling (unat leaf_idx div 2 ^ h))"
proof -
  let ?max = "push_bit th 1 - 1 :: u32"
  have "unat ?max = 2 ^ th - 1" using th by (rule unat_exp_minus_1)
  moreover have "stack_ok (SPX_N p) th nd 0 (replicate (th * SPX_N p) 0)"
    by (simp add: stack_ok_def)
  moreover have "auth_ok (SPX_N p) th nd (unat leaf_idx) (\<lambda>_. 0) auth"
    using auth by (simp add: auth_ok_def)
  moreover have "addr_ok p base base"
    using base by (simp add: addr_ok_def)
  ultimately obtain auth' addr' where
    res: "treehashx1_loop p H ctx leaf_idx off th gen ?max 0 (replicate (th * SPX_N p) 0) auth base info =
       (nd th 0, auth', addr', leaf_info gen ctx off info (2 ^ th))"
    and a: "auth_ok (SPX_N p) th nd (unat leaf_idx) (\<lambda>_. 2 ^ th) auth'" and "addr_ok p base addr'"
    using treehashx1_loop_correct [OF leaf base th, of 0 ?max 0 "replicate (th * SPX_N p) 0" leaf_idx auth base]
    by (auto simp: nd_def)
  moreover have "Suc (sibling (unat leaf_idx div 2 ^ h)) * 2 ^ h \<le> 2 ^ th"
    if "unat leaf_idx < 2 ^ th" "h < th" for h
    using that by (rule sibling_bound)
  ultimately show thesis
    using that a by (auto simp: treehashx1_def auth_ok_def)
qed

end

section \<open>compute\_root climbs to the same root\<close>

definition node_pair :: "(nat \<Rightarrow> nat \<Rightarrow> bytes) \<Rightarrow> nat \<Rightarrow> nat \<Rightarrow> bytes" where
  "node_pair nd h j = nd h (2 * (j div 2)) @ nd h (2 * (j div 2) + 1)"

lemma node_pair_sibling:
  "(if odd j then nd h (sibling j) @ nd h j else nd h j @ nd h (sibling j)) = node_pair nd h j"
  by (auto simp: node_pair_def sibling_def)

context spx_thash
begin

lemma thash_node_pair:
  fixes leaf :: "nat \<Rightarrow> bytes" and ctx :: spx_ctx and base :: bytes and off :: u32
  defines "nd \<equiv> merkle_node (node_hash p H ctx base off) leaf"
  assumes "unat w = j div 2"
  shows "thash H (node_pair nd h j) 2 ctx (node_addr p base (of_nat (Suc h)) (w + drop_bit (Suc h) off)) =
    nd (Suc h) (j div 2)"
proof -
  from assms(2) have "w = of_nat (j div 2)" by (metis of_nat_unat ucast_id)
  then show ?thesis by (simp add: nd_def node_pair_def node_hash_def)
qed

lemma compute_root_loop_correct:
  fixes leaf :: "nat \<Rightarrow> bytes" and ctx :: spx_ctx and base :: bytes and off :: u32
  defines "nd \<equiv> merkle_node (node_hash p H ctx base off) leaf"
  assumes base: "length base = SPX_ADDR_BYTES"
    and auth: "\<And>h. h < th \<Longrightarrow> bslice (h * SPX_N p) (SPX_N p) auth = nd h (sibling (l div 2 ^ h))"
    and "Suc (i + left) = th" and "unat w = l div 2 ^ i" and "addr_ok p base addr"
  shows "\<exists>w' addr'. compute_root_loop p H ctx left i w (drop_bit i off) (node_pair nd i (l div 2 ^ i))
        (drop (Suc i * SPX_N p) auth) addr =
      (w', drop_bit (i + left) off, node_pair nd (i + left) (l div 2 ^ (i + left)), addr') \<and>
    unat w' = l div 2 ^ (i + left) \<and> addr_ok p base addr'"
  using assms(4-6)
proof (induction left arbitrary: i w addr)
  case 0
  then show ?case by simp
next
  case (Suc left)
  let ?N = "SPX_N p" and ?w = "drop_bit 1 w"
  let ?a = "node_addr p base (of_nat (Suc i)) (?w + drop_bit (Suc i) off)"
  have w: "unat ?w = l div 2 ^ i div 2"
    using Suc.prems(2) by (simp add: unat_drop_bit1)
  have half: "l div 2 ^ i div 2 = l div 2 ^ Suc i"
    by (simp only: power_Suc2 div_mult2_eq)
  have node: "thash H (node_pair nd i (l div 2 ^ i)) 2 ctx ?a = nd (Suc i) (l div 2 ^ Suc i)"
    using thash_node_pair [OF w] unfolding nd_def half .
  have sib: "take ?N (drop (Suc i * ?N) auth) = nd (Suc i) (sibling (l div 2 ^ Suc i))"
    using auth [of "Suc i"] Suc.prems(1) by (simp add: bslice_def)
  have buf: "(if ?w AND 1 \<noteq> 0 then nd (Suc i) (sibling (l div 2 ^ Suc i)) @ nd (Suc i) (l div 2 ^ Suc i)
      else nd (Suc i) (l div 2 ^ Suc i) @ nd (Suc i) (sibling (l div 2 ^ Suc i))) =
    node_pair nd (Suc i) (l div 2 ^ Suc i)"
    by (simp only: and_1_eq_0_iff_even w half node_pair_sibling)
  have "compute_root_loop p H ctx (Suc left) i w (drop_bit i off) (node_pair nd i (l div 2 ^ i))
        (drop (Suc i * ?N) auth) addr =
      compute_root_loop p H ctx left (Suc i) ?w (drop_bit (Suc i) off)
        (node_pair nd (Suc i) (l div 2 ^ Suc i)) (drop (Suc (Suc i) * ?N) auth) ?a"
    using Suc.prems(3) base node sib buf
    by (simp add: Let_def drop_bit_drop_bit1 add.commute [of "?N"] del: power_Suc of_nat_Suc
        split del: if_split cong: if_cong)
  moreover have "\<exists>w' addr'. compute_root_loop p H ctx left (Suc i) ?w (drop_bit (Suc i) off)
        (node_pair nd (Suc i) (l div 2 ^ Suc i)) (drop (Suc (Suc i) * ?N) auth) ?a =
      (w', drop_bit (Suc i + left) off, node_pair nd (Suc i + left) (l div 2 ^ (Suc i + left)), addr') \<and>
    unat w' = l div 2 ^ (Suc i + left) \<and> addr_ok p base addr'"
    by (rule Suc.IH) (use Suc.prems w half base in simp_all)
  ultimately show ?case by simp
qed

lemma compute_root_correct:
  fixes leaf :: "nat \<Rightarrow> bytes" and ctx :: spx_ctx and base :: bytes and off :: u32
  defines "nd \<equiv> merkle_node (node_hash p H ctx base off) leaf"
  assumes base: "length base = SPX_ADDR_BYTES" and th: "0 < th"
    and auth: "\<And>h. h < th \<Longrightarrow> bslice (h * SPX_N p) (SPX_N p) auth = nd h (sibling (unat leaf_idx div 2 ^ h))"
    and l: "unat leaf_idx < 2 ^ th" and addr: "addr_ok p base addr"
  obtains addr' where
    "compute_root p H (nd 0 (unat leaf_idx)) leaf_idx off auth th ctx addr = (nd th 0, addr')"
    and "addr_ok p base addr'"
proof -
  let ?N = "SPX_N p" and ?l = "unat leaf_idx"
  have "take ?N auth = nd 0 (sibling ?l)"
    using auth [of 0] th by (simp add: bslice_def)
  then have buf: "(if leaf_idx AND 1 \<noteq> 0 then take ?N auth @ nd 0 ?l else nd 0 ?l @ take ?N auth) =
    node_pair nd 0 ?l"
    by (simp only: and_1_eq_0_iff_even node_pair_sibling)
  obtain w' addr' where loop: "compute_root_loop p H ctx (th - 1) 0 leaf_idx off (node_pair nd 0 ?l)
        (drop ?N auth) addr =
      (w', drop_bit (th - 1) off, node_pair nd (th - 1) (?l div 2 ^ (th - 1)), addr')"
    and w': "unat w' = ?l div 2 ^ (th - 1)" and addr': "addr_ok p base addr'"
    using compute_root_loop_correct [OF base, of th auth ctx off leaf ?l 0 "th - 1" leaf_idx addr] auth th addr
    by (auto simp: nd_def)
  have w: "unat (drop_bit 1 w') = ?l div 2 ^ (th - 1) div 2"
    using w' by (simp add: unat_drop_bit1)
  have top: "?l div 2 ^ (th - 1) div 2 = 0"
  proof -
    have "?l div 2 ^ (th - 1) div 2 = ?l div 2 ^ Suc (th - 1)"
      by (simp only: power_Suc2 div_mult2_eq)
    with th l show ?thesis by simp
  qed
  have "thash H (node_pair nd (th - 1) (?l div 2 ^ (th - 1))) 2 ctx
      (node_addr p base (of_nat th) (drop_bit 1 w' + drop_bit th off)) = nd th 0"
    using thash_node_pair [OF w, of ctx base off leaf "th - 1"] th top by (simp add: nd_def)
  moreover have "drop_bit 1 (drop_bit (th - 1) off) = drop_bit th off"
    using th drop_bit_drop_bit1 [of "th - 1" off] by simp
  ultimately have "compute_root p H (nd 0 ?l) leaf_idx off auth th ctx addr =
    (nd th 0, node_addr p base (of_nat th) (drop_bit 1 w' + drop_bit th off))"
    using loop addr' base unfolding compute_root_def Let_def buf by simp
  then show thesis using that addr' base by simp
qed

end

section \<open>treehash computes what treehashx1 computes\<close>

text \<open>The stack of \<open>treehash\<close> after \<open>k\<close> leaves: one node per set bit of \<open>k\<close>, the lowest on top.\<close>

fun node_stack :: "(nat \<Rightarrow> nat \<Rightarrow> bytes) \<Rightarrow> nat \<Rightarrow> nat \<Rightarrow> (bytes \<times> nat) list" where
  "node_stack nd h j =
     (if j = 0 then []
      else if odd j then (nd h (j - 1), h) # node_stack nd (Suc h) (j div 2)
      else node_stack nd (Suc h) (j div 2))"

declare node_stack.simps [simp del]

lemma node_stack_height: "(x, h') \<in> set (node_stack nd h j) \<Longrightarrow> h \<le> h'"
proof (induction nd h j rule: node_stack.induct)
  case (1 nd h j)
  show ?case
  proof (cases "j = 0")
    case True
    with "1.prems" show ?thesis by (simp add: node_stack.simps)
  next
    case False
    show ?thesis
    proof (cases "odd j")
      case True
      with "1.prems" False have "(x, h') = (nd h (j - 1), h) \<or> (x, h') \<in> set (node_stack nd (Suc h) (j div 2))"
        by (simp add: node_stack.simps [of nd h j])
      with "1.IH"(1) [OF False True] show ?thesis by auto
    next
      case ev: False
      with "1.prems" False have "(x, h') \<in> set (node_stack nd (Suc h) (j div 2))"
        by (simp add: node_stack.simps [of nd h j])
      with "1.IH"(2) [OF False ev] show ?thesis by simp
    qed
  qed
qed

lemma node_stack_exp: "node_stack nd h (2 ^ n) = [(nd (h + n) 0, h + n)]"
proof (induction n arbitrary: h)
  case 0
  then show ?case by (simp add: node_stack.simps)
next
  case (Suc n)
  then show ?case by (subst node_stack.simps) simp
qed

lemma xor_1_eq_iff_sibling: "((b :: 'a::len word) XOR 1 = a) = (unat a = sibling (unat b))"
proof -
  have "(b XOR 1 = a) = (a XOR b = 1)"
    using xor_eq_iff [of a b 1] by (auto simp only: xor.commute [of 1 b])
  then show ?thesis by (simp only: xor_eq_1_iff_sibling)
qed

context spx_thash
begin

lemma treehash_merge_correct:
  fixes leaf :: "nat \<Rightarrow> bytes" and ctx :: spx_ctx and base :: bytes and off :: u32
  defines "nd \<equiv> merkle_node (node_hash p H ctx base off) leaf"
  assumes leaf: "\<And>k. length (leaf k) = SPX_N p" and base: "length base = SPX_ADDR_BYTES"
    and k: "k < 2 ^ th" and idx: "unat idx = k" and l: "unat leaf_idx < 2 ^ th"
    and "h + n = th" and "2 ^ h dvd Suc k" and "addr_ok p base addr"
    and "auth_ok (SPX_N p) th nd (unat leaf_idx) (\<lambda>h'. if h' < Suc h then Suc k else k) auth"
  shows "\<exists>auth' addr'. treehash_merge p H ctx leaf_idx off idx
      ((nd h (k div 2 ^ h), h) # node_stack nd h (k div 2 ^ h)) auth addr =
      (node_stack nd h (Suc (k div 2 ^ h)), auth', addr') \<and>
    auth_ok (SPX_N p) th nd (unat leaf_idx) (\<lambda>_. Suc k) auth' \<and> addr_ok p base addr'"
  using assms(7-10)
proof (induction n arbitrary: h auth addr)
  case 0
  let ?j = "k div 2 ^ h"
  have j: "?j = 0" using 0 k by simp
  have "auth_ok (SPX_N p) th nd (unat leaf_idx) (\<lambda>_. Suc k) auth"
    using 0 unfolding auth_ok_def by (simp del: mult_Suc)
  moreover have "node_stack nd h 0 = []" "node_stack nd h (Suc 0) = [(nd h 0, h)]"
    by (simp_all add: node_stack.simps [of nd h] node_stack.simps [of nd "Suc h" 0])
  ultimately show ?case using 0 unfolding j by simp
next
  case (Suc n)
  let ?j = "k div 2 ^ h" and ?N = "SPX_N p"
  have h: "h < th" using Suc.prems(1) by simp
  show ?case
  proof (cases "odd ?j")
    case False
    have st: "node_stack nd h ?j = node_stack nd (Suc h) (?j div 2)"
      using False by (subst node_stack.simps) (simp add: node_stack.simps [of nd "Suc h" 0])
    have "treehash_merge p H ctx leaf_idx off idx ((nd h ?j, h) # node_stack nd h ?j) auth addr =
      ((nd h ?j, h) # node_stack nd h ?j, auth, addr)"
    proof (cases "node_stack nd h ?j")
      case Nil
      then show ?thesis by simp
    next
      case (Cons e s)
      obtain x h' where e: "e = (x, h')" by (cases e)
      have "Suc h \<le> h'"
        using node_stack_height [of x h' nd "Suc h" "?j div 2"] Cons e st by simp
      then show ?thesis by (simp add: Cons e)
    qed
    moreover have "node_stack nd h (Suc ?j) = (nd h ?j, h) # node_stack nd h ?j"
      using False st by (subst node_stack.simps) simp
    moreover have "auth_ok ?N th nd (unat leaf_idx) (\<lambda>_. Suc k) auth"
      using auth_ok_finish [OF Suc.prems(4,2)] False by simp
    ultimately show ?thesis using Suc.prems(3) by simp
  next
    case True
    note step = dvd_Suc_step [OF Suc.prems(2) True]
    let ?i = "k div 2 ^ Suc h"
    let ?t = "drop_bit (Suc h) idx"
    let ?a = "node_addr p base (of_nat (Suc h)) (?t + drop_bit (Suc h) off)"
    have t: "unat ?t = ?i" using idx by (simp add: unat_drop_bit_div del: power_Suc)
    then have t_eq: "?t = of_nat ?i" by (metis of_nat_unat ucast_id)
    have st: "node_stack nd h ?j = (nd h (?j - 1), h) # node_stack nd (Suc h) ?i"
      unfolding step(2) by (simp add: node_stack.simps [of nd h])
    have node: "thash H (nd h (?j - 1) @ nd h ?j) 2 ctx ?a = nd (Suc h) ?i"
      unfolding t_eq using step(2) by (simp add: nd_def node_hash_def del: power_Suc)
    define auth' where "auth' =
      (if drop_bit (Suc h) leaf_idx XOR 1 = ?t then memcpy_at auth (Suc h * ?N) (nd (Suc h) ?i) else auth)"
    have cond: "(drop_bit (Suc h) leaf_idx XOR 1 = ?t) = (?i = sibling (unat leaf_idx div 2 ^ Suc h))"
      by (simp add: xor_1_eq_iff_sibling idx unat_drop_bit_div del: power_Suc)
    have a': "auth_ok ?N th nd (unat leaf_idx) (\<lambda>h'. if h' < Suc (Suc h) then Suc k else k) auth'"
    proof (cases "Suc h < th")
      case True
      have "length (nd (Suc h) ?i) = ?N"
        unfolding nd_def by (rule length_merkle_node) (rule leaf)
      from auth_ok_record [OF Suc.prems(4) True step(1) this] show ?thesis
        unfolding auth'_def cond .
    next
      case False
      with h have th: "th = Suc h" by simp
      then have "?i = 0" "unat leaf_idx div 2 ^ Suc h = 0" using k l by (simp_all del: power_Suc)
      then have "auth' = auth" unfolding auth'_def cond by (simp add: sibling_def)
      with Suc.prems(4) th show ?thesis
        unfolding auth_ok_def by (simp del: mult_Suc)
    qed
    have "treehash_merge p H ctx leaf_idx off idx ((nd h ?j, h) # node_stack nd h ?j) auth addr =
      treehash_merge p H ctx leaf_idx off idx ((nd (Suc h) ?i, Suc h) # node_stack nd (Suc h) ?i) auth' ?a"
      unfolding st using Suc.prems(3) base node
      by (simp add: Let_def auth'_def del: power_Suc of_nat_Suc mult_Suc split del: if_split cong: if_cong)
    moreover have "\<exists>auth'' addr''.
      treehash_merge p H ctx leaf_idx off idx ((nd (Suc h) ?i, Suc h) # node_stack nd (Suc h) ?i) auth' ?a =
        (node_stack nd (Suc h) (Suc ?i), auth'', addr'') \<and>
      auth_ok ?N th nd (unat leaf_idx) (\<lambda>_. Suc k) auth'' \<and> addr_ok p base addr''"
      by (rule Suc.IH) (use Suc.prems step(1) a' base in simp_all)
    moreover have "node_stack nd (Suc h) (Suc ?i) = node_stack nd h (Suc ?j)"
      unfolding step(2) by (simp add: node_stack.simps [of nd h])
    ultimately show ?thesis by simp
  qed
qed

lemma treehash_correct:
  fixes gen :: "spx_ctx \<Rightarrow> u32 \<Rightarrow> bytes \<Rightarrow> bytes" and ctx :: spx_ctx and base :: bytes and off :: u32
    and leaf :: "nat \<Rightarrow> bytes"
  defines "nd \<equiv> merkle_node (node_hash p H ctx base off) leaf"
  assumes leaf: "\<And>k. length (leaf k) = SPX_N p"
    and gen: "\<And>k a. addr_ok p base a \<Longrightarrow> gen ctx (of_nat k + off) a = leaf k"
    and base: "length base = SPX_ADDR_BYTES" and th: "0 < th" "th < 32"
    and auth: "length auth = th * SPX_N p" and l: "unat leaf_idx < 2 ^ th"
  obtains auth' addr' where
    "treehash p H auth ctx leaf_idx off th gen base = (nd th 0, auth', addr')"
    and "length auth' = th * SPX_N p" and "addr_ok p base addr'"
    and "\<And>h. h < th \<Longrightarrow>
      bslice (h * SPX_N p) (SPX_N p) auth' = nd h (sibling (unat leaf_idx div 2 ^ h))"
proof -
  let ?N = "SPX_N p"
  let ?f = "\<lambda>i (stack, auth_path, tree_addr).
            let idx = of_nat i;
                leaf = gen ctx (idx + off) tree_addr;
                auth_path = (if leaf_idx XOR 1 = idx then memcpy_at auth_path 0 leaf else auth_path)
            in treehash_merge p H ctx leaf_idx off idx ((leaf, 0) # stack) auth_path tree_addr"
  let ?P = "\<lambda>k (stack, auth_path, tree_addr). stack = node_stack nd 0 k \<and>
      auth_ok ?N th nd (unat leaf_idx) (\<lambda>_. k) auth_path \<and> addr_ok p base tree_addr"
  have "?P (2 ^ th) (fold ?f [0..<2 ^ th] ([], auth, base))"
  proof (rule fold_upt_invar [where P = ?P])
    show "?P 0 ([], auth, base)"
      using auth base by (simp add: node_stack.simps auth_ok_def addr_ok_def)
    fix k s assume k: "k < 2 ^ th" and "?P k s"
    obtain stack a ad where s: "s = (stack, a, ad)" by (cases s)
    with \<open>?P k s\<close> have st: "stack = node_stack nd 0 k"
      and a: "auth_ok ?N th nd (unat leaf_idx) (\<lambda>_. k) a" and ad: "addr_ok p base ad" by auto
    have "(2::nat) ^ th \<le> 2 ^ 31" using th by (intro power_increasing) simp_all
    with k have idx: "unat (of_nat k :: u32) = k" by (simp add: unat_of_nat)
    have nd0: "nd 0 i = leaf i" for i by (simp add: nd_def)
    let ?a = "if leaf_idx XOR 1 = of_nat k then memcpy_at a 0 (leaf k) else a"
    have "auth_ok ?N th nd (unat leaf_idx) (\<lambda>h'. if h' < Suc 0 then Suc k else k) ?a"
      using auth_ok_record [of ?N th nd "unat leaf_idx" 0 k a] a th leaf [of k]
      by (simp add: xor_1_eq_iff_sibling idx nd0 split del: if_split cong: if_cong)
    then have "\<exists>a' ad'. treehash_merge p H ctx leaf_idx off (of_nat k) ((nd 0 k, 0) # node_stack nd 0 k) ?a ad =
        (node_stack nd 0 (Suc k), a', ad') \<and>
      auth_ok ?N th nd (unat leaf_idx) (\<lambda>_. Suc k) a' \<and> addr_ok p base ad'"
      using treehash_merge_correct [where leaf = leaf and h = 0 and n = th and auth = ?a and ctx = ctx
          and off = off, OF leaf base k idx l _ _ ad] unfolding nd_def by simp
    then obtain a' ad' where "treehash_merge p H ctx leaf_idx off (of_nat k) ((nd 0 k, 0) # node_stack nd 0 k) ?a ad =
        (node_stack nd 0 (Suc k), a', ad')"
      and "auth_ok ?N th nd (unat leaf_idx) (\<lambda>_. Suc k) a'" and "addr_ok p base ad'" by blast
    then show "?P (Suc k) (?f k s)"
      by (simp add: s st gen [OF ad] nd0 Let_def split del: if_split cong: if_cong)
  qed simp
  then obtain auth' addr' where res: "fold ?f [0..<2 ^ th] ([], auth, base) = ([(nd th 0, th)], auth', addr')"
    and a: "auth_ok ?N th nd (unat leaf_idx) (\<lambda>_. 2 ^ th) auth'" and ad: "addr_ok p base addr'"
    by (cases "fold ?f [0..<2 ^ th] ([], auth, base)") (simp only: node_stack_exp prod.case, simp)
  have "treehash p H auth ctx leaf_idx off th gen base = (nd th 0, auth', addr')"
    unfolding treehash_def by (subst res) simp
  moreover have "bslice (h * ?N) ?N auth' = nd h (sibling (unat leaf_idx div 2 ^ h))" if "h < th" for h
    using a sibling_bound [OF l that] that by (simp add: auth_ok_def del: mult_Suc)
  ultimately show thesis using that a ad by (simp add: auth_ok_def)
qed

end

end
