(* ===== verification/SLH_Wots.thy ===== *)
theory SLH_Wots
  imports SLH_Tree
begin

text \<open>
  The one-time signature WOTS+ (\<open>pqmagic/sig/slh_dsa/std/wots.c\<close>, \<open>wotsx1.c\<close>): the base-\<open>w\<close>
  digits of a message with their checksum, the hash chains, the generation of a leaf with the
  signature it contains, and the verifier's recovery of the public key.

  The lemmas: the digits are those of the big-endian value of the message; the checksum makes no
  message dominate another; and the public key recovered from a signature is the one the leaf is
  the hash of.
\<close>

section \<open>The code\<close>

definition gen_chain ::
  "spx_params \<Rightarrow> spx_hash \<Rightarrow> bytes \<Rightarrow> u32 \<Rightarrow> u32 \<Rightarrow> spx_ctx \<Rightarrow> bytes \<Rightarrow> bytes \<times> bytes" where
  "gen_chain p H inp start steps ctx addr =
     fold (\<lambda>i (out, addr).
         let addr = set_hash_addr p addr (of_nat i)
         in (thash H out 1 ctx addr, addr))
       [unat start ..< min (unat (start + steps)) (SPX_WOTS_W p)] (take (SPX_N p) inp, addr)"

text \<open>\<open>base_w\<close>: the state of the loop is \<open>in\<close>, \<open>total\<close>, \<open>bits\<close> and the output so far.\<close>

definition base_w_step ::
  "spx_params \<Rightarrow> bytes \<Rightarrow> nat \<times> u8 \<times> nat \<times> u32 list \<Rightarrow> nat \<times> u8 \<times> nat \<times> u32 list" where
  "base_w_step p input = (\<lambda>(pos, total, bits, output).
     let (pos, total, bits) =
           (if bits = 0 then (pos + 1, input ! pos, bits + 8) else (pos, total, bits));
         bits = bits - SPX_WOTS_LOGW p
     in (pos, total, bits,
         output @ [ucast (drop_bit bits total) AND of_nat (SPX_WOTS_W p - 1)]))"

definition base_w :: "spx_params \<Rightarrow> nat \<Rightarrow> bytes \<Rightarrow> u32 list" where
  "base_w p out_len input =
     (let (pos, total, bits, output) =
        fold (\<lambda>consumed. base_w_step p input) [0..<out_len] (0, 0, 0, [])
      in output)"

definition wots_checksum :: "spx_params \<Rightarrow> u32 list \<Rightarrow> u32 list" where
  "wots_checksum p msg_base_w =
     (let csum = fold (\<lambda>i csum. csum + (of_nat (SPX_WOTS_W p) - 1 - msg_base_w ! i))
                   [0..<SPX_WOTS_LEN1 p] (0 :: u32);
          csum = push_bit ((8 - ((SPX_WOTS_LEN2 p * SPX_WOTS_LOGW p) mod 8)) mod 8) csum;
          csum_bytes = ull_to_bytes ((SPX_WOTS_LEN2 p * SPX_WOTS_LOGW p + 7) div 8) (ucast csum)
      in base_w p (SPX_WOTS_LEN2 p) csum_bytes)"

definition chain_lengths :: "spx_params \<Rightarrow> bytes \<Rightarrow> u32 list" where
  "chain_lengths p msg =
     (let lengths = base_w p (SPX_WOTS_LEN1 p) msg
      in lengths @ wots_checksum p lengths)"

definition wots_pk_from_sig ::
  "spx_params \<Rightarrow> spx_hash \<Rightarrow> bytes \<Rightarrow> bytes \<Rightarrow> spx_ctx \<Rightarrow> bytes \<Rightarrow> bytes \<times> bytes" where
  "wots_pk_from_sig p H sig msg ctx addr =
     (let lengths = chain_lengths p msg
      in fold (\<lambda>i (pk, addr).
            let addr = set_chain_addr p addr (of_nat i);
                (out, addr) = gen_chain p H (bslice (i * SPX_N p) (SPX_N p) sig) (lengths ! i)
                  (of_nat (SPX_WOTS_W p) - 1 - lengths ! i) ctx addr
            in (pk @ out, addr))
          [0..<SPX_WOTS_LEN p] ([], addr))"

text \<open>
  \<open>struct leaf_info_x1\<close>; \<open>wots_sig\<close> and \<open>wots_steps\<close> are the buffers its pointers point to.
\<close>

record leaf_info_x1 =
  wots_sig :: bytes
  wots_sign_leaf :: u32
  wots_steps :: "u32 list"
  leaf_addr :: bytes
  pk_addr :: bytes

text \<open>The walk along one chain, \<open>left\<close> counting the hashes up to its top.\<close>

fun wots_chainx1 ::
  "spx_params \<Rightarrow> spx_hash \<Rightarrow> spx_ctx \<Rightarrow> nat \<Rightarrow> u32 \<Rightarrow> nat \<Rightarrow> nat \<Rightarrow> bytes \<Rightarrow> bytes \<Rightarrow> bytes \<Rightarrow>
   bytes \<times> bytes \<times> bytes" where
  "wots_chainx1 p H ctx i wots_k left k buffer sig addr =
     (let sig = (if of_nat k = wots_k then memcpy_at sig (i * SPX_N p) buffer else sig)
      in case left of
           0 \<Rightarrow> (buffer, sig, addr)
         | Suc left \<Rightarrow>
             let addr = set_hash_addr p addr (of_nat k)
             in wots_chainx1 p H ctx i wots_k left (k + 1) (thash H buffer 1 ctx addr) sig addr)"

definition wots_gen_leafx1 ::
  "spx_params \<Rightarrow> spx_hash \<Rightarrow> spx_ctx \<Rightarrow> u32 \<Rightarrow> leaf_info_x1 \<Rightarrow> bytes \<times> leaf_info_x1" where
  "wots_gen_leafx1 p H ctx leaf_idx info =
     (let wots_k_mask = (if leaf_idx = wots_sign_leaf info then 0 else - 1 :: u32);
          laddr = set_keypair_addr p (leaf_addr info) leaf_idx;
          paddr = set_keypair_addr p (pk_addr info) leaf_idx;
          (pk_buffer, sig, laddr) =
            fold (\<lambda>i (pk_buffer, sig, laddr).
                let wots_k = wots_steps info ! i OR wots_k_mask;
                    laddr = set_chain_addr p laddr (of_nat i);
                    laddr = set_hash_addr p laddr 0;
                    laddr = set_type p laddr SPX_ADDR_TYPE_WOTSPRF;
                    buffer = prf_addr H ctx laddr;
                    laddr = set_type p laddr SPX_ADDR_TYPE_WOTS;
                    (buffer, sig, laddr) =
                      wots_chainx1 p H ctx i wots_k (SPX_WOTS_W p - 1) 0 buffer sig laddr
                in (pk_buffer @ buffer, sig, laddr))
              [0..<SPX_WOTS_LEN p] ([], wots_sig info, laddr)
      in (thash H pk_buffer (SPX_WOTS_LEN p) ctx paddr,
          info\<lparr>wots_sig := sig, leaf_addr := laddr, pk_addr := paddr\<rparr>))"

declare wots_chainx1.simps [simp del]

section \<open>Digits and checksum\<close>

lemma logw_cases:
  assumes "wf_params p"
  obtains "SPX_WOTS_W p = 16" "SPX_WOTS_LOGW p = 4" | "SPX_WOTS_W p = 256" "SPX_WOTS_LOGW p = 8"
  using assms by (auto simp: wf_params_def SPX_WOTS_LOGW_def)

lemma W_eq_exp_logw: "wf_params p \<Longrightarrow> SPX_WOTS_W p = 2 ^ SPX_WOTS_LOGW p"
  by (erule logw_cases) auto

text \<open>The bytes of a big-endian string, read off its value.\<close>

lemma be_value_div_byte:
  assumes "k < length bs"
  shows "be_value bs div 2 ^ (8 * (length bs - 1 - k)) mod 256 = unat (bs ! k)"
proof -
  let ?M = "2 ^ (8 * (length bs - 1 - k)) :: nat"
  have "bs = take k bs @ [bs ! k] @ drop (Suc k) bs"
    using assms by (simp add: id_take_nth_drop)
  then have "be_value bs = be_value (take k bs @ [bs ! k] @ drop (Suc k) bs)" by simp
  also have "\<dots> = (be_value (take k bs) * 256 + unat (bs ! k)) * ?M + be_value (drop (Suc k) bs)"
  proof -
    have "length bs - 1 - k = length (drop (Suc k) bs)" by simp
    then show ?thesis
      by (simp only: be_value_append length_append power_add distrib_left) (simp add: algebra_simps)
  qed
  finally have "be_value bs div ?M = be_value (take k bs) * 256 + unat (bs ! k)"
    using be_value_less [of "drop (Suc k) bs"] by simp
  then show ?thesis using unat_byte_less [of "bs ! k"] by simp
qed

lemma div_mod_exp_window:
  assumes "m + l \<le> (n :: nat)"
  shows "(x div 2 ^ m) mod 2 ^ l = ((x mod 2 ^ n) div 2 ^ m) mod (2 ^ l :: nat)"
proof -
  have "(x div 2 ^ m) mod 2 ^ l = take_bit l (drop_bit m x)"
    by (simp add: take_bit_eq_mod drop_bit_eq_div)
  also have "\<dots> = take_bit l (drop_bit m (take_bit n x))"
    by (rule bit_eqI) (use assms in \<open>auto simp: bit_simps\<close>)
  finally show ?thesis by (simp add: take_bit_eq_mod drop_bit_eq_div)
qed

text \<open>The \<open>i\<close>-th digit of \<open>l\<close> bits of a byte string, from the most significant end.\<close>

definition be_digit :: "nat \<Rightarrow> bytes \<Rightarrow> nat \<Rightarrow> nat" where
  "be_digit l bs i = be_value bs div 2 ^ (8 * length bs - l * (i + 1)) mod 2 ^ l"

lemma be_digit_in_byte:
  assumes "k < length bs" and "r + l \<le> 8" and "l * (i + 1) = 8 * k + (8 - r)"
  shows "be_digit l bs i = unat (bs ! k) div 2 ^ r mod 2 ^ l"
proof -
  let ?X = "be_value bs div 2 ^ (8 * (length bs - 1 - k))"
  have "8 * length bs - l * (i + 1) = 8 * (length bs - 1 - k) + r"
    using assms by simp
  then have "be_digit l bs i = ?X div 2 ^ r mod 2 ^ l"
    by (simp add: be_digit_def power_add div_mult2_eq)
  also have "\<dots> = (?X mod 2 ^ 8) div 2 ^ r mod 2 ^ l"
    using assms by (rule_tac div_mod_exp_window) simp
  also have "?X mod 2 ^ 8 = unat (bs ! k)"
    using be_value_div_byte [OF assms(1)] by simp
  finally show ?thesis .
qed

lemma unat_ucast_drop_and:
  assumes "l \<le> 8"
  shows "unat (ucast (drop_bit r (b :: u8)) AND (2 ^ l - 1) :: u32) = unat b div 2 ^ r mod 2 ^ l"
proof -
  have "(2 ^ l - 1 :: u32) = mask l"
    by (simp add: mask_eq_exp_minus_1)
  then have "ucast (drop_bit r b) AND (2 ^ l - 1) = (take_bit l (ucast (drop_bit r b)) :: u32)"
    by (simp add: take_bit_eq_mask)
  also have "unat \<dots> = take_bit l (unat (drop_bit r b))"
    using assms by (simp add: unsigned_take_bit_eq unsigned_ucast_eq min_def)
  finally show ?thesis by (simp add: take_bit_eq_mod unat_drop_bit_div)
qed

lemma base_w_digits:
  assumes p: "wf_params p" and len: "n * SPX_WOTS_LOGW p \<le> 8 * length bs"
  shows "map unat (base_w p n bs) = map (be_digit (SPX_WOTS_LOGW p) bs) [0..<n]"
proof -
  let ?l = "SPX_WOTS_LOGW p"
  let ?P = "\<lambda>i (pos, total, bits, outp). bits < 8 \<and> ?l dvd bits \<and> ?l * i + bits = 8 * pos \<and>
    (bits \<noteq> 0 \<longrightarrow> total = bs ! (pos - 1)) \<and> map unat outp = map (be_digit ?l bs) [0..<i]"
  have "?P n (fold (\<lambda>consumed. base_w_step p bs) [0..<n] (0, 0, 0, []))"
  proof (rule fold_upt_invar [where P = ?P])
    fix i :: nat and s :: "nat \<times> u8 \<times> nat \<times> u32 list"
    assume i: "i < n" and inv: "?P i s"
    obtain pos total bits outp where s: "s = (pos, total, bits, outp)"
      by (metis prod_cases4)
    define bits' where "bits' = (if bits = 0 then 8 else bits) - ?l"
    define pos' where "pos' = (if bits = 0 then pos + 1 else pos)"
    have step: "base_w_step p bs s = (pos', bs ! (pos' - 1), bits',
        outp @ [ucast (drop_bit bits' (bs ! (pos' - 1))) AND (2 ^ ?l - 1)])"
      using inv p by (auto simp: s base_w_step_def pos'_def bits'_def W_eq_exp_logw Let_def)
    have arith: "bits' < 8 \<and> ?l dvd bits' \<and> bits' + ?l \<le> 8 \<and> ?l * (i + 1) + bits' = 8 * pos' \<and> 0 < pos'"
      using p inv by (cases rule: logw_cases) (auto simp: s bits'_def pos'_def dvd_def split: if_splits)
    have "?l * (i + 1) \<le> n * ?l"
      using i by (metis Suc_eq_plus1 Suc_leI mult.commute mult_le_mono1)
    with arith len have "pos' - 1 < length bs" by linarith
    moreover have "?l * (i + 1) = 8 * (pos' - 1) + (8 - bits')" using arith by arith
    ultimately have "be_digit ?l bs i = unat (bs ! (pos' - 1)) div 2 ^ bits' mod 2 ^ ?l"
      using arith by (rule_tac be_digit_in_byte) auto
    then show "?P (Suc i) (base_w_step p bs s)"
      unfolding step using inv arith unat_ucast_drop_and [of ?l bits' "bs ! (pos' - 1)"]
      by (simp add: s)
  qed auto
  then show ?thesis by (auto simp: base_w_def split: prod.splits)
qed

lemma length_base_w [simp, len_simps]:
  assumes "wf_params p" and "n * SPX_WOTS_LOGW p \<le> 8 * length bs"
  shows "length (base_w p n bs) = n"
  using arg_cong [OF base_w_digits [OF assms], of length] by simp

lemma nth_base_w:
  assumes "wf_params p" and "n * SPX_WOTS_LOGW p \<le> 8 * length bs" and "i < n"
  shows "unat (base_w p n bs ! i) = be_digit (SPX_WOTS_LOGW p) bs i"
  using arg_cong [OF base_w_digits [OF assms(1,2)], of "\<lambda>xs. xs ! i"] assms by simp

lemma be_digit_less: "be_digit l bs i < 2 ^ l"
  by (simp add: be_digit_def)

definition radix_value :: "nat \<Rightarrow> nat list \<Rightarrow> nat" where
  "radix_value w ds = foldl (\<lambda>a d. a * w + d) 0 ds"

lemma radix_value_snoc [simp]: "radix_value w (ds @ [d]) = radix_value w ds * w + d"
  by (simp add: radix_value_def)

lemma radix_value_mono:
  assumes "length xs = length ys" and "\<And>i. i < length xs \<Longrightarrow> xs ! i \<le> ys ! i"
  shows "radix_value w xs \<le> radix_value w ys"
  using assms
proof (induction xs ys rule: rev_induct2)
  case (4 x xs y ys)
  then have "xs ! i \<le> ys ! i" if "i < length xs" for i
    using 4(3) [of i] that by (simp add: nth_append)
  moreover have "x \<le> y" using 4(2) 4(3) [of "length xs"] by (simp add: nth_append)
  ultimately show ?case using 4 by (simp add: add_mono)
qed (auto simp: radix_value_def)

lemma radix_value_be_digits:
  assumes "l * n \<le> 8 * length bs"
  shows "radix_value (2 ^ l) (map (be_digit l bs) [0..<n]) = be_value bs div 2 ^ (8 * length bs - l * n)"
  using assms
proof (induction n)
  case 0
  then show ?case using be_value_less [of bs] by (simp add: radix_value_def)
next
  case (Suc n)
  let ?e = "8 * length bs - l * Suc n" and ?V = "be_value bs"
  have e: "8 * length bs - l * n = ?e + l" using Suc.prems by simp
  have "radix_value (2 ^ l) (map (be_digit l bs) [0..<Suc n]) = ?V div 2 ^ (?e + l) * 2 ^ l + be_digit l bs n"
    using Suc unfolding e [symmetric] by simp
  also have "be_digit l bs n = ?V div 2 ^ ?e mod 2 ^ l"
    by (simp add: be_digit_def)
  also have "?V div 2 ^ (?e + l) = ?V div 2 ^ ?e div 2 ^ l"
    by (simp add: power_add div_mult2_eq)
  finally show ?case by (simp only: div_mult_mod_eq)
qed

lemma radix_value_base_w:
  assumes "wf_params p" and "n * SPX_WOTS_LOGW p \<le> 8 * length bs"
  shows "radix_value (SPX_WOTS_W p) (map unat (base_w p n bs)) =
    be_value bs div 2 ^ (8 * length bs - SPX_WOTS_LOGW p * n)"
  using assms by (simp add: base_w_digits W_eq_exp_logw radix_value_be_digits mult.commute)

text \<open>The checksum digits are the base-\<open>w\<close> representation of the sum of the complements.\<close>

definition wots_csum :: "spx_params \<Rightarrow> u32 list \<Rightarrow> nat" where
  "wots_csum p ds = (\<Sum>i<SPX_WOTS_LEN1 p. SPX_WOTS_W p - 1 - unat (ds ! i))"

lemma wots_csum_bound:
  assumes "wf_params p"
  shows "wots_csum p ds < SPX_WOTS_W p ^ SPX_WOTS_LEN2 p" and "SPX_WOTS_W p ^ SPX_WOTS_LEN2 p \<le> 2 ^ 16"
proof -
  have "wots_csum p ds \<le> SPX_WOTS_LEN1 p * (SPX_WOTS_W p - 1)"
    unfolding wots_csum_def
    using sum_bounded_above [of "{..<SPX_WOTS_LEN1 p}" "\<lambda>i. SPX_WOTS_W p - 1 - unat (ds ! i)" "SPX_WOTS_W p - 1"]
    by simp
  also have "\<dots> < SPX_WOTS_W p ^ SPX_WOTS_LEN2 p"
    by (rule logw_cases [OF assms]; use assms in \<open>auto simp: SPX_WOTS_LEN1_def SPX_WOTS_LEN2_def wf_params_def\<close>)
  finally show "wots_csum p ds < SPX_WOTS_W p ^ SPX_WOTS_LEN2 p" .
  show "SPX_WOTS_W p ^ SPX_WOTS_LEN2 p \<le> 2 ^ 16"
    by (rule logw_cases [OF assms]; use assms in \<open>auto simp: SPX_WOTS_LEN2_def wf_params_def\<close>)
qed

lemma wots_checksum_loop:
  assumes p: "wf_params p" and ds: "\<And>i. i < SPX_WOTS_LEN1 p \<Longrightarrow> unat (ds ! i) < SPX_WOTS_W p"
  shows "fold (\<lambda>i csum. csum + (of_nat (SPX_WOTS_W p) - 1 - ds ! i)) [0..<SPX_WOTS_LEN1 p] (0 :: u32) =
    of_nat (wots_csum p ds)"
proof -
  have "fold (\<lambda>i csum. csum + (of_nat (SPX_WOTS_W p) - 1 - ds ! i)) [0..<SPX_WOTS_LEN1 p] (0 :: u32) =
      of_nat (\<Sum>i<SPX_WOTS_LEN1 p. SPX_WOTS_W p - 1 - unat (ds ! i))"
  proof (rule fold_upt_invar [where P = "\<lambda>n csum. csum = of_nat (\<Sum>i<n. SPX_WOTS_W p - 1 - unat (ds ! i))"])
    fix i and csum :: u32
    assume "i < SPX_WOTS_LEN1 p" and c: "csum = of_nat (\<Sum>i<i. SPX_WOTS_W p - 1 - unat (ds ! i))"
    then have "of_nat (SPX_WOTS_W p - 1 - unat (ds ! i)) = of_nat (SPX_WOTS_W p) - 1 - ds ! i"
      using ds [of i] by (simp add: of_nat_diff)
    with c show "csum + (of_nat (SPX_WOTS_W p) - 1 - ds ! i) =
        of_nat (\<Sum>i<Suc i. SPX_WOTS_W p - 1 - unat (ds ! i))"
      by simp
  qed simp_all
  then show ?thesis by (simp add: wots_csum_def)
qed

lemma csum_size:
  assumes "wf_params p"
  defines "b \<equiv> SPX_WOTS_LEN2 p * SPX_WOTS_LOGW p"
  shows "8 * ((b + 7) div 8) = b + (8 - b mod 8) mod 8" and "(b + 7) div 8 \<le> 2"
  unfolding b_def
  by (rule logw_cases [OF assms(1)]; use assms(1) in \<open>auto simp: SPX_WOTS_LEN2_def wf_params_def\<close>)+

lemma unat_ucast_of_nat32: "n < 2 ^ 32 \<Longrightarrow> unat (ucast (of_nat n :: u32) :: u64) = n"
  by (simp add: unsigned_ucast_eq unsigned_of_nat take_bit_nat_eq_self)

lemma wots_checksum_value:
  assumes p: "wf_params p" and ds: "\<And>i. i < SPX_WOTS_LEN1 p \<Longrightarrow> unat (ds ! i) < SPX_WOTS_W p"
  shows "radix_value (SPX_WOTS_W p) (map unat (wots_checksum p ds)) = wots_csum p ds"
    and "length (wots_checksum p ds) = SPX_WOTS_LEN2 p"
proof -
  define b where "b = SPX_WOTS_LEN2 p * SPX_WOTS_LOGW p"
  define s where "s = (8 - b mod 8) mod 8"
  define n where "n = (b + 7) div 8"
  define bs where "bs = ull_to_bytes n (ucast (push_bit s (of_nat (wots_csum p ds)) :: u32))"
  let ?c = "wots_csum p ds"
  have n: "8 * n = b + s" and n2: "n \<le> 2"
    using csum_size [OF p] by (simp_all only: b_def s_def n_def)
  have "?c < 2 ^ b"
    using wots_csum_bound(1) [OF p, of ds]
    by (simp only: b_def W_eq_exp_logw [OF p] power_mult [symmetric] mult.commute [of "SPX_WOTS_LEN2 p"])
  then have "?c * 2 ^ s < 2 ^ (b + s)" by (simp add: power_add)
  then have c: "?c * 2 ^ s < 2 ^ (8 * n)" unfolding n .
  also have "\<dots> \<le> 2 ^ 16" by (rule power_increasing) (use n2 in auto)
  finally have "unat (ucast (push_bit s (of_nat ?c) :: u32) :: u64) = ?c * 2 ^ s"
    using unat_ucast_of_nat32 [of "?c * 2 ^ s"] by (simp add: push_bit_eq_mult)
  then have v: "be_value bs = ?c * 2 ^ s" and len: "8 * length bs = b + s"
    using c by (simp_all add: bs_def be_value_ull_to_bytes n)
  have eq: "wots_checksum p ds = base_w p (SPX_WOTS_LEN2 p) bs"
    by (simp only: wots_checksum_def Let_def wots_checksum_loop [OF assms] bs_def n_def s_def b_def)
  have le: "SPX_WOTS_LEN2 p * SPX_WOTS_LOGW p \<le> 8 * length bs"
    using len by (simp add: b_def)
  show "length (wots_checksum p ds) = SPX_WOTS_LEN2 p"
    unfolding eq using p le by (rule length_base_w)
  show "radix_value (SPX_WOTS_W p) (map unat (wots_checksum p ds)) = ?c"
    unfolding eq radix_value_base_w [OF p le] len v by (simp add: b_def mult.commute)
qed

lemma LEN1_logw: "wf_params p \<Longrightarrow> SPX_WOTS_LEN1 p * SPX_WOTS_LOGW p = 8 * SPX_N p"
  by (erule logw_cases) (auto simp: SPX_WOTS_LEN1_def)

lemma base_w_less_W:
  assumes "wf_params p" and "n * SPX_WOTS_LOGW p \<le> 8 * length bs" and "i < n"
  shows "unat (base_w p n bs ! i) < SPX_WOTS_W p"
  using assms by (simp add: nth_base_w be_digit_less W_eq_exp_logw)

text \<open>The chain lengths of an \<open>n\<close>-byte message: message digits, then checksum digits.\<close>

lemma msg_digits:
  assumes p: "wf_params p" and m: "length m = SPX_N p"
  defines "ds \<equiv> base_w p (SPX_WOTS_LEN1 p) m"
  shows "length ds = SPX_WOTS_LEN1 p" and "\<And>i. i < SPX_WOTS_LEN1 p \<Longrightarrow> unat (ds ! i) < SPX_WOTS_W p"
    and "radix_value (SPX_WOTS_W p) (map unat ds) = be_value m"
proof -
  have fits: "SPX_WOTS_LEN1 p * SPX_WOTS_LOGW p \<le> 8 * length m"
    by (simp add: LEN1_logw [OF p] m)
  show "length ds = SPX_WOTS_LEN1 p" "\<And>i. i < SPX_WOTS_LEN1 p \<Longrightarrow> unat (ds ! i) < SPX_WOTS_W p"
    unfolding ds_def using p fits by (simp_all add: base_w_less_W)
  show "radix_value (SPX_WOTS_W p) (map unat ds) = be_value m"
    unfolding ds_def radix_value_base_w [OF p fits]
    using LEN1_logw [OF p] by (simp add: m mult.commute [of "SPX_WOTS_LOGW p"])
qed

lemma chain_lengths_props:
  assumes p: "wf_params p" and m: "length m = SPX_N p"
  shows length_chain_lengths: "length (chain_lengths p m) = SPX_WOTS_LEN p"
    and chain_lengths_less: "i < SPX_WOTS_LEN p \<Longrightarrow> unat (chain_lengths p m ! i) < SPX_WOTS_W p"
proof -
  let ?ds = "base_w p (SPX_WOTS_LEN1 p) m"
  note ds = msg_digits [OF assms]
  note cs = wots_checksum_value [OF p ds(2), simplified]
  show "length (chain_lengths p m) = SPX_WOTS_LEN p"
    by (simp add: chain_lengths_def Let_def ds cs SPX_WOTS_LEN_def)
  have "\<And>i. i < SPX_WOTS_LEN2 p \<Longrightarrow> unat (wots_checksum p ?ds ! i) < SPX_WOTS_W p"
    unfolding wots_checksum_def Let_def
    by (rule base_w_less_W [OF p]) (simp only: length_ull_to_bytes csum_size(1) [OF p] le_add1)+
  then show "i < SPX_WOTS_LEN p \<Longrightarrow> unat (chain_lengths p m ! i) < SPX_WOTS_W p"
    using ds by (simp add: chain_lengths_def Let_def nth_append SPX_WOTS_LEN_def)
qed

lemma sum_le_eq_pointwise:
  assumes "\<And>i. i < n \<Longrightarrow> f i \<le> (g i :: nat)" and "sum f {..<n} = sum g {..<n}" and "i < (n :: nat)"
  shows "f i = g i"
  using sum_mono_inv [of f "{..<n}" g i] assms by simp

text \<open>
  The checksum: of two messages, none dominates the other, so that no signature can be turned
  into one of another message by walking chains forward only.
\<close>

lemma chain_lengths_incomparable:
  assumes p: "wf_params p" and m: "length m = SPX_N p" "length m' = SPX_N p" and neq: "m \<noteq> m'"
  shows "\<exists>i < SPX_WOTS_LEN p. chain_lengths p m ! i < chain_lengths p m' ! i"
proof (rule ccontr)
  assume *: "\<not> ?thesis"
  have ge: "unat (chain_lengths p m' ! i) \<le> unat (chain_lengths p m ! i)"
    if "i < SPX_WOTS_LEN p" for i
    using that * by (meson not_less word_le_nat_alt)
  let ?ds = "base_w p (SPX_WOTS_LEN1 p) m" and ?ds' = "base_w p (SPX_WOTS_LEN1 p) m'"
  let ?cs = "wots_checksum p ?ds" and ?cs' = "wots_checksum p ?ds'"
  note ds = msg_digits [OF p m(1)] and ds' = msg_digits [OF p m(2)]
  note cs = wots_checksum_value [OF p ds(2), simplified]
  note cs' = wots_checksum_value [OF p ds'(2), simplified]
  have d: "unat (?ds' ! i) \<le> unat (?ds ! i)" if "i < SPX_WOTS_LEN1 p" for i
    using ge [of i] that ds ds' by (simp add: chain_lengths_def Let_def nth_append SPX_WOTS_LEN_def)
  have c: "unat (?cs' ! i) \<le> unat (?cs ! i)" if "i < SPX_WOTS_LEN2 p" for i
    using ge [of "SPX_WOTS_LEN1 p + i"] that ds ds'
    by (simp add: chain_lengths_def Let_def nth_append SPX_WOTS_LEN_def)
  have "wots_csum p ?ds' \<le> wots_csum p ?ds"
    using radix_value_mono [of "map unat ?cs'" "map unat ?cs" "SPX_WOTS_W p"] cs cs' c by simp
  moreover have "wots_csum p ?ds \<le> wots_csum p ?ds'"
    unfolding wots_csum_def by (rule sum_mono) (use d in \<open>simp add: diff_le_mono2\<close>)
  ultimately have "wots_csum p ?ds = wots_csum p ?ds'" by simp
  then have "SPX_WOTS_W p - 1 - unat (?ds ! i) = SPX_WOTS_W p - 1 - unat (?ds' ! i)"
    if "i < SPX_WOTS_LEN1 p" for i
    using d that unfolding wots_csum_def by (rule_tac sum_le_eq_pointwise) (auto intro: diff_le_mono2)
  then have "unat (?ds ! i) = unat (?ds' ! i)" if "i < SPX_WOTS_LEN1 p" for i
    using ds(2) [OF that] ds'(2) [OF that] that by fastforce
  then have "map unat ?ds = map unat ?ds'"
    using ds(1) ds'(1) by (simp add: list_eq_iff_nth_eq)
  with ds(3) ds'(3) have "be_value m = be_value m'" by simp
  with m neq show False using be_value_inj [of m m'] by simp
qed

section \<open>Chains\<close>

text \<open>
  The reference: \<open>wots_chain \<dots> i k\<close> is the value of chain \<open>i\<close> of key pair \<open>kp\<close> after \<open>k\<close> hashes of
  its secret element; the public key is the concatenation of the tops, the leaf is its hash.
\<close>

primrec wots_chain ::
  "spx_params \<Rightarrow> spx_hash \<Rightarrow> spx_ctx \<Rightarrow> bytes \<Rightarrow> u32 \<Rightarrow> nat \<Rightarrow> nat \<Rightarrow> bytes" where
  "wots_chain p H ctx base kp i 0 =
     prf_addr H ctx (chain_addr p base kp (of_nat i) SPX_ADDR_TYPE_WOTSPRF 0)"
| "wots_chain p H ctx base kp i (Suc k) =
     thash H (wots_chain p H ctx base kp i k) 1 ctx
       (chain_addr p base kp (of_nat i) SPX_ADDR_TYPE_WOTS (of_nat k))"

definition wots_pk :: "spx_params \<Rightarrow> spx_hash \<Rightarrow> spx_ctx \<Rightarrow> bytes \<Rightarrow> u32 \<Rightarrow> bytes" where
  "wots_pk p H ctx base kp =
     concat (map (\<lambda>i. wots_chain p H ctx base kp i (SPX_WOTS_W p - 1)) [0..<SPX_WOTS_LEN p])"

definition wots_leaf ::
  "spx_params \<Rightarrow> spx_hash \<Rightarrow> spx_ctx \<Rightarrow> bytes \<Rightarrow> bytes \<Rightarrow> u32 \<Rightarrow> bytes" where
  "wots_leaf p H ctx base pbase kp =
     thash H (wots_pk p H ctx base kp) (SPX_WOTS_LEN p) ctx (set_keypair_addr p pbase kp)"

definition wots_signature ::
  "spx_params \<Rightarrow> spx_hash \<Rightarrow> spx_ctx \<Rightarrow> bytes \<Rightarrow> u32 \<Rightarrow> u32 list \<Rightarrow> bytes" where
  "wots_signature p H ctx base kp steps =
     concat (map (\<lambda>i. wots_chain p H ctx base kp i (unat (steps ! i))) [0..<SPX_WOTS_LEN p])"

text \<open>The address of a chain, whichever hash of it was computed last.\<close>

definition in_chain :: "spx_params \<Rightarrow> bytes \<Rightarrow> u32 \<Rightarrow> u32 \<Rightarrow> bytes \<Rightarrow> bool" where
  "in_chain p base kp ty a \<longleftrightarrow> (\<exists>ch hs. a = chain_addr p base kp ch ty hs)"

definition in_leaf :: "spx_params \<Rightarrow> bytes \<Rightarrow> bytes \<Rightarrow> bool" where
  "in_leaf p base a \<longleftrightarrow> (\<exists>kp ch ty hs. a = chain_addr p base kp ch ty hs)"

lemma unat_complement:
  assumes "unat l < w" and "w < 2 ^ 32"
  shows "unat (of_nat w - 1 - l :: u32) = w - 1 - unat l"
proof -
  have "of_nat w - 1 - l = (of_nat (w - 1 - unat l) :: u32)"
    using assms(1) by (simp add: of_nat_diff)
  then show ?thesis using assms(2) by (simp add: unsigned_of_nat take_bit_nat_eq_self)
qed

context spx_thash
begin

lemma length_wots_chain [simp, len_simps]: "length (wots_chain p H ctx base kp i k) = SPX_N p"
  by (cases k) simp_all

lemma length_wots_signature [simp]: "length (wots_signature p H ctx base kp steps) = SPX_WOTS_BYTES p"
  unfolding wots_signature_def SPX_WOTS_BYTES_def
  by (subst length_concat_blocks [where n = "SPX_N p"]) auto

lemma gen_chain_correct:
  assumes base: "length base = SPX_ADDR_BYTES"
    and le: "unat s + unat t < SPX_WOTS_W p"
  shows "\<exists>hs'. gen_chain p H (wots_chain p H ctx base kp i (unat s)) s t ctx
      (chain_addr p base kp (of_nat i) SPX_ADDR_TYPE_WOTS hs) =
    (wots_chain p H ctx base kp i (unat s + unat t), chain_addr p base kp (of_nat i) SPX_ADDR_TYPE_WOTS hs')"
proof -
  let ?P = "\<lambda>k s. \<exists>hs'. s = (wots_chain p H ctx base kp i k, chain_addr p base kp (of_nat i) SPX_ADDR_TYPE_WOTS hs')"
  have "unat (s + t) = unat s + unat t"
    using le wf_p by (subst unat_add_lem [THEN iffD1]) (auto simp: wf_params_def)
  moreover have "?P (unat s + unat t)
      (fold (\<lambda>i (out, addr). let addr = set_hash_addr p addr (of_nat i) in (thash H out 1 ctx addr, addr))
        [unat s ..< unat s + unat t]
        (wots_chain p H ctx base kp i (unat s), chain_addr p base kp (of_nat i) SPX_ADDR_TYPE_WOTS hs))"
    by (rule fold_upt_invar [where P = ?P]) (auto simp: Let_def addr_simps base)
  ultimately show ?thesis
    using le by (simp add: gen_chain_def)
qed

text \<open>The verifier walks every chain from the signed position to its top.\<close>

lemma wots_pk_from_sig_correct:
  assumes base: "length base = SPX_ADDR_BYTES" and m: "length msg = SPX_N p"
    and a: "in_chain p base kp SPX_ADDR_TYPE_WOTS addr"
  shows "fst (wots_pk_from_sig p H (wots_signature p H ctx base kp (chain_lengths p msg)) msg ctx addr) =
    wots_pk p H ctx base kp"
    and "in_chain p base kp SPX_ADDR_TYPE_WOTS
      (snd (wots_pk_from_sig p H (wots_signature p H ctx base kp (chain_lengths p msg)) msg ctx addr))"
proof -
  let ?l = "chain_lengths p msg" and ?N = "SPX_N p" and ?c = "wots_chain p H ctx base kp"
  let ?sig = "wots_signature p H ctx base kp ?l"
  let ?f = "\<lambda>i (pk, addr).
     let addr = set_chain_addr p addr (of_nat i);
         (out, addr) = gen_chain p H (bslice (i * ?N) ?N ?sig) (?l ! i)
           (of_nat (SPX_WOTS_W p) - 1 - ?l ! i) ctx addr
     in (pk @ out, addr)"
  let ?P = "\<lambda>i (pk, addr). pk = concat (map (\<lambda>i. ?c i (SPX_WOTS_W p - 1)) [0..<i]) \<and>
    in_chain p base kp SPX_ADDR_TYPE_WOTS addr"
  have "?P (SPX_WOTS_LEN p) (fold ?f [0..<SPX_WOTS_LEN p] ([], addr))"
  proof (rule fold_upt_invar [where P = ?P])
    fix i and s :: "bytes \<times> bytes"
    assume i: "i < SPX_WOTS_LEN p" and inv: "?P i s"
    obtain pk a where s: "s = (pk, a)" by fastforce
    from inv obtain ch hs where a: "a = chain_addr p base kp ch SPX_ADDR_TYPE_WOTS hs"
      by (auto simp: s in_chain_def)
    have slice: "bslice (i * ?N) ?N ?sig = ?c i (unat (?l ! i))"
      unfolding wots_signature_def using i by (subst bslice_concat [where n = ?N]) auto
    have l: "unat (?l ! i) < SPX_WOTS_W p"
      using i by (rule chain_lengths_less [OF wf_p m])
    then have t: "unat (of_nat (SPX_WOTS_W p) - 1 - ?l ! i) = SPX_WOTS_W p - 1 - unat (?l ! i)"
      using wf_p by (intro unat_complement) (auto simp: wf_params_def)
    obtain hs' where "gen_chain p H (?c i (unat (?l ! i))) (?l ! i) (of_nat (SPX_WOTS_W p) - 1 - ?l ! i) ctx
        (chain_addr p base kp (of_nat i) SPX_ADDR_TYPE_WOTS hs) =
        (?c i (SPX_WOTS_W p - 1), chain_addr p base kp (of_nat i) SPX_ADDR_TYPE_WOTS hs')"
      using gen_chain_correct [OF base, of "?l ! i" "of_nat (SPX_WOTS_W p) - 1 - ?l ! i" ctx kp i hs] t l
      by auto
    then show "?P (Suc i) (?f i s)"
      using inv by (auto simp: s a slice Let_def addr_simps base in_chain_def)
  qed (use a in auto)
  then show "fst (wots_pk_from_sig p H ?sig msg ctx addr) = wots_pk p H ctx base kp"
    and "in_chain p base kp SPX_ADDR_TYPE_WOTS (snd (wots_pk_from_sig p H ?sig msg ctx addr))"
    by (auto simp: wots_pk_from_sig_def Let_def wots_pk_def split: prod.splits)
qed

end

lemma memcpy_at_append_drop:
  assumes "length a = off"
  shows "memcpy_at (a @ drop off b) off x = (a @ x) @ drop (off + length x) b"
  using assms by (simp add: memcpy_at_def add.commute)

lemma of_nat_u32_eq_iff: "k < 2 ^ 32 \<Longrightarrow> (of_nat k = (w :: u32)) = (k = unat w)"
  by (auto simp: word_unat_eq_iff unsigned_of_nat take_bit_nat_eq_self)

text \<open>What a call of \<open>wots_gen_leafx1\<close> relies on of its \<open>info\<close> argument.\<close>

definition leaf_args :: "spx_params \<Rightarrow> bytes \<Rightarrow> bytes \<Rightarrow> leaf_info_x1 \<Rightarrow> bool" where
  "leaf_args p base pbase info \<longleftrightarrow> in_leaf p base (leaf_addr info) \<and>
     (\<forall>kp. set_keypair_addr p (pk_addr info) kp = set_keypair_addr p pbase kp) \<and>
     length (wots_sig info) = SPX_WOTS_BYTES p \<and>
     (\<forall>i < SPX_WOTS_LEN p. unat (wots_steps info ! i) < SPX_WOTS_W p)"

lemma in_leaf_chain_addr [simp]: "in_leaf p base (chain_addr p base kp ch ty hs)"
  by (auto simp: in_leaf_def)

context spx_thash
begin

text \<open>One chain of the leaf: its top, and its value at \<open>wots_k\<close> copied into the signature.\<close>

lemma wots_chainx1_correct:
  assumes base: "length base = SPX_ADDR_BYTES" and "k + left < 2 ^ 32"
    and "i * SPX_N p + SPX_N p \<le> length sig"
  shows "\<exists>hs'. wots_chainx1 p H ctx i wk left k (wots_chain p H ctx base kp i k) sig
      (chain_addr p base kp (of_nat i) SPX_ADDR_TYPE_WOTS hs) =
    (wots_chain p H ctx base kp i (k + left),
     if k \<le> unat wk \<and> unat wk \<le> k + left
     then memcpy_at sig (i * SPX_N p) (wots_chain p H ctx base kp i (unat wk)) else sig,
     chain_addr p base kp (of_nat i) SPX_ADDR_TYPE_WOTS hs')"
  using assms(2,3)
proof (induction left arbitrary: k sig hs)
  case 0
  then have "(of_nat k = wk) = (k = unat wk)" by (simp add: of_nat_u32_eq_iff)
  then show ?case
    by (subst wots_chainx1.simps) (auto simp: Let_def)
next
  case (Suc left)
  let ?c = "wots_chain p H ctx base kp i"
  let ?sig = "if of_nat k = wk then memcpy_at sig (i * SPX_N p) (?c k) else sig"
  have k: "(of_nat k = wk) = (k = unat wk)" using Suc.prems by (simp add: of_nat_u32_eq_iff)
  have "i * SPX_N p + SPX_N p \<le> length ?sig" using Suc.prems by simp
  with Suc.prems obtain hs' where
    "wots_chainx1 p H ctx i wk left (Suc k) (?c (Suc k)) ?sig
        (chain_addr p base kp (of_nat i) SPX_ADDR_TYPE_WOTS (of_nat k)) =
     (?c (Suc k + left),
      if Suc k \<le> unat wk \<and> unat wk \<le> Suc k + left
      then memcpy_at ?sig (i * SPX_N p) (?c (unat wk)) else ?sig,
      chain_addr p base kp (of_nat i) SPX_ADDR_TYPE_WOTS hs')"
    using Suc.IH [of "Suc k" ?sig "of_nat k"] by auto
  then show ?case
    using k by (subst wots_chainx1.simps) (auto simp: Let_def addr_simps base)
qed


lemma wots_gen_leafx1_correct:
  assumes base: "length base = SPX_ADDR_BYTES" and args: "leaf_args p base pbase info"
  obtains la where "wots_gen_leafx1 p H ctx kp info =
      (wots_leaf p H ctx base pbase kp,
       info\<lparr>wots_sig := if kp = wots_sign_leaf info then wots_signature p H ctx base kp (wots_steps info)
                        else wots_sig info,
            leaf_addr := la, pk_addr := set_keypair_addr p pbase kp\<rparr>)"
    and "in_leaf p base la"
proof -
  let ?N = "SPX_N p" and ?c = "wots_chain p H ctx base kp" and ?W = "SPX_WOTS_W p"
  define msk where "msk = (if kp = wots_sign_leaf info then 0 else - 1 :: u32)"
  let ?f = "\<lambda>i (pk_buffer, sig, laddr).
      let wots_k = wots_steps info ! i OR msk;
          laddr = set_chain_addr p laddr (of_nat i);
          laddr = set_hash_addr p laddr 0;
          laddr = set_type p laddr SPX_ADDR_TYPE_WOTSPRF;
          buffer = prf_addr H ctx laddr;
          laddr = set_type p laddr SPX_ADDR_TYPE_WOTS;
          (buffer, sig, laddr) = wots_chainx1 p H ctx i wots_k (?W - 1) 0 buffer sig laddr
      in (pk_buffer @ buffer, sig, laddr)"
  let ?sig = "\<lambda>i. if kp = wots_sign_leaf info
      then concat (map (\<lambda>i. ?c i (unat (wots_steps info ! i))) [0..<i]) @ drop (i * ?N) (wots_sig info)
      else wots_sig info"
  let ?P = "\<lambda>i (pk, sig, la). pk = concat (map (\<lambda>i. ?c i (?W - 1)) [0..<i]) \<and> sig = ?sig i \<and>
      (\<exists>ch ty hs. la = chain_addr p base kp ch ty hs)"
  have steps: "i < SPX_WOTS_LEN p \<Longrightarrow> unat (wots_steps info ! i) < ?W" for i
    using args by (simp add: leaf_args_def)
  have sl: "length (wots_sig info) = SPX_WOTS_LEN p * ?N"
    using args by (simp add: leaf_args_def SPX_WOTS_BYTES_def)
  have W: "1 < ?W" "?W \<le> 256" using wf_p by (auto simp: wf_params_def)
  have m1: "unat (- 1 :: u32) = 2 ^ 32 - 1" by (simp add: unsigned_minus_1_eq_mask mask_eq_exp_minus_1)
  have bound: "0 + (?W - 1) < 2 ^ 32" using W by simp
  have pre: "length (concat (map (\<lambda>i. wots_chain p H ctx base kp' i (f i)) [0..<i])) = i * ?N" for kp' f i
    by (subst length_concat_blocks [where n = ?N]) auto
  from args obtain kp0 ch ty hs where la: "leaf_addr info = chain_addr p base kp0 ch ty hs"
    by (auto simp: leaf_args_def in_leaf_def)
  have "?P (SPX_WOTS_LEN p) (fold ?f [0..<SPX_WOTS_LEN p]
      ([], wots_sig info, set_keypair_addr p (leaf_addr info) kp))"
  proof (rule fold_upt_invar [where P = ?P])
    fix i and s :: "bytes \<times> bytes \<times> bytes"
    assume i: "i < SPX_WOTS_LEN p" and inv: "?P i s"
    then obtain pk ch ty hs where s: "s = (pk, ?sig i, chain_addr p base kp ch ty hs)"
      and pk: "pk = concat (map (\<lambda>i. ?c i (?W - 1)) [0..<i])"
      by (cases s) auto
    let ?wk = "wots_steps info ! i OR msk"
    have "Suc i * ?N \<le> SPX_WOTS_LEN p * ?N" using i by (intro mult_le_mono1) simp
    then have fit: "i * ?N + ?N \<le> length (?sig i)" by (simp add: sl pre) linarith
    obtain hs' where "wots_chainx1 p H ctx i ?wk (?W - 1) 0 (?c i 0) (?sig i)
        (chain_addr p base kp (of_nat i) SPX_ADDR_TYPE_WOTS 0) =
        (?c i (?W - 1), if unat ?wk \<le> ?W - 1 then memcpy_at (?sig i) (i * ?N) (?c i (unat ?wk)) else ?sig i,
         chain_addr p base kp (of_nat i) SPX_ADDR_TYPE_WOTS hs')"
      using wots_chainx1_correct [OF base bound fit, of ctx ?wk kp 0] by auto
    moreover have "(if unat ?wk \<le> ?W - 1 then memcpy_at (?sig i) (i * ?N) (?c i (unat ?wk)) else ?sig i) = ?sig (Suc i)"
      using steps [OF i] W pre m1
      by (auto simp: msk_def memcpy_at_append_drop add.commute)
    ultimately show "?P (Suc i) (?f i s)"
      by (auto simp: s pk Let_def addr_simps base)
  qed (auto simp: la addr_simps base)
  then obtain la where fold: "fold ?f [0..<SPX_WOTS_LEN p]
      ([], wots_sig info, set_keypair_addr p (leaf_addr info) kp) =
      (wots_pk p H ctx base kp, ?sig (SPX_WOTS_LEN p), la)" and "in_leaf p base la"
    by (auto simp: wots_pk_def)
  moreover have "?sig (SPX_WOTS_LEN p) = (if kp = wots_sign_leaf info
      then wots_signature p H ctx base kp (wots_steps info) else wots_sig info)"
    using sl by (simp add: wots_signature_def)
  moreover have "set_keypair_addr p (pk_addr info) kp = set_keypair_addr p pbase kp"
    using args by (simp add: leaf_args_def)
  ultimately show thesis
    by (intro that [of la]) (simp_all add: wots_gen_leafx1_def Let_def msk_def wots_leaf_def)
qed

end

end
