(* ===== verification/SLH_Fors.thy ===== *)
theory SLH_Fors
  imports SLH_Wots
begin

text \<open>
  The few-time signature FORS (\<open>pqmagic/sig/slh_dsa/std/fors.c\<close>): the split of the message digest
  into indices, the signature (one secret element and authentication path per tree) and the
  recovery of the public key from it.

  The lemmas: the indices are the \<open>b\<close>-bit digits of the digest (FIPS 205, Algorithm 4); the public
  key recovered from a signature is the one the signer computed.
\<close>

section \<open>The code\<close>

record fors_gen_leaf_info =
  leaf_addrx :: bytes

definition fors_gen_sk :: "spx_hash \<Rightarrow> spx_ctx \<Rightarrow> bytes \<Rightarrow> bytes" where
  "fors_gen_sk H ctx fors_leaf_addr = prf_addr H ctx fors_leaf_addr"

definition fors_sk_to_leaf :: "spx_hash \<Rightarrow> bytes \<Rightarrow> spx_ctx \<Rightarrow> bytes \<Rightarrow> bytes" where
  "fors_sk_to_leaf H sk ctx fors_leaf_addr = thash H sk 1 ctx fors_leaf_addr"

definition fors_gen_leafx1 ::
  "spx_params \<Rightarrow> spx_hash \<Rightarrow> spx_ctx \<Rightarrow> u32 \<Rightarrow> fors_gen_leaf_info \<Rightarrow> bytes \<times> fors_gen_leaf_info" where
  "fors_gen_leafx1 p H ctx addr_idx info =
     (let fors_leaf_addr = set_tree_index p (leaf_addrx info) addr_idx;
          fors_leaf_addr = set_type p fors_leaf_addr SPX_ADDR_TYPE_FORSPRF;
          leaf = fors_gen_sk H ctx fors_leaf_addr;
          fors_leaf_addr = set_type p fors_leaf_addr SPX_ADDR_TYPE_FORSTREE
      in (fors_sk_to_leaf H leaf ctx fors_leaf_addr, info\<lparr>leaf_addrx := fors_leaf_addr\<rparr>))"

text \<open>\<open>message_to_indices\<close>: the inner \<open>while\<close> reads bytes until \<open>b\<close> bits are buffered.\<close>

function message_to_indices_fill :: "nat \<Rightarrow> bytes \<Rightarrow> nat \<Rightarrow> u32 \<Rightarrow> nat \<Rightarrow> nat \<times> u32 \<times> nat" where
  "message_to_indices_fill b inp pos tot bits =
     (if bits < b
      then message_to_indices_fill b inp (pos + 1) (push_bit 8 tot + ucast (inp ! pos)) (bits + 8)
      else (pos, tot, bits))"
  by pat_completeness auto
termination by (relation "measure (\<lambda>(b, inp, pos, tot, bits). b - bits)") auto

declare message_to_indices_fill.simps [simp del]

definition message_to_indices :: "spx_params \<Rightarrow> bytes \<Rightarrow> u32 list" where
  "message_to_indices p inp =
     (let msk = push_bit (SPX_FORS_HEIGHT p) 1 - 1;
          (pos, tot, bits, out) =
            fold (\<lambda>consumed (pos, tot, bits, out).
                let (pos, tot, bits) = message_to_indices_fill (SPX_FORS_HEIGHT p) inp pos tot bits;
                    bits = bits - SPX_FORS_HEIGHT p
                in (pos, tot, bits, out @ [drop_bit bits tot AND msk]))
              [0..<SPX_FORS_TREES p] (0, 0, 0, [])
      in out)"

text \<open>
  \<open>fors_sign\<close> writes the signature into the buffer \<open>sig\<close>: block \<open>i\<close> holds the secret element and
  the authentication path of tree \<open>i\<close>.
\<close>

definition fors_sign_tree ::
  "spx_params \<Rightarrow> spx_hash \<Rightarrow> spx_ctx \<Rightarrow> u32 list \<Rightarrow> nat \<Rightarrow>
   bytes \<times> bytes \<times> bytes \<times> fors_gen_leaf_info \<Rightarrow> bytes \<times> bytes \<times> bytes \<times> fors_gen_leaf_info" where
  "fors_sign_tree p H ctx indices i = (\<lambda>(sig, roots, fors_tree_addr, fors_info).
     let pos = i * ((1 + SPX_FORS_HEIGHT p) * SPX_N p);
         idx_offset = of_nat i * push_bit (SPX_FORS_HEIGHT p) 1;
         fors_tree_addr = set_tree_height p fors_tree_addr 0;
         fors_tree_addr = set_tree_index p fors_tree_addr (indices ! i + idx_offset);
         fors_tree_addr = set_type p fors_tree_addr SPX_ADDR_TYPE_FORSPRF;
         sig = memcpy_at sig pos (fors_gen_sk H ctx fors_tree_addr);
         fors_tree_addr = set_type p fors_tree_addr SPX_ADDR_TYPE_FORSTREE;
         pos = pos + SPX_N p;
         (root, auth, fors_tree_addr, fors_info) =
           treehashx1 p H (bslice pos (SPX_N p * SPX_FORS_HEIGHT p) sig) ctx (indices ! i) idx_offset
             (SPX_FORS_HEIGHT p) (fors_gen_leafx1 p H) fors_tree_addr fors_info
     in (memcpy_at sig pos auth, roots @ root, fors_tree_addr, fors_info))"

definition fors_sign ::
  "spx_params \<Rightarrow> spx_hash \<Rightarrow> bytes \<Rightarrow> bytes \<Rightarrow> spx_ctx \<Rightarrow> bytes \<Rightarrow> bytes \<times> bytes" where
  "fors_sign p H sig m ctx fors_addr =
     (let fors_tree_addr = copy_keypair_addr p zero_addr fors_addr;
          fors_info = \<lparr>leaf_addrx = copy_keypair_addr p zero_addr fors_addr\<rparr>;
          fors_pk_addr = copy_keypair_addr p zero_addr fors_addr;
          fors_pk_addr = set_type p fors_pk_addr SPX_ADDR_TYPE_FORSPK;
          indices = message_to_indices p m;
          (sig, roots, fors_tree_addr, fors_info) =
            fold (fors_sign_tree p H ctx indices) [0..<SPX_FORS_TREES p]
              (sig, [], fors_tree_addr, fors_info)
      in (sig, thash H roots (SPX_FORS_TREES p) ctx fors_pk_addr))"

definition fors_pk_from_sig_tree ::
  "spx_params \<Rightarrow> spx_hash \<Rightarrow> bytes \<Rightarrow> spx_ctx \<Rightarrow> u32 list \<Rightarrow> nat \<Rightarrow> bytes \<times> bytes \<Rightarrow> bytes \<times> bytes" where
  "fors_pk_from_sig_tree p H sig ctx indices i = (\<lambda>(roots, fors_tree_addr).
     let pos = i * ((1 + SPX_FORS_HEIGHT p) * SPX_N p);
         idx_offset = of_nat i * push_bit (SPX_FORS_HEIGHT p) 1;
         fors_tree_addr = set_tree_height p fors_tree_addr 0;
         fors_tree_addr = set_tree_index p fors_tree_addr (indices ! i + idx_offset);
         leaf = fors_sk_to_leaf H (bslice pos (SPX_N p) sig) ctx fors_tree_addr;
         pos = pos + SPX_N p;
         (root, fors_tree_addr) =
           compute_root p H leaf (indices ! i) idx_offset (bslice pos (SPX_N p * SPX_FORS_HEIGHT p) sig)
             (SPX_FORS_HEIGHT p) ctx fors_tree_addr
     in (roots @ root, fors_tree_addr))"

definition fors_pk_from_sig ::
  "spx_params \<Rightarrow> spx_hash \<Rightarrow> bytes \<Rightarrow> bytes \<Rightarrow> spx_ctx \<Rightarrow> bytes \<Rightarrow> bytes" where
  "fors_pk_from_sig p H sig m ctx fors_addr =
     (let fors_tree_addr = copy_keypair_addr p zero_addr fors_addr;
          fors_pk_addr = copy_keypair_addr p zero_addr fors_addr;
          fors_tree_addr = set_type p fors_tree_addr SPX_ADDR_TYPE_FORSTREE;
          fors_pk_addr = set_type p fors_pk_addr SPX_ADDR_TYPE_FORSPK;
          indices = message_to_indices p m;
          (roots, fors_tree_addr) =
            fold (fors_pk_from_sig_tree p H sig ctx indices) [0..<SPX_FORS_TREES p] ([], fors_tree_addr)
      in thash H roots (SPX_FORS_TREES p) ctx fors_pk_addr)"

section \<open>The indices\<close>

lemma be_value_div_take:
  assumes "k \<le> length bs"
  shows "be_value bs div 2 ^ (8 * (length bs - k)) = be_value (take k bs)"
proof -
  have "be_value bs = be_value (take k bs) * 2 ^ (8 * (length bs - k)) + be_value (drop k bs)"
    using be_value_append [of "take k bs" "drop k bs"] by simp
  moreover have "be_value (drop k bs) < 2 ^ (8 * (length bs - k))"
    using be_value_less [of "drop k bs"] by simp
  ultimately show ?thesis by simp
qed

lemma message_to_indices_fill_correct:
  assumes "bits < b + 8" and "8 * pos + (b - bits) \<le> 8 * length inp"
    and "tot = of_nat (be_value (take pos inp))" and "b \<le> 24"
  shows "\<exists>k. message_to_indices_fill b inp pos tot bits =
      (pos + k, of_nat (be_value (take (pos + k) inp)), bits + 8 * k) \<and>
    b \<le> bits + 8 * k \<and> bits + 8 * k < b + 8"
  using assms
proof (induction b inp pos tot bits rule: message_to_indices_fill.induct)
  case (1 b inp pos tot bits)
  show ?case
  proof (cases "bits < b")
    case True
    then have pos: "pos < length inp" using "1.prems" by linarith
    then have "take (Suc pos) inp = take pos inp @ [inp ! pos]"
      by (rule take_Suc_conv_app_nth)
    then have tot: "push_bit 8 tot + ucast (inp ! pos) = of_nat (be_value (take (Suc pos) inp))"
      using "1.prems" by (simp add: be_value_append push_bit_eq_mult mult.commute)
    have "8 * (pos + 1) + (b - (bits + 8)) \<le> 8 * length inp" using pos "1.prems" True by arith
    with tot "1.IH" [OF True] "1.prems" True obtain k where
      "message_to_indices_fill b inp (pos + 1) (push_bit 8 tot + ucast (inp ! pos)) (bits + 8) =
       (Suc pos + k, of_nat (be_value (take (Suc pos + k) inp)), bits + 8 + 8 * k)"
      and "b \<le> bits + 8 + 8 * k" "bits + 8 + 8 * k < b + 8"
      by auto
    with True show ?thesis
      by (subst message_to_indices_fill.simps) (auto intro!: exI [of _ "Suc k"])
  next
    case False
    with "1.prems" show ?thesis
      by (subst message_to_indices_fill.simps) (auto intro!: exI [of _ 0])
  qed
qed

lemma unat_index_bits:
  assumes "r + b \<le> 32"
  shows "unat (drop_bit r (of_nat n :: u32) AND (push_bit b 1 - 1)) = n div 2 ^ r mod 2 ^ b"
proof -
  have "(push_bit b 1 - 1 :: u32) = mask b"
    by (simp add: mask_eq_exp_minus_1 push_bit_eq_mult)
  then have "unat (drop_bit r (of_nat n :: u32) AND (push_bit b 1 - 1)) =
      take_bit b (drop_bit r (take_bit 32 n))"
    by (simp add: unsigned_take_bit_eq unat_drop_bit_eq unsigned_of_nat flip: take_bit_eq_mask)
  also have "\<dots> = take_bit b (drop_bit r n)"
    by (rule bit_eqI) (use assms in \<open>auto simp: bit_simps\<close>)
  finally show ?thesis by (simp add: take_bit_eq_mod drop_bit_eq_div)
qed

lemma enough_bytes:
  "x + bits = 8 * pos \<Longrightarrow> bits < 8 \<Longrightarrow> b + x \<le> 8 * n \<Longrightarrow> 8 * pos + (b - bits) \<le> 8 * (n :: nat)"
  by presburger

lemma message_to_indices_digits:
  assumes p: "wf_params p" and len: "SPX_FORS_HEIGHT p * SPX_FORS_TREES p \<le> 8 * length m"
  shows "map unat (message_to_indices p m) =
    map (be_digit (SPX_FORS_HEIGHT p) m) [0..<SPX_FORS_TREES p]"
proof -
  let ?b = "SPX_FORS_HEIGHT p" and ?n = "SPX_FORS_TREES p"
  let ?f = "\<lambda>consumed (pos, tot, bits, out).
     let (pos, tot, bits) = message_to_indices_fill ?b m pos tot bits;
         bits = bits - ?b
     in (pos, tot, bits, out @ [drop_bit bits tot AND (push_bit ?b 1 - 1)])"
  let ?P = "\<lambda>i (pos, tot, bits, out). bits < 8 \<and> ?b * i + bits = 8 * pos \<and>
    tot = of_nat (be_value (take pos m)) \<and> map unat out = map (be_digit ?b m) [0..<i]"
  have b: "0 < ?b" "?b \<le> 16" using p by (auto simp: wf_params_def)
  have "?P ?n (fold ?f [0..<?n] (0, 0, 0, []))"
  proof (rule fold_upt_invar [where P = ?P])
    fix i :: nat and s :: "nat \<times> u32 \<times> nat \<times> u32 list"
    assume i: "i < ?n" and inv: "?P i s"
    obtain pos tot bits out where s: "s = (pos, tot, bits, out)" by (metis prod_cases4)
    have "?b * Suc i \<le> ?b * ?n" using i by (intro mult_le_mono2) simp
    then have fits: "?b * Suc i \<le> 8 * length m" using len by simp
    have "8 * pos + (?b - bits) \<le> 8 * length m" 
      by (rule enough_bytes [of "?b * i"]) (use inv fits in \<open>simp_all add: s\<close>)
    then obtain k where k: "message_to_indices_fill ?b m pos tot bits =
        (pos + k, of_nat (be_value (take (pos + k) m)), bits + 8 * k)"
      and kb: "?b \<le> bits + 8 * k" "bits + 8 * k < ?b + 8"
      using message_to_indices_fill_correct [of bits ?b pos m tot] inv b by (auto simp: s)
    define r where "r = bits + 8 * k - ?b"
    have r: "?b * Suc i + r = 8 * (pos + k)" and "r < 8" using inv kb by (auto simp: s r_def)
    then have pk: "pos + k \<le> length m" using fits enough_bytes [of "?b * Suc i" r "pos + k" 0] by simp
    then have "8 * length m - ?b * (i + 1) = 8 * (length m - (pos + k)) + r" using r by simp
    then have "be_digit ?b m i = be_value (take (pos + k) m) div 2 ^ r mod 2 ^ ?b"
      by (simp only: be_digit_def power_add div_mult2_eq be_value_div_take [OF pk])
    moreover have "unat (drop_bit r (of_nat (be_value (take (pos + k) m)) :: u32) AND (push_bit ?b 1 - 1)) =
        be_value (take (pos + k) m) div 2 ^ r mod 2 ^ ?b"
      using \<open>r < 8\<close> b by (intro unat_index_bits) simp
    moreover have "?f i s = (pos + k, of_nat (be_value (take (pos + k) m)), r,
        out @ [drop_bit r (of_nat (be_value (take (pos + k) m))) AND (push_bit ?b 1 - 1)])"
      by (simp add: s k Let_def r_def)
    ultimately show "?P (Suc i) (?f i s)"
      using inv r \<open>r < 8\<close> by (simp add: s)
  qed auto
  then show ?thesis by (auto simp: message_to_indices_def Let_def split: prod.splits)
qed

section \<open>Signature and public key\<close>

lemma message_to_indices_props:
  assumes "wf_params p" and "length m = SPX_FORS_MSG_BYTES p"
  shows "length (message_to_indices p m) = SPX_FORS_TREES p"
    and "i < SPX_FORS_TREES p \<Longrightarrow> unat (message_to_indices p m ! i) < 2 ^ SPX_FORS_HEIGHT p"
proof -
  have "SPX_FORS_HEIGHT p * SPX_FORS_TREES p \<le> 8 * length m"
    using assms(2) unfolding SPX_FORS_MSG_BYTES_def by presburger
  from message_to_indices_digits [OF assms(1) this]
  have eq: "map unat (message_to_indices p m) = map (be_digit (SPX_FORS_HEIGHT p) m) [0..<SPX_FORS_TREES p]" .
  then show len: "length (message_to_indices p m) = SPX_FORS_TREES p"
    by (metis diff_zero length_map length_upt)
  show "i < SPX_FORS_TREES p \<Longrightarrow> unat (message_to_indices p m ! i) < 2 ^ SPX_FORS_HEIGHT p"
    using arg_cong [OF eq, of "\<lambda>xs. xs ! i"] len by (simp add: be_digit_less)
qed

text \<open>
  Addresses of the FORS trees of one key pair: \<open>b\<close> is the address with the layer, tree and key
  pair; type, height and index are overwritten.
\<close>

definition fors_ok :: "spx_params \<Rightarrow> bytes \<Rightarrow> bytes \<Rightarrow> bool" where
  "fors_ok p b a \<longleftrightarrow> length a = SPX_ADDR_BYTES \<and>
     (\<forall>ty h i. node_addr p (set_type p a ty) h i = node_addr p (set_type p b ty) h i)"

definition fors_leaf_ok :: "spx_params \<Rightarrow> bytes \<Rightarrow> bytes \<Rightarrow> bool" where
  "fors_leaf_ok p b a \<longleftrightarrow> length a = SPX_ADDR_BYTES \<and>
     (\<forall>ty i. set_type p (set_tree_index p a i) ty = node_addr p (set_type p b ty) 0 i)"

lemma set_type_twice [addr_simps]:
  "wf_offsets p \<Longrightarrow> length a = SPX_ADDR_BYTES \<Longrightarrow> set_type p (set_type p a ty) ty' = set_type p a ty'"
  by (rule addr_eqI) (auto simp: len_simps addr_simps)

lemma fors_ok_simps:
  assumes w: "wf_offsets p" and b: "length b = SPX_ADDR_BYTES"
  shows "fors_ok p b b"
    and "addr_ok p (set_type p b ty) a \<Longrightarrow> fors_ok p b a"
    and "fors_ok p b a \<Longrightarrow>
      set_type p (set_tree_index p (set_tree_height p a h) i) ty' = node_addr p (set_type p b ty') h i"
    and "fors_leaf_ok p b a \<Longrightarrow>
      set_type p (set_tree_index p a i) ty' = node_addr p (set_type p b ty') 0 i"
    and "fors_leaf_ok p b (node_addr p (set_type p b ty) 0 i)"
proof -
  show "fors_ok p b b" using b by (simp add: fors_ok_def)
  show "fors_ok p b a" if "addr_ok p (set_type p b ty) a"
    unfolding fors_ok_def
  proof (intro conjI allI)
    show "length a = SPX_ADDR_BYTES" using that by (simp add: addr_ok_def)
    fix ty' h i
    have "node_addr p (set_type p a ty') h i = set_type p (node_addr p a h i) ty'"
      by (rule node_addr_overwrite(3) [OF w, symmetric]) (use that in \<open>simp add: addr_ok_def\<close>)
    also have "\<dots> = set_type p (node_addr p (set_type p b ty) h i) ty'"
      using that by (simp add: addr_ok_def)
    finally show "node_addr p (set_type p a ty') h i = node_addr p (set_type p b ty') h i"
      using w b by (simp add: addr_simps len_simps)
  qed
  show "set_type p (set_tree_index p (set_tree_height p a h) i) ty' = node_addr p (set_type p b ty') h i"
    if "fors_ok p b a"
    using that w unfolding fors_ok_def by (simp add: addr_simps flip: node_addr_def)
  show "set_type p (set_tree_index p a i) ty' = node_addr p (set_type p b ty') 0 i"
    if "fors_leaf_ok p b a"
    using that by (simp add: fors_leaf_ok_def)
  show "fors_leaf_ok p b (node_addr p (set_type p b ty) 0 i)"
    using w b by (simp add: fors_leaf_ok_def addr_simps len_simps)
qed

lemma fors_leaf_ok_zero:
  assumes "wf_offsets p" and "length fa = SPX_ADDR_BYTES"
  shows "fors_leaf_ok p (copy_keypair_addr p zero_addr fa) (copy_keypair_addr p zero_addr fa)"
proof -
  let ?b = "copy_keypair_addr p zero_addr fa"
  have "set_tree_height p ?b 0 = ?b"
    by (rule addr_eqI) (use assms in \<open>auto simp: len_simps addr_simps wf_offsets_def\<close>)
  then have "set_tree_index p ?b i = node_addr p ?b 0 i" for i
    by (simp add: node_addr_def)
  then show ?thesis using assms by (simp add: fors_leaf_ok_def len_simps addr_simps)
qed

text \<open>The reference: leaf, tree \<open>i\<close>, public key.\<close>

definition fors_leaf :: "spx_params \<Rightarrow> spx_hash \<Rightarrow> spx_ctx \<Rightarrow> bytes \<Rightarrow> u32 \<Rightarrow> bytes" where
  "fors_leaf p H ctx b idx =
     thash H (prf_addr H ctx (node_addr p (set_type p b SPX_ADDR_TYPE_FORSPRF) 0 idx)) 1 ctx
       (node_addr p (set_type p b SPX_ADDR_TYPE_FORSTREE) 0 idx)"

definition fors_offset :: "spx_params \<Rightarrow> nat \<Rightarrow> u32" where
  "fors_offset p i = of_nat i * push_bit (SPX_FORS_HEIGHT p) 1"

definition fors_node :: "spx_params \<Rightarrow> spx_hash \<Rightarrow> spx_ctx \<Rightarrow> bytes \<Rightarrow> nat \<Rightarrow> nat \<Rightarrow> nat \<Rightarrow> bytes" where
  "fors_node p H ctx b i =
     merkle_node (node_hash p H ctx (set_type p b SPX_ADDR_TYPE_FORSTREE) (fors_offset p i))
       (\<lambda>k. fors_leaf p H ctx b (of_nat k + fors_offset p i))"

definition fors_pk :: "spx_params \<Rightarrow> spx_hash \<Rightarrow> spx_ctx \<Rightarrow> bytes \<Rightarrow> bytes" where
  "fors_pk p H ctx b =
     thash H (concat (map (\<lambda>i. fors_node p H ctx b i (SPX_FORS_HEIGHT p) 0) [0..<SPX_FORS_TREES p]))
       (SPX_FORS_TREES p) ctx (set_type p b SPX_ADDR_TYPE_FORSPK)"

text \<open>What block \<open>i\<close> of a signature holds: the secret element, then the authentication path.\<close>

definition fors_block :: "spx_params \<Rightarrow> spx_hash \<Rightarrow> spx_ctx \<Rightarrow> bytes \<Rightarrow> u32 list \<Rightarrow> nat \<Rightarrow> bytes \<Rightarrow> bool" where
  "fors_block p H ctx b indices i blk \<longleftrightarrow>
     length blk = (1 + SPX_FORS_HEIGHT p) * SPX_N p \<and>
     take (SPX_N p) blk = prf_addr H ctx
       (node_addr p (set_type p b SPX_ADDR_TYPE_FORSPRF) 0 (indices ! i + fors_offset p i)) \<and>
     (\<forall>h < SPX_FORS_HEIGHT p. bslice (h * SPX_N p) (SPX_N p) (drop (SPX_N p) blk) =
        fors_node p H ctx b i h (sibling (unat (indices ! i) div 2 ^ h)))"

context spx_thash
begin

lemma fors_gen_leafx1_correct:
  assumes "length b = SPX_ADDR_BYTES" and "fors_leaf_ok p b (leaf_addrx info)"
  shows "fors_gen_leafx1 p H ctx idx info =
    (fors_leaf p H ctx b idx, \<lparr>leaf_addrx = node_addr p (set_type p b SPX_ADDR_TYPE_FORSTREE) 0 idx\<rparr>)"
proof -
  have "info\<lparr>leaf_addrx := a\<rparr> = \<lparr>leaf_addrx = a\<rparr>" for a
    by (cases info) simp
  then show ?thesis
    using assms by (simp add: fors_gen_leafx1_def Let_def fors_ok_simps(4) [of p b] fors_leaf_def
        fors_gen_sk_def fors_sk_to_leaf_def addr_simps len_simps)
qed

lemma fors_leaves:
  assumes "length b = SPX_ADDR_BYTES" and "fors_leaf_ok p b (leaf_addrx info)"
  shows "fors_leaf_ok p b (leaf_addrx (leaf_info (fors_gen_leafx1 p H) ctx off info k))"
    and "leaf_at (fors_gen_leafx1 p H) ctx off info k = fors_leaf p H ctx b (of_nat k + off)"
proof -
  show ok: "fors_leaf_ok p b (leaf_addrx (leaf_info (fors_gen_leafx1 p H) ctx off info k))"
    by (induction k) (use assms in \<open>simp_all add: fors_gen_leafx1_correct fors_ok_simps(5)\<close>)
  show "leaf_at (fors_gen_leafx1 p H) ctx off info k = fors_leaf p H ctx b (of_nat k + off)"
    using fors_gen_leafx1_correct [OF assms(1) ok] by (simp add: leaf_at_def)
qed

lemma length_fors_node [simp]: "length (fors_node p H ctx b i h j) = SPX_N p"
  by (cases h) (simp_all add: fors_node_def node_hash_def fors_leaf_def)

lemma fors_height_less [simp]: "SPX_FORS_HEIGHT p < 32" and fors_height_pos [simp]: "0 < SPX_FORS_HEIGHT p"
  using wf_p by (auto simp: wf_params_def)

text \<open>One tree of the signature: block \<open>i\<close> is written, the others are kept.\<close>

lemma fors_sign_tree_correct:
  fixes b :: bytes
  defines "B \<equiv> (1 + SPX_FORS_HEIGHT p) * SPX_N p"
  assumes b: "length b = SPX_ADDR_BYTES" and i: "i < SPX_FORS_TREES p"
    and idx: "unat (indices ! i) < 2 ^ SPX_FORS_HEIGHT p"
    and sig: "length sig = SPX_FORS_BYTES p"
    and a: "fors_ok p b a" and info: "fors_leaf_ok p b (leaf_addrx info)"
  obtains sig' a' info' where
    "fors_sign_tree p H ctx indices i (sig, roots, a, info) =
       (sig', roots @ fors_node p H ctx b i (SPX_FORS_HEIGHT p) 0, a', info')"
    and "length sig' = SPX_FORS_BYTES p" and "fors_ok p b a'" and "fors_leaf_ok p b (leaf_addrx info')"
    and "fors_block p H ctx b indices i (bslice (i * B) B sig')"
    and "\<And>j. j < i \<Longrightarrow> bslice (j * B) B sig' = bslice (j * B) B sig"
proof -
  let ?N = "SPX_N p" and ?hh = "SPX_FORS_HEIGHT p" and ?off = "fors_offset p i"
  let ?base = "node_addr p (set_type p b SPX_ADDR_TYPE_FORSTREE) 0 (indices ! i + ?off)"
  let ?sk = "prf_addr H ctx (node_addr p (set_type p b SPX_ADDR_TYPE_FORSPRF) 0 (indices ! i + ?off))"
  let ?sig1 = "memcpy_at sig (i * B) ?sk"
  have "Suc i * B \<le> SPX_FORS_TREES p * B" using i by (intro mult_le_mono1) simp
  then have fit: "i * B + B \<le> length sig"
    by (simp add: sig SPX_FORS_BYTES_def B_def algebra_simps)
  have B: "B = ?N + ?N * ?hh" by (simp add: B_def algebra_simps)
  have base: "length ?base = SPX_ADDR_BYTES" using b by (simp add: len_simps)
  have nodes: "merkle_node (node_hash p H ctx ?base ?off) (leaf_at (fors_gen_leafx1 p H) ctx ?off info) =
      fors_node p H ctx b i"
    using b by (simp add: fors_node_def fors_leaves(2) [OF b info, abs_def] node_hash_def [abs_def]
        addr_simps len_simps)
  have "length (bslice (i * B + ?N) (?N * ?hh) ?sig1) = ?hh * ?N"
    using fit B by (simp add: mult.commute)
  moreover have "length (leaf_at (fors_gen_leafx1 p H) ctx ?off info k) = ?N" for k
    by (simp add: fors_leaves(2) [OF b info] fors_leaf_def)
  ultimately obtain auth a' where th: "treehashx1 p H (bslice (i * B + ?N) (?N * ?hh) ?sig1) ctx (indices ! i) ?off ?hh
      (fors_gen_leafx1 p H) ?base info =
      (fors_node p H ctx b i ?hh 0, auth, a', leaf_info (fors_gen_leafx1 p H) ctx ?off info (2 ^ ?hh))"
    and auth: "length auth = ?hh * ?N" and a': "addr_ok p ?base a'"
    and path: "\<And>h. h < ?hh \<Longrightarrow> bslice (h * ?N) ?N auth = fors_node p H ctx b i h (sibling (unat (indices ! i) div 2 ^ h))"
    using treehashx1_correct [where gen = "fors_gen_leafx1 p H" and info = info and ctx = ctx and base = ?base
        and off = ?off and th = ?hh and auth = "bslice (i * B + ?N) (?N * ?hh) ?sig1" and leaf_idx = "indices ! i", unfolded nodes]
      base idx by (metis fors_height_less)
  let ?sig2 = "memcpy_at ?sig1 (i * B + ?N) auth"
  have blk: "bslice (i * B) B ?sig2 = ?sk @ auth"
    using fit auth B by (simp add: bslice_def memcpy_at_def mult.commute)
  have "fors_sign_tree p H ctx indices i (sig, roots, a, info) =
      (?sig2, roots @ fors_node p H ctx b i ?hh 0, a', leaf_info (fors_gen_leafx1 p H) ctx ?off info (2 ^ ?hh))"
    unfolding fors_sign_tree_def Let_def fors_offset_def [symmetric] B_def [symmetric]
    using th a b by (simp add: fors_ok_simps(3) fors_gen_sk_def addr_simps len_simps)
  moreover have "fors_block p H ctx b indices i (bslice (i * B) B ?sig2)"
    unfolding blk fors_block_def using auth path by (simp add: B_def)
  moreover have "fors_ok p b a'"
    using a' b by (intro fors_ok_simps(2) [of p b SPX_ADDR_TYPE_FORSTREE]) (simp_all add: addr_ok_def addr_simps len_simps)
  moreover have "bslice (j * B) B ?sig2 = bslice (j * B) B sig" if "j < i" for j
  proof -
    have "Suc j * B \<le> i * B" using that by (intro mult_le_mono1) simp
    then have "j * B + B \<le> i * B" by simp
    then show ?thesis using fit auth B by (simp add: bslice_memcpy_at_other mult.commute)
  qed
  moreover have "length ?sig2 = SPX_FORS_BYTES p"
    using fit auth B sig by (simp add: mult.commute)
  ultimately show thesis
    using that fors_leaves(1) [OF b info] by blast
qed

text \<open>The whole signature: the public key, and every block of the buffer.\<close>

lemma fors_sign_correct:
  fixes fa :: bytes
  defines "b \<equiv> copy_keypair_addr p zero_addr fa" and "B \<equiv> (1 + SPX_FORS_HEIGHT p) * SPX_N p"
  assumes fa: "length fa = SPX_ADDR_BYTES" and m: "length m = SPX_FORS_MSG_BYTES p"
    and sig: "length sig = SPX_FORS_BYTES p"
  obtains sig' where "fors_sign p H sig m ctx fa = (sig', fors_pk p H ctx b)"
    and "length sig' = SPX_FORS_BYTES p"
    and "\<And>i. i < SPX_FORS_TREES p \<Longrightarrow> fors_block p H ctx b (message_to_indices p m) i (bslice (i * B) B sig')"
proof -
  let ?idx = "message_to_indices p m" and ?n = "SPX_FORS_TREES p" and ?hh = "SPX_FORS_HEIGHT p"
  let ?P = "\<lambda>i (sig, roots, a, info). length sig = SPX_FORS_BYTES p \<and> fors_ok p b a \<and>
    fors_leaf_ok p b (leaf_addrx info) \<and> roots = concat (map (\<lambda>i. fors_node p H ctx b i ?hh 0) [0..<i]) \<and>
    (\<forall>j<i. fors_block p H ctx b ?idx j (bslice (j * B) B sig))"
  have b: "length b = SPX_ADDR_BYTES" using fa by (simp add: b_def len_simps)
  have "?P ?n (fold (fors_sign_tree p H ctx ?idx) [0..<?n] (sig, [], b, \<lparr>leaf_addrx = b\<rparr>))"
  proof (rule fold_upt_invar [where P = ?P])
    show "?P 0 (sig, [], b, \<lparr>leaf_addrx = b\<rparr>)"
      using sig fa b by (simp add: fors_ok_simps(1)) (simp add: b_def fors_leaf_ok_zero)
  next
    fix i and s :: "bytes \<times> bytes \<times> bytes \<times> fors_gen_leaf_info"
    assume i: "i < ?n" and inv: "?P i s"
    obtain sg r a info where s: "s = (sg, r, a, info)" by (metis prod_cases4)
    have sg: "length sg = SPX_FORS_BYTES p" "fors_ok p b a" "fors_leaf_ok p b (leaf_addrx info)"
      using inv by (auto simp: s)
    obtain sg' a' info' where
      step: "fors_sign_tree p H ctx ?idx i (sg, r, a, info) = (sg', r @ fors_node p H ctx b i ?hh 0, a', info')"
      and "length sg' = SPX_FORS_BYTES p" "fors_ok p b a'" "fors_leaf_ok p b (leaf_addrx info')"
      and new: "fors_block p H ctx b ?idx i (bslice (i * B) B sg')"
      and old: "\<And>j. j < i \<Longrightarrow> bslice (j * B) B sg' = bslice (j * B) B sg"
      using fors_sign_tree_correct [OF b i message_to_indices_props(2) [OF wf_p m i] sg, of ctx r]
      unfolding B_def by blast
    moreover have "\<forall>j<Suc i. fors_block p H ctx b ?idx j (bslice (j * B) B sg')"
      using new old inv by (auto simp: s less_Suc_eq)
    ultimately show "?P (Suc i) (fors_sign_tree p H ctx ?idx i s)"
      using inv by (simp add: s)
  qed simp
  then obtain sig' a info where
    "fold (fors_sign_tree p H ctx ?idx) [0..<?n] (sig, [], b, \<lparr>leaf_addrx = b\<rparr>) =
      (sig', concat (map (\<lambda>i. fors_node p H ctx b i ?hh 0) [0..<?n]), a, info)"
    and "length sig' = SPX_FORS_BYTES p" and "\<forall>j<?n. fors_block p H ctx b ?idx j (bslice (j * B) B sig')"
    by (auto split: prod.splits)
  then show thesis
    by (intro that [of sig']) (simp_all add: fors_sign_def Let_def fors_pk_def flip: b_def)
qed

text \<open>The verifier recovers the same public key from the blocks.\<close>

lemma fors_pk_from_sig_correct:
  fixes fa :: bytes
  defines "b \<equiv> copy_keypair_addr p zero_addr fa" and "B \<equiv> (1 + SPX_FORS_HEIGHT p) * SPX_N p"
  assumes fa: "length fa = SPX_ADDR_BYTES" and m: "length m = SPX_FORS_MSG_BYTES p"
    and blocks: "\<And>i. i < SPX_FORS_TREES p \<Longrightarrow>
      fors_block p H ctx b (message_to_indices p m) i (bslice (i * B) B sig)"
  shows "fors_pk_from_sig p H sig m ctx fa = fors_pk p H ctx b"
proof -
  let ?idx = "message_to_indices p m" and ?n = "SPX_FORS_TREES p" and ?hh = "SPX_FORS_HEIGHT p"
  let ?N = "SPX_N p" and ?t = "set_type p b SPX_ADDR_TYPE_FORSTREE"
  let ?P = "\<lambda>i (roots, a). addr_ok p ?t a \<and>
    roots = concat (map (\<lambda>i. fors_node p H ctx b i ?hh 0) [0..<i])"
  have b: "length ?t = SPX_ADDR_BYTES" using fa by (simp add: b_def len_simps)
  have "?P ?n (fold (fors_pk_from_sig_tree p H sig ctx ?idx) [0..<?n] ([], ?t))"
  proof (rule fold_upt_invar [where P = ?P])
    show "?P 0 ([], ?t)" using b by (simp add: addr_ok_def)
  next
    fix i and s :: "bytes \<times> bytes"
    assume i: "i < ?n" and inv: "?P i s"
    obtain roots a where s: "s = (roots, a)" by fastforce
    let ?off = "fors_offset p i" and ?blk = "bslice (i * B) B sig"
    note blk = blocks [OF i, unfolded fors_block_def]
    have B: "B = ?N + ?N * ?hh" by (simp add: B_def algebra_simps)
    have sk: "bslice (i * B) ?N sig = take ?N ?blk" and
      path: "bslice (i * B + ?N) (?N * ?hh) sig = drop ?N ?blk"
      unfolding B by (simp_all add: bslice_def drop_take add.commute)
    have leaf: "fors_sk_to_leaf H (take ?N ?blk) ctx (node_addr p ?t 0 (?idx ! i + ?off)) =
        fors_node p H ctx b i 0 (unat (?idx ! i))"
      using blk by (simp add: fors_sk_to_leaf_def fors_node_def fors_leaf_def)
    have ok: "addr_ok p ?t (node_addr p ?t 0 (?idx ! i + ?off))"
      using b by (simp add: addr_ok_def addr_simps len_simps)
    obtain a' where "compute_root p H (fors_node p H ctx b i 0 (unat (?idx ! i))) (?idx ! i) ?off (drop ?N ?blk) ?hh ctx
        (node_addr p ?t 0 (?idx ! i + ?off)) = (fors_node p H ctx b i ?hh 0, a')" and "addr_ok p ?t a'"
      unfolding fors_node_def
      by (rule compute_root_correct [OF b fors_height_pos, of "drop ?N ?blk" ctx ?off _ "?idx ! i"
            "node_addr p ?t 0 (?idx ! i + ?off)"])
        (use blk b ok message_to_indices_props(2) [OF wf_p m i] in \<open>auto simp: fors_node_def\<close>)
    then have "fors_pk_from_sig_tree p H sig ctx ?idx i (roots, a) = (roots @ fors_node p H ctx b i ?hh 0, a')"
      unfolding fors_pk_from_sig_tree_def Let_def fors_offset_def [symmetric] B_def [symmetric]
      using addr_ok_node(1) [OF wf_offsets_p _ b] inv leaf by (simp add: s sk path)
    then show "?P (Suc i) (fors_pk_from_sig_tree p H sig ctx ?idx i s)"
      using inv \<open>addr_ok p ?t a'\<close> by (simp add: s)
  qed simp
  then show ?thesis
    by (auto simp: fors_pk_from_sig_def Let_def fors_pk_def b_def split: prod.splits)
qed

end

end
