(* ===== verification/SLH_Sign.thy ===== *)
theory SLH_Sign
  imports SLH_Fors
begin

text \<open>
  The SLH-DSA signature scheme (\<open>pqmagic/sig/slh_dsa/std/merkle.c\<close>, \<open>sign.c\<close>): the signature of one
  layer of the hypertree, key generation, signing and verification.

  Output buffers and local variables the C code does not initialise (\<open>ctx\<close>, \<open>auth_path\<close>) are
  arguments holding their initial contents; the bytes drawn by \<open>randombytes\<close> are arguments as well.
  The main lemma, inside the locale \<open>spx_hash_laws\<close>: a signature made with a key pair verifies under
  it, for every message, every randomness and every initial contents of the buffers.
\<close>

section \<open>The code\<close>

definition merkle_sign ::
  "spx_params \<Rightarrow> spx_hash \<Rightarrow> bytes \<Rightarrow> bytes \<Rightarrow> spx_ctx \<Rightarrow> bytes \<Rightarrow> bytes \<Rightarrow> u32 \<Rightarrow> bytes \<times> bytes \<times> bytes" where
  "merkle_sign p H sig root ctx wots_addr tree_addr idx_leaf =
     (let auth_path = bslice (SPX_WOTS_BYTES p) (SPX_TREE_HEIGHT p * SPX_N p) sig;
          steps = chain_lengths p root;
          tree_addr = set_type p tree_addr SPX_ADDR_TYPE_HASHTREE;
          info_pk_addr = set_type p zero_addr SPX_ADDR_TYPE_WOTSPK;
          info_leaf_addr = copy_subtree_addr p zero_addr wots_addr;
          info_pk_addr = copy_subtree_addr p info_pk_addr wots_addr;
          info = \<lparr>wots_sig = take (SPX_WOTS_BYTES p) sig, wots_sign_leaf = idx_leaf, wots_steps = steps,
                  leaf_addr = info_leaf_addr, pk_addr = info_pk_addr\<rparr>;
          (root, auth_path, tree_addr, info) =
            treehashx1 p H auth_path ctx idx_leaf 0 (SPX_TREE_HEIGHT p) (wots_gen_leafx1 p H) tree_addr info
      in (memcpy_at (memcpy_at sig 0 (wots_sig info)) (SPX_WOTS_BYTES p) auth_path, root, tree_addr))"

definition merkle_gen_root :: "spx_params \<Rightarrow> spx_hash \<Rightarrow> bytes \<Rightarrow> bytes \<Rightarrow> spx_ctx \<Rightarrow> bytes" where
  "merkle_gen_root p H auth_path root ctx =
     (let top_tree_addr = set_layer_addr p zero_addr (of_nat (SPX_D p - 1));
          wots_addr = set_layer_addr p zero_addr (of_nat (SPX_D p - 1));
          (sig, root, top_tree_addr) =
            merkle_sign p H auth_path root ctx wots_addr top_tree_addr (NOT 0)
      in root)"

definition CRYPTO_SEEDBYTES :: "spx_params \<Rightarrow> nat" where
  "CRYPTO_SEEDBYTES p = 3 * SPX_N p"

definition crypto_sign_secretkeybytes :: "spx_params \<Rightarrow> nat" where
  "crypto_sign_secretkeybytes p = SPX_SK_BYTES p"

definition crypto_sign_publickeybytes :: "spx_params \<Rightarrow> nat" where
  "crypto_sign_publickeybytes p = SPX_PK_BYTES p"

definition crypto_sign_bytes :: "spx_params \<Rightarrow> nat" where
  "crypto_sign_bytes p = SPX_BYTES p"

definition crypto_sign_seedbytes :: "spx_params \<Rightarrow> nat" where
  "crypto_sign_seedbytes p = CRYPTO_SEEDBYTES p"

definition crypto_sign_seed_keypair ::
  "spx_params \<Rightarrow> spx_hash \<Rightarrow> spx_ctx \<Rightarrow> bytes \<Rightarrow> bytes \<Rightarrow> bytes \<Rightarrow> bytes \<Rightarrow> int \<times> bytes \<times> bytes" where
  "crypto_sign_seed_keypair p H ctx auth_path pk sk seed =
     (let sk = memcpy_at sk 0 (take (CRYPTO_SEEDBYTES p) seed);
          pk = memcpy_at pk 0 (bslice (2 * SPX_N p) (SPX_N p) sk);
          ctx = ctx\<lparr>pub_seed := take (SPX_N p) pk, sk_seed := take (SPX_N p) sk\<rparr>;
          ctx = initialize_hash_function H ctx;
          sk = memcpy_at sk (3 * SPX_N p)
                 (merkle_gen_root p H auth_path (bslice (3 * SPX_N p) (SPX_N p) sk) ctx);
          pk = memcpy_at pk (SPX_N p) (bslice (3 * SPX_N p) (SPX_N p) sk)
      in (0, pk, sk))"

definition crypto_sign_keypair ::
  "spx_params \<Rightarrow> spx_hash \<Rightarrow> spx_ctx \<Rightarrow> bytes \<Rightarrow> bytes \<Rightarrow> bytes \<Rightarrow> bytes \<Rightarrow> int \<times> bytes \<times> bytes" where
  "crypto_sign_keypair p H ctx auth_path pk sk randombytes =
     (let (ret, pk, sk) = crypto_sign_seed_keypair p H ctx auth_path pk sk randombytes
      in (0, pk, sk))"

text \<open>One turn of the loop over the layers, in the signer and in the verifier.\<close>

definition sign_layer ::
  "spx_params \<Rightarrow> spx_hash \<Rightarrow> spx_ctx \<Rightarrow> nat \<Rightarrow>
   bytes \<times> bytes \<times> u64 \<times> u32 \<times> bytes \<times> bytes \<Rightarrow> bytes \<times> bytes \<times> u64 \<times> u32 \<times> bytes \<times> bytes" where
  "sign_layer p H ctx i = (\<lambda>(sig, root, tree, idx_leaf, wots_addr, tree_addr).
     let blk = SPX_WOTS_BYTES p + SPX_TREE_HEIGHT p * SPX_N p;
         pos = SPX_N p + SPX_FORS_BYTES p + i * blk;
         tree_addr = set_layer_addr p tree_addr (of_nat i);
         tree_addr = set_tree_addr p tree_addr tree;
         wots_addr = copy_subtree_addr p wots_addr tree_addr;
         wots_addr = set_keypair_addr p wots_addr idx_leaf;
         (out, root, tree_addr) = merkle_sign p H (bslice pos blk sig) root ctx wots_addr tree_addr idx_leaf;
         idx_leaf = ucast (tree AND (push_bit (SPX_TREE_HEIGHT p) 1 - 1));
         tree = drop_bit (SPX_TREE_HEIGHT p) tree
     in (memcpy_at sig pos out, root, tree, idx_leaf, wots_addr, tree_addr))"

definition crypto_sign_signature ::
  "spx_params \<Rightarrow> spx_hash \<Rightarrow> spx_ctx \<Rightarrow> bytes \<Rightarrow> bytes \<Rightarrow> bytes \<Rightarrow> bytes \<Rightarrow> int \<times> bytes \<times> nat" where
  "crypto_sign_signature p H ctx optrand sig m sk =
     (let sk_prf = bslice (SPX_N p) (SPX_N p) sk;
          pk = bslice (2 * SPX_N p) (SPX_PK_BYTES p) sk;
          ctx = ctx\<lparr>sk_seed := take (SPX_N p) sk, pub_seed := take (SPX_N p) pk\<rparr>;
          ctx = initialize_hash_function H ctx;
          wots_addr = set_type p zero_addr SPX_ADDR_TYPE_WOTS;
          tree_addr = set_type p zero_addr SPX_ADDR_TYPE_HASHTREE;
          sig = memcpy_at sig 0 (gen_message_random H sk_prf optrand m ctx);
          (mhash, tree, idx_leaf) = hash_message H (take (SPX_N p) sig) pk m ctx;
          wots_addr = set_tree_addr p wots_addr tree;
          wots_addr = set_keypair_addr p wots_addr idx_leaf;
          (fsig, root) = fors_sign p H (bslice (SPX_N p) (SPX_FORS_BYTES p) sig) mhash ctx wots_addr;
          sig = memcpy_at sig (SPX_N p) fsig;
          (sig, root, tree, idx_leaf, wots_addr, tree_addr) =
            fold (sign_layer p H ctx) [0..<SPX_D p] (sig, root, tree, idx_leaf, wots_addr, tree_addr)
      in (0, sig, SPX_BYTES p))"

definition verify_layer ::
  "spx_params \<Rightarrow> spx_hash \<Rightarrow> spx_ctx \<Rightarrow> bytes \<Rightarrow> nat \<Rightarrow>
   bytes \<times> u64 \<times> u32 \<times> bytes \<times> bytes \<times> bytes \<Rightarrow> bytes \<times> u64 \<times> u32 \<times> bytes \<times> bytes \<times> bytes" where
  "verify_layer p H ctx sig i = (\<lambda>(root, tree, idx_leaf, wots_addr, tree_addr, wots_pk_addr).
     let blk = SPX_WOTS_BYTES p + SPX_TREE_HEIGHT p * SPX_N p;
         pos = SPX_N p + SPX_FORS_BYTES p + i * blk;
         tree_addr = set_layer_addr p tree_addr (of_nat i);
         tree_addr = set_tree_addr p tree_addr tree;
         wots_addr = copy_subtree_addr p wots_addr tree_addr;
         wots_addr = set_keypair_addr p wots_addr idx_leaf;
         wots_pk_addr = copy_keypair_addr p wots_pk_addr wots_addr;
         (wots_pk, wots_addr) = wots_pk_from_sig p H (bslice pos (SPX_WOTS_BYTES p) sig) root ctx wots_addr;
         pos = pos + SPX_WOTS_BYTES p;
         leaf = thash H wots_pk (SPX_WOTS_LEN p) ctx wots_pk_addr;
         (root, tree_addr) = compute_root p H leaf idx_leaf 0
            (bslice pos (SPX_TREE_HEIGHT p * SPX_N p) sig) (SPX_TREE_HEIGHT p) ctx tree_addr;
         idx_leaf = ucast (tree AND (push_bit (SPX_TREE_HEIGHT p) 1 - 1));
         tree = drop_bit (SPX_TREE_HEIGHT p) tree
     in (root, tree, idx_leaf, wots_addr, tree_addr, wots_pk_addr))"

definition crypto_sign_verify ::
  "spx_params \<Rightarrow> spx_hash \<Rightarrow> spx_ctx \<Rightarrow> bytes \<Rightarrow> nat \<Rightarrow> bytes \<Rightarrow> bytes \<Rightarrow> int" where
  "crypto_sign_verify p H ctx sig siglen m pk =
     (if siglen \<noteq> SPX_BYTES p then - 1
      else
        let pub_root = bslice (SPX_N p) (SPX_N p) pk;
            ctx = ctx\<lparr>pub_seed := take (SPX_N p) pk\<rparr>;
            ctx = initialize_hash_function H ctx;
            wots_addr = set_type p zero_addr SPX_ADDR_TYPE_WOTS;
            tree_addr = set_type p zero_addr SPX_ADDR_TYPE_HASHTREE;
            wots_pk_addr = set_type p zero_addr SPX_ADDR_TYPE_WOTSPK;
            (mhash, tree, idx_leaf) = hash_message H (take (SPX_N p) sig) (take (SPX_PK_BYTES p) pk) m ctx;
            wots_addr = set_tree_addr p wots_addr tree;
            wots_addr = set_keypair_addr p wots_addr idx_leaf;
            root = fors_pk_from_sig p H (bslice (SPX_N p) (SPX_FORS_BYTES p) sig) mhash ctx wots_addr;
            (root, tree, idx_leaf, wots_addr, tree_addr, wots_pk_addr) =
              fold (verify_layer p H ctx sig) [0..<SPX_D p]
                (root, tree, idx_leaf, wots_addr, tree_addr, wots_pk_addr)
        in if root \<noteq> pub_root then - 1 else 0)"

definition crypto_sign ::
  "spx_params \<Rightarrow> spx_hash \<Rightarrow> spx_ctx \<Rightarrow> bytes \<Rightarrow> bytes \<Rightarrow> bytes \<Rightarrow> bytes \<Rightarrow> int \<times> bytes \<times> nat" where
  "crypto_sign p H ctx optrand sm m sk =
     (let (ret, sig, siglen) = crypto_sign_signature p H ctx optrand (take (SPX_BYTES p) sm) m sk;
          sm = memcpy_at sm 0 sig;
          sm = memcpy_at sm (SPX_BYTES p) m
      in (0, sm, siglen + length m))"

text \<open>\<open>m\<close> is the output buffer; \<open>memset (m, 0, smlen)\<close> clears its first \<open>smlen\<close> bytes.\<close>

definition crypto_sign_open ::
  "spx_params \<Rightarrow> spx_hash \<Rightarrow> spx_ctx \<Rightarrow> bytes \<Rightarrow> bytes \<Rightarrow> nat \<Rightarrow> bytes \<Rightarrow> int \<times> bytes \<times> nat" where
  "crypto_sign_open p H ctx m sm smlen pk =
     (if smlen < SPX_BYTES p then (- 1, memcpy_at m 0 (replicate smlen 0), 0)
      else
        let mlen = smlen - SPX_BYTES p
        in if crypto_sign_verify p H ctx (take (SPX_BYTES p) sm) (SPX_BYTES p)
                (bslice (SPX_BYTES p) mlen sm) pk \<noteq> 0
           then (- 1, memcpy_at m 0 (replicate smlen 0), 0)
           else (0, memcpy_at m 0 (bslice (SPX_BYTES p) mlen sm), mlen))"

section \<open>Addresses of a layer\<close>

definition subtree_addr :: "spx_params \<Rightarrow> u32 \<Rightarrow> u64 \<Rightarrow> bytes" where
  "subtree_addr p i t = set_tree_addr p (set_layer_addr p zero_addr i) t"

definition hashtree_addr :: "spx_params \<Rightarrow> u32 \<Rightarrow> u64 \<Rightarrow> bytes" where
  "hashtree_addr p i t = set_type p (subtree_addr p i t) SPX_ADDR_TYPE_HASHTREE"

definition wotspk_addr :: "spx_params \<Rightarrow> u32 \<Rightarrow> u64 \<Rightarrow> bytes" where
  "wotspk_addr p i t = set_type p (subtree_addr p i t) SPX_ADDR_TYPE_WOTSPK"

lemma length_layer_addrs [simp, len_simps]:
  assumes "wf_offsets p"
  shows "length (subtree_addr p i t) = SPX_ADDR_BYTES" and "length (hashtree_addr p i t) = SPX_ADDR_BYTES"
    and "length (wotspk_addr p i t) = SPX_ADDR_BYTES"
  using assms by (simp_all add: subtree_addr_def hashtree_addr_def wotspk_addr_def len_simps)

lemma nth_u32_to_bytes_0: "k < 4 \<Longrightarrow> u32_to_bytes 0 ! k = 0"
  by (auto simp: u32_to_bytes_def less_Suc_eq numeral_eq_Suc)

lemma nth_ull_to_bytes_0: "k < n \<Longrightarrow> ull_to_bytes n 0 ! k = 0"
  by (induction n) (auto simp: nth_append less_Suc_eq)

lemmas layer_addr_defs = subtree_addr_def hashtree_addr_def wotspk_addr_def SPX_ADDR_TYPE_WOTS_def

lemma chain_addr_subtree:
  assumes "wf_offsets p"
  shows "set_keypair_addr p (set_tree_addr p (set_type p zero_addr SPX_ADDR_TYPE_WOTS) t) kp =
      chain_addr p (subtree_addr p 0 t) kp 0 SPX_ADDR_TYPE_WOTS 0"
    and "set_keypair_addr p (copy_subtree_addr p (chain_addr p (subtree_addr p i t) kp ch ty hs)
      (hashtree_addr p i' t')) kp' = chain_addr p (subtree_addr p i' t') kp' ch ty hs"
    and "copy_subtree_addr p zero_addr (chain_addr p (subtree_addr p i t) kp ch ty hs) = subtree_addr p i t"
    and "copy_subtree_addr p (set_type p zero_addr SPX_ADDR_TYPE_WOTSPK)
      (chain_addr p (subtree_addr p i t) kp ch ty hs) = wotspk_addr p i t"
    and "copy_keypair_addr p (set_keypair_addr p (wotspk_addr p i t) kp)
      (chain_addr p (subtree_addr p i' t') kp' ch ty hs) = set_keypair_addr p (wotspk_addr p i' t') kp'"
    and "set_type p zero_addr SPX_ADDR_TYPE_WOTSPK = set_keypair_addr p (wotspk_addr p 0 0) 0"
    and "set_layer_addr p zero_addr i = chain_addr p (subtree_addr p i 0) 0 0 SPX_ADDR_TYPE_WOTS 0"
    and "set_type p (set_layer_addr p zero_addr i) SPX_ADDR_TYPE_HASHTREE = hashtree_addr p i 0"
    and "in_leaf p (subtree_addr p i t) (subtree_addr p i t)"
proof -
  have "subtree_addr p i t = chain_addr p (subtree_addr p i t) 0 0 0 0"
    unfolding layer_addr_defs chain_addr_def
    by (rule addr_eqI; use assms in \<open>auto simp: len_simps addr_simps wf_offsets_def nth_u32_to_bytes_0\<close>)
  then show "in_leaf p (subtree_addr p i t) (subtree_addr p i t)" by (metis in_leaf_def)
qed (unfold layer_addr_defs chain_addr_def;
    rule addr_eqI; use assms in \<open>auto simp: len_simps addr_simps wf_offsets_def nth_u32_to_bytes_0 nth_ull_to_bytes_0\<close>)+

text \<open>The address of a tree, whatever node of it was hashed last, moved to another layer.\<close>

lemma copy_subtree_addr_ok:
  assumes w: "wf_offsets p" and "length c = SPX_ADDR_BYTES" and "length x = SPX_ADDR_BYTES" and "addr_ok p x a"
  shows "copy_subtree_addr p c a = copy_subtree_addr p c x"
proof (rule addr_eqI)
  have a: "length a = SPX_ADDR_BYTES" "node_addr p a 0 0 = node_addr p x 0 0" using assms by (auto simp: addr_ok_def)
  show "length (copy_subtree_addr p c a) = SPX_ADDR_BYTES" "length (copy_subtree_addr p c x) = SPX_ADDR_BYTES"
    using assms a by (simp_all add: len_simps)
  fix i assume i: "i < SPX_ADDR_BYTES"
  have "a ! i = x ! i" if "i < SPX_OFFSET_TREE p + 8"
  proof -
    have "node_addr p y 0 0 ! i = y ! i" if "length y = SPX_ADDR_BYTES" for y
      using w that i \<open>i < _ + 8\<close> by (auto simp: node_addr_def addr_simps len_simps wf_offsets_def)
    with a assms(3) show ?thesis by metis
  qed
  then show "copy_subtree_addr p c a ! i = copy_subtree_addr p c x ! i"
    using assms a i by (simp add: addr_simps)
qed

definition tree_ok :: "spx_params \<Rightarrow> bytes \<Rightarrow> bool" where
  "tree_ok p a \<longleftrightarrow> length a = SPX_ADDR_BYTES \<and>
     (\<forall>i t. addr_ok p (hashtree_addr p i t) (set_tree_addr p (set_layer_addr p a i) t))"

lemma node_addr_set_subtree:
  assumes "wf_offsets p" and "length a = SPX_ADDR_BYTES"
  shows "node_addr p (set_tree_addr p (set_layer_addr p a i) t) h j =
    set_tree_addr p (set_layer_addr p (node_addr p a h j) i) t"
  unfolding node_addr_def
  by (rule addr_eqI; use assms in \<open>auto simp: len_simps addr_simps wf_offsets_def\<close>)

lemma hashtree_addr_move:
  assumes "wf_offsets p"
  shows "set_tree_addr p (set_layer_addr p (hashtree_addr p i t) i') t' = hashtree_addr p i' t'"
    and "set_tree_addr p (set_layer_addr p (set_type p zero_addr SPX_ADDR_TYPE_HASHTREE) i') t' = hashtree_addr p i' t'"
  unfolding layer_addr_defs
  by (rule addr_eqI; use assms in \<open>auto simp: len_simps addr_simps wf_offsets_def\<close>)+

lemma tree_okI:
  assumes "wf_offsets p"
  shows "addr_ok p (hashtree_addr p i t) a \<Longrightarrow> tree_ok p a"
    and "tree_ok p (set_type p zero_addr SPX_ADDR_TYPE_HASHTREE)"
proof -
  show "tree_ok p (set_type p zero_addr SPX_ADDR_TYPE_HASHTREE)"
    using assms by (simp add: tree_ok_def hashtree_addr_move addr_ok_def len_simps)
  assume a: "addr_ok p (hashtree_addr p i t) a"
  then have "node_addr p (set_tree_addr p (set_layer_addr p a i') t') h j = node_addr p (hashtree_addr p i' t') h j"
    for i' t' h j
    using assms node_addr_set_subtree [of p a] node_addr_set_subtree [of p "hashtree_addr p i t" i' t' h j]
    by (simp add: addr_ok_def hashtree_addr_move)
  with a show "tree_ok p a"
    using assms by (simp add: tree_ok_def addr_ok_def len_simps)
qed

section \<open>One layer\<close>

definition xmss_node ::
  "spx_params \<Rightarrow> spx_hash \<Rightarrow> spx_ctx \<Rightarrow> u32 \<Rightarrow> u64 \<Rightarrow> nat \<Rightarrow> nat \<Rightarrow> bytes" where
  "xmss_node p H ctx i t =
     merkle_node (node_hash p H ctx (hashtree_addr p i t) 0)
       (\<lambda>k. wots_leaf p H ctx (subtree_addr p i t) (wotspk_addr p i t) (of_nat k))"

text \<open>What the block of a layer holds: the WOTS signature of \<open>root\<close>, then the authentication path.\<close>

definition xmss_block ::
  "spx_params \<Rightarrow> spx_hash \<Rightarrow> spx_ctx \<Rightarrow> u32 \<Rightarrow> u64 \<Rightarrow> u32 \<Rightarrow> bytes \<Rightarrow> bytes \<Rightarrow> bool" where
  "xmss_block p H ctx i t idx root blk \<longleftrightarrow>
     length blk = SPX_WOTS_BYTES p + SPX_TREE_HEIGHT p * SPX_N p \<and>
     (unat idx < 2 ^ SPX_TREE_HEIGHT p \<longrightarrow>
       take (SPX_WOTS_BYTES p) blk =
         wots_signature p H ctx (subtree_addr p i t) idx (chain_lengths p root) \<and>
       (\<forall>h < SPX_TREE_HEIGHT p. bslice (h * SPX_N p) (SPX_N p) (drop (SPX_WOTS_BYTES p) blk) =
         xmss_node p H ctx i t h (sibling (unat idx div 2 ^ h))))"

context spx_thash
begin

lemma tree_height_bounds [simp]: "SPX_TREE_HEIGHT p < 32" "0 < SPX_TREE_HEIGHT p" "SPX_TREE_HEIGHT p \<le> 16"
  using wf_p by (auto simp: wf_params_def)

lemma length_wots_leaf [simp]: "length (wots_leaf p H ctx base pbase kp) = SPX_N p"
  by (simp add: wots_leaf_def)

lemma length_xmss_node [simp]: "length (xmss_node p H ctx i t h j) = SPX_N p"
  by (cases h) (simp_all add: xmss_node_def node_hash_def)

text \<open>The leaves in order: every one is right, and the signature is written at the signing leaf.\<close>

lemma wots_leaves:
  assumes base: "length base = SPX_ADDR_BYTES" and pbase: "length pbase = SPX_ADDR_BYTES"
    and args: "leaf_args p base pbase info"
  shows "leaf_args p base pbase (leaf_info (wots_gen_leafx1 p H) ctx 0 info k)"
    and "wots_steps (leaf_info (wots_gen_leafx1 p H) ctx 0 info k) = wots_steps info"
    and "wots_sign_leaf (leaf_info (wots_gen_leafx1 p H) ctx 0 info k) = wots_sign_leaf info"
    and "k \<le> 2 ^ 32 \<Longrightarrow> wots_sig (leaf_info (wots_gen_leafx1 p H) ctx 0 info k) =
      (if unat (wots_sign_leaf info) < k
       then wots_signature p H ctx base (wots_sign_leaf info) (wots_steps info) else wots_sig info)"
proof -
  let ?I = "\<lambda>k. leaf_info (wots_gen_leafx1 p H) ctx 0 info k"
  have kp: "set_keypair_addr p (set_keypair_addr p pbase kp) kp' = set_keypair_addr p pbase kp'" for kp kp'
    by (rule addr_eqI; use pbase in \<open>auto simp: len_simps addr_simps\<close>)
  have "leaf_args p base pbase (?I k) \<and> wots_steps (?I k) = wots_steps info \<and>
      wots_sign_leaf (?I k) = wots_sign_leaf info \<and>
      (k \<le> 2 ^ 32 \<longrightarrow> wots_sig (?I k) = (if unat (wots_sign_leaf info) < k
        then wots_signature p H ctx base (wots_sign_leaf info) (wots_steps info) else wots_sig info))"
  proof (induction k)
    case 0
    then show ?case using args by simp
  next
    case (Suc k)
    then have IH: "leaf_args p base pbase (?I k)" by simp
    obtain la where gen: "wots_gen_leafx1 p H ctx (of_nat k) (?I k) =
      (wots_leaf p H ctx base pbase (of_nat k),
       (?I k)\<lparr>wots_sig := if of_nat k = wots_sign_leaf (?I k) then wots_signature p H ctx base (of_nat k) (wots_steps (?I k))
                        else wots_sig (?I k),
            leaf_addr := la, pk_addr := set_keypair_addr p pbase (of_nat k)\<rparr>)"
      and la: "in_leaf p base la"
      by (rule wots_gen_leafx1_correct [OF base IH])
    have "Suc k \<le> 2 ^ 32 \<Longrightarrow> (of_nat k = wots_sign_leaf info) = (k = unat (wots_sign_leaf info))"
      by (intro of_nat_u32_eq_iff) simp
    then show ?case
      using Suc IH la by (auto simp: gen leaf_args_def kp)
  qed
  then show "leaf_args p base pbase (?I k)" "wots_steps (?I k) = wots_steps info"
    "wots_sign_leaf (?I k) = wots_sign_leaf info"
    "k \<le> 2 ^ 32 \<Longrightarrow> wots_sig (?I k) = (if unat (wots_sign_leaf info) < k
      then wots_signature p H ctx base (wots_sign_leaf info) (wots_steps info) else wots_sig info)"
    by simp_all
qed

lemma wots_leaf_at:
  assumes "length base = SPX_ADDR_BYTES" and "length pbase = SPX_ADDR_BYTES"
    and "leaf_args p base pbase info"
  shows "leaf_at (wots_gen_leafx1 p H) ctx 0 info k = wots_leaf p H ctx base pbase (of_nat k)"
  by (rule wots_gen_leafx1_correct [OF assms(1) wots_leaves(1) [OF assms], of ctx "of_nat k" ctx k])
    (simp add: leaf_at_def)

lemma merkle_sign_correct:
  assumes wa: "in_chain p (subtree_addr p i t) kp SPX_ADDR_TYPE_WOTS wots_addr"
    and ta: "addr_ok p (hashtree_addr p i t) (set_type p tree_addr SPX_ADDR_TYPE_HASHTREE)"
    and root: "length root = SPX_N p"
    and sig: "length sig = SPX_WOTS_BYTES p + SPX_TREE_HEIGHT p * SPX_N p"
  obtains sig' tree_addr' where
    "merkle_sign p H sig root ctx wots_addr tree_addr idx =
       (sig', xmss_node p H ctx i t (SPX_TREE_HEIGHT p) 0, tree_addr')"
    and "xmss_block p H ctx i t idx root sig'" and "addr_ok p (hashtree_addr p i t) tree_addr'"
proof -
  let ?N = "SPX_N p" and ?T = "SPX_TREE_HEIGHT p" and ?B = "SPX_WOTS_BYTES p"
  let ?base = "subtree_addr p i t" and ?pbase = "wotspk_addr p i t"
  let ?ta = "set_type p tree_addr SPX_ADDR_TYPE_HASHTREE"
  let ?gen = "wots_gen_leafx1 p H"
  let ?info = "\<lparr>wots_sig = take ?B sig, wots_sign_leaf = idx, wots_steps = chain_lengths p root,
                leaf_addr = ?base, pk_addr = ?pbase\<rparr>"
  have base: "length ?base = SPX_ADDR_BYTES" "length ?pbase = SPX_ADDR_BYTES" by simp_all
  have args: "leaf_args p ?base ?pbase ?info"
    using sig chain_lengths_less [OF wf_p root]
    by (simp add: leaf_args_def chain_addr_subtree(9))
  note leaves = wots_leaves [OF base args] and leaf_at = wots_leaf_at [OF base args]
  have nodes: "merkle_node (node_hash p H ctx ?ta 0) (leaf_at ?gen ctx 0 ?info) = xmss_node p H ctx i t"
    using ta by (simp add: xmss_node_def leaf_at [abs_def] node_hash_def [abs_def] addr_ok_def)
  have "length (bslice ?B (?T * ?N) sig) = ?T * ?N" using sig by simp
  then obtain auth a' where th: "treehashx1 p H (bslice ?B (?T * ?N) sig) ctx idx 0 ?T ?gen ?ta ?info =
      (xmss_node p H ctx i t ?T 0, auth, a', leaf_info ?gen ctx 0 ?info (2 ^ ?T))"
    and auth: "length auth = ?T * ?N" and a': "addr_ok p ?ta a'"
    and path: "\<And>h. unat idx < 2 ^ ?T \<Longrightarrow> h < ?T \<Longrightarrow> bslice (h * ?N) ?N auth = xmss_node p H ctx i t h (sibling (unat idx div 2 ^ h))"
    using treehashx1_correct [where gen = ?gen and info = ?info and ctx = ctx and base = ?ta
        and off = 0 and th = ?T and auth = "bslice ?B (?T * ?N) sig" and leaf_idx = idx, unfolded nodes]
      ta by (simp add: leaf_at addr_ok_def) metis
  let ?wsig = "wots_sig (leaf_info ?gen ctx 0 ?info (2 ^ ?T))"
  have "(2 :: nat) ^ ?T \<le> 2 ^ 32" by (rule power_increasing [OF less_imp_le [OF tree_height_bounds(1)]]) simp
  then have wsig: "unat idx < 2 ^ ?T \<Longrightarrow> ?wsig = wots_signature p H ctx ?base idx (chain_lengths p root)"
    by (simp add: leaves(4))
  have wl: "length ?wsig = ?B" using leaves(1) by (simp add: leaf_args_def)
  have "merkle_sign p H sig root ctx wots_addr tree_addr idx = (?wsig @ auth, xmss_node p H ctx i t ?T 0, a')"
    using wa th sig auth wl
    by (auto simp: merkle_sign_def Let_def in_chain_def chain_addr_subtree(3,4) memcpy_at_def)
  moreover have "xmss_block p H ctx i t idx root (?wsig @ auth)"
    using wsig wl auth path by (simp add: xmss_block_def)
  moreover have "addr_ok p (hashtree_addr p i t) a'"
    using a' ta by (simp add: addr_ok_def)
  ultimately show thesis by (rule that)
qed

end

text \<open>The verifier's walk through the block of a layer.\<close>

context spx_thash
begin

lemma addr_ok_set_type:
  assumes "addr_ok p (hashtree_addr p i t) a"
  shows "addr_ok p (hashtree_addr p i t) (set_type p a SPX_ADDR_TYPE_HASHTREE)"
proof -
  have a: "length a = SPX_ADDR_BYTES" using assms by (simp add: addr_ok_def)
  have "node_addr p (set_type p a SPX_ADDR_TYPE_HASHTREE) h j = node_addr p (hashtree_addr p i t) h j" for h j
  proof -
    have "node_addr p (set_type p a SPX_ADDR_TYPE_HASHTREE) h j =
        set_type p (node_addr p a h j) SPX_ADDR_TYPE_HASHTREE"
      by (rule node_addr_overwrite(3) [OF wf_offsets_p a, symmetric])
    also have "\<dots> = set_type p (node_addr p (hashtree_addr p i t) h j) SPX_ADDR_TYPE_HASHTREE"
      using assms by (simp add: addr_ok_def)
    also have "\<dots> = node_addr p (hashtree_addr p i t) h j"
      by (simp add: node_addr_overwrite(3)) (simp add: hashtree_addr_def addr_simps)
    finally show ?thesis .
  qed
  then show ?thesis using a by (simp add: addr_ok_def len_simps)
qed

lemma xmss_pk_from_sig:
  assumes blk: "xmss_block p H ctx i t idx root blk" and idx: "unat idx < 2 ^ SPX_TREE_HEIGHT p"
    and root: "length root = SPX_N p"
    and wa: "in_chain p (subtree_addr p i t) idx SPX_ADDR_TYPE_WOTS wots_addr"
    and ta: "addr_ok p (hashtree_addr p i t) tree_addr"
  obtains tree_addr' where
    "compute_root p H (thash H (fst (wots_pk_from_sig p H (take (SPX_WOTS_BYTES p) blk) root ctx wots_addr))
        (SPX_WOTS_LEN p) ctx (set_keypair_addr p (wotspk_addr p i t) idx))
       idx 0 (drop (SPX_WOTS_BYTES p) blk) (SPX_TREE_HEIGHT p) ctx tree_addr =
     (xmss_node p H ctx i t (SPX_TREE_HEIGHT p) 0, tree_addr')"
    and "addr_ok p (hashtree_addr p i t) tree_addr'"
proof -
  have b: "length (subtree_addr p i t) = SPX_ADDR_BYTES" and h: "length (hashtree_addr p i t) = SPX_ADDR_BYTES"
    by simp_all
  have "take (SPX_WOTS_BYTES p) blk = wots_signature p H ctx (subtree_addr p i t) idx (chain_lengths p root)"
    using blk idx by (simp add: xmss_block_def)
  then have leaf: "thash H (fst (wots_pk_from_sig p H (take (SPX_WOTS_BYTES p) blk) root ctx wots_addr))
      (SPX_WOTS_LEN p) ctx (set_keypair_addr p (wotspk_addr p i t) idx) = xmss_node p H ctx i t 0 (unat idx)"
    using wots_pk_from_sig_correct(1) [OF b root wa] by (simp add: xmss_node_def wots_leaf_def)
  have path: "bslice (h * SPX_N p) (SPX_N p) (drop (SPX_WOTS_BYTES p) blk) =
      xmss_node p H ctx i t h (sibling (unat idx div 2 ^ h))" if "h < SPX_TREE_HEIGHT p" for h
    using blk idx that by (simp add: xmss_block_def)
  obtain tree_addr' where "compute_root p H (xmss_node p H ctx i t 0 (unat idx)) idx 0
      (drop (SPX_WOTS_BYTES p) blk) (SPX_TREE_HEIGHT p) ctx tree_addr =
      (xmss_node p H ctx i t (SPX_TREE_HEIGHT p) 0, tree_addr')" and "addr_ok p (hashtree_addr p i t) tree_addr'"
    using compute_root_correct [where th = "SPX_TREE_HEIGHT p" and ctx = ctx and off = 0 and leaf_idx = idx
        and base = "hashtree_addr p i t"
        and leaf = "\<lambda>k. wots_leaf p H ctx (subtree_addr p i t) (wotspk_addr p i t) (of_nat k)"
        and auth = "drop (SPX_WOTS_BYTES p) blk", folded xmss_node_def, OF h tree_height_bounds(2) path idx ta]
    by blast
  with that leaf show thesis by simp
qed

end

section \<open>The hypertree\<close>

text \<open>
  Tree, leaf index and signed root of layer \<open>i\<close>, when the signature starts at tree \<open>t\<close>, leaf \<open>l\<close>
  with the FORS public key \<open>r\<close>.
\<close>

definition layer_tree :: "spx_params \<Rightarrow> u64 \<Rightarrow> nat \<Rightarrow> u64" where
  "layer_tree p t i = drop_bit (i * SPX_TREE_HEIGHT p) t"

definition layer_idx :: "spx_params \<Rightarrow> u64 \<Rightarrow> u32 \<Rightarrow> nat \<Rightarrow> u32" where
  "layer_idx p t l i = (case i of 0 \<Rightarrow> l
     | Suc j \<Rightarrow> ucast (layer_tree p t j AND (push_bit (SPX_TREE_HEIGHT p) 1 - 1)))"

definition layer_root :: "spx_params \<Rightarrow> spx_hash \<Rightarrow> spx_ctx \<Rightarrow> u64 \<Rightarrow> bytes \<Rightarrow> nat \<Rightarrow> bytes" where
  "layer_root p H ctx t r i = (case i of 0 \<Rightarrow> r
     | Suc j \<Rightarrow> xmss_node p H ctx (of_nat j) (layer_tree p t j) (SPX_TREE_HEIGHT p) 0)"

definition layer_block ::
  "spx_params \<Rightarrow> spx_hash \<Rightarrow> spx_ctx \<Rightarrow> u64 \<Rightarrow> u32 \<Rightarrow> bytes \<Rightarrow> bytes \<Rightarrow> nat \<Rightarrow> bool" where
  "layer_block p H ctx t l r sig i \<longleftrightarrow>
     xmss_block p H ctx (of_nat i) (layer_tree p t i) (layer_idx p t l i) (layer_root p H ctx t r i)
       (bslice (SPX_N p + SPX_FORS_BYTES p + i * (SPX_WOTS_BYTES p + SPX_TREE_HEIGHT p * SPX_N p))
          (SPX_WOTS_BYTES p + SPX_TREE_HEIGHT p * SPX_N p) sig)"

lemma layer_simps [simp]:
  "layer_tree p t 0 = t"
  "drop_bit (SPX_TREE_HEIGHT p) (layer_tree p t i) = layer_tree p t (Suc i)"
  "layer_idx p t l 0 = l"
  "layer_idx p t l (Suc i) = ucast (layer_tree p t i AND (push_bit (SPX_TREE_HEIGHT p) 1 - 1))"
  "layer_root p H ctx t r 0 = r"
  "layer_root p H ctx t r (Suc i) = xmss_node p H ctx (of_nat i) (layer_tree p t i) (SPX_TREE_HEIGHT p) 0"
  by (simp_all add: layer_tree_def layer_idx_def layer_root_def add.commute)

lemma layer_idx_less:
  assumes "unat l < 2 ^ SPX_TREE_HEIGHT p" and "SPX_TREE_HEIGHT p \<le> 16"
  shows "unat (layer_idx p t l i) < 2 ^ SPX_TREE_HEIGHT p"
proof (cases i)
  case (Suc j)
  let ?w = "layer_tree p t j AND (push_bit (SPX_TREE_HEIGHT p) 1 - 1)"
  have "(push_bit (SPX_TREE_HEIGHT p) 1 - 1 :: u64) = mask (SPX_TREE_HEIGHT p)"
    by (simp add: mask_eq_exp_minus_1 push_bit_eq_mult)
  then have "unat ?w = take_bit (SPX_TREE_HEIGHT p) (unat (layer_tree p t j))"
    using assms(2) by (simp add: unsigned_take_bit_eq flip: take_bit_eq_mask)
  then have "unat ?w < 2 ^ SPX_TREE_HEIGHT p" by simp
  moreover have "unat (ucast ?w :: u32) \<le> unat ?w"
    by (simp add: unsigned_ucast_eq take_bit_nat_less_eq_self)
  ultimately show ?thesis using Suc by simp
qed (use assms in simp)

definition wots_ok :: "spx_params \<Rightarrow> bytes \<Rightarrow> bool" where
  "wots_ok p a \<longleftrightarrow>
     (\<exists>i t kp ch hs. a = chain_addr p (subtree_addr p i t) kp ch SPX_ADDR_TYPE_WOTS hs)"

lemma wots_ok_chain_addr [simp]: "wots_ok p (chain_addr p (subtree_addr p i t) kp ch SPX_ADDR_TYPE_WOTS hs)"
  unfolding wots_ok_def by blast

context spx_thash
begin

lemma length_layer_root [simp]: "length r = SPX_N p \<Longrightarrow> length (layer_root p H ctx t r i) = SPX_N p"
  by (cases i) simp_all

lemma sign_layers:
  fixes sig :: bytes and t :: u64 and l :: u32
  assumes sig: "length sig = SPX_BYTES p" and r: "length r = SPX_N p"
    and wa: "wots_addr = chain_addr p (subtree_addr p 0 t) l 0 SPX_ADDR_TYPE_WOTS 0" and ta: "tree_ok p tree_addr"
  obtains sig' s where
    "fold (sign_layer p H ctx) [0..<SPX_D p] (sig, r, t, l, wots_addr, tree_addr) = (sig', s)"
    and "length sig' = SPX_BYTES p"
    and "take (SPX_N p + SPX_FORS_BYTES p) sig' = take (SPX_N p + SPX_FORS_BYTES p) sig"
    and "\<And>i. i < SPX_D p \<Longrightarrow> layer_block p H ctx t l r sig' i"
proof -
  let ?o = "SPX_N p + SPX_FORS_BYTES p" and ?B = "SPX_WOTS_BYTES p + SPX_TREE_HEIGHT p * SPX_N p"
  let ?P = "\<lambda>i (sg, root, tree, idx, wa, ta). length sg = SPX_BYTES p \<and> take ?o sg = take ?o sig \<and>
    root = layer_root p H ctx t r i \<and> tree = layer_tree p t i \<and> idx = layer_idx p t l i \<and>
    wots_ok p wa \<and> tree_ok p ta \<and>
    (\<forall>j<i. layer_block p H ctx t l r sg j)"
  have len: "SPX_BYTES p = ?o + SPX_D p * ?B"
    using wf_p by (simp add: SPX_BYTES_def wf_params_def algebra_simps)
  have "?P (SPX_D p) (fold (sign_layer p H ctx) [0..<SPX_D p] (sig, r, t, l, wots_addr, tree_addr))"
  proof (rule fold_upt_invar [where P = ?P])
    show "?P 0 (sig, r, t, l, wots_addr, tree_addr)" using sig wa ta by auto
  next
    fix i and s :: "bytes \<times> bytes \<times> u64 \<times> u32 \<times> bytes \<times> bytes"
    assume i: "i < SPX_D p" and inv: "?P i s"
    let ?t = "layer_tree p t i" and ?l = "layer_idx p t l i" and ?r = "layer_root p H ctx t r i"
    from inv obtain sg i0 t0 kp ch hs a
      where s: "s = (sg, ?r, ?t, ?l, chain_addr p (subtree_addr p i0 t0) kp ch SPX_ADDR_TYPE_WOTS hs, a)"
        and sg: "length sg = SPX_BYTES p" "take ?o sg = take ?o sig" and a: "tree_ok p a"
        and old: "\<And>j. j < i \<Longrightarrow> layer_block p H ctx t l r sg j"
      by (cases s) (auto simp: wots_ok_def)
    let ?pos = "?o + i * ?B"
    let ?a = "set_tree_addr p (set_layer_addr p a (of_nat i)) ?t"
    let ?w = "chain_addr p (subtree_addr p (of_nat i) ?t) ?l ch SPX_ADDR_TYPE_WOTS hs"
    have "Suc i * ?B \<le> SPX_D p * ?B" using i by (intro mult_le_mono1) simp
    then have fit: "?pos + ?B \<le> length sg" by (simp add: sg len)
    have ok: "addr_ok p (hashtree_addr p (of_nat i) ?t) ?a" using a by (simp add: tree_ok_def)
    have w: "set_keypair_addr p (copy_subtree_addr p (chain_addr p (subtree_addr p i0 t0) kp ch SPX_ADDR_TYPE_WOTS hs) ?a) ?l = ?w"
      using copy_subtree_addr_ok [OF wf_offsets_p _ _ ok] by (simp add: len_simps chain_addr_subtree)
    have bl: "length (bslice ?pos ?B sg) = ?B" using fit by simp
    have ic: "in_chain p (subtree_addr p (of_nat i) ?t) ?l SPX_ADDR_TYPE_WOTS ?w" by (auto simp: in_chain_def)
    obtain out a' where ms: "merkle_sign p H (bslice ?pos ?B sg) ?r ctx ?w ?a ?l =
        (out, xmss_node p H ctx (of_nat i) ?t (SPX_TREE_HEIGHT p) 0, a')"
      and blk: "xmss_block p H ctx (of_nat i) ?t ?l ?r out" and a': "addr_ok p (hashtree_addr p (of_nat i) ?t) a'"
      using merkle_sign_correct [OF ic addr_ok_set_type [OF ok] length_layer_root [OF r] bl] by blast
    have out: "length out = ?B" using blk by (simp add: xmss_block_def)
    have step: "sign_layer p H ctx i s =
        (memcpy_at sg ?pos out, layer_root p H ctx t r (Suc i), layer_tree p t (Suc i), layer_idx p t l (Suc i), ?w, a')"
      by (simp add: sign_layer_def Let_def s w ms)
    have "layer_block p H ctx t l r (memcpy_at sg ?pos out) j" if "j < Suc i" for j
    proof (cases "j = i")
      case True
      then show ?thesis using blk out fit by (simp add: layer_block_def)
    next
      case False
      then have "Suc j * ?B \<le> i * ?B" using that by (intro mult_le_mono1) simp
      then have "bslice (?o + j * ?B) ?B (memcpy_at sg ?pos out) = bslice (?o + j * ?B) ?B sg"
        using fit out by (intro bslice_memcpy_at_other) auto
      then show ?thesis using old [of j] False that by (simp add: layer_block_def)
    qed
    moreover have "take ?o (memcpy_at sg ?pos out) = take ?o sig"
      using fit sg(2) by (simp add: memcpy_at_def)
    ultimately show "?P (Suc i) (sign_layer p H ctx i s)"
      using fit out sg tree_okI(1) [OF wf_offsets_p a'] by (auto simp: step)
  qed simp
  then show thesis using that by (auto split: prod.splits)
qed

lemma verify_layers:
  fixes sig :: bytes and t :: u64 and l :: u32
  assumes r: "length r = SPX_N p" and l: "unat l < 2 ^ SPX_TREE_HEIGHT p"
    and wa: "wots_addr = chain_addr p (subtree_addr p 0 t) l 0 SPX_ADDR_TYPE_WOTS 0" and ta: "tree_ok p tree_addr"
    and pa: "pka = set_type p zero_addr SPX_ADDR_TYPE_WOTSPK"
    and blocks: "\<And>i. i < SPX_D p \<Longrightarrow> layer_block p H ctx t l r sig i"
  shows "fst (fold (verify_layer p H ctx sig) [0..<SPX_D p] (r, t, l, wots_addr, tree_addr, pka)) =
    layer_root p H ctx t r (SPX_D p)"
proof -
  let ?o = "SPX_N p + SPX_FORS_BYTES p" and ?B = "SPX_WOTS_BYTES p + SPX_TREE_HEIGHT p * SPX_N p"
  let ?P = "\<lambda>i (root, tree, idx, wa, ta, pa).
    root = layer_root p H ctx t r i \<and> tree = layer_tree p t i \<and> idx = layer_idx p t l i \<and>
    wots_ok p wa \<and> tree_ok p ta \<and>
    (\<exists>i t kp. pa = set_keypair_addr p (wotspk_addr p i t) kp)"
  have "?P (SPX_D p) (fold (verify_layer p H ctx sig) [0..<SPX_D p] (r, t, l, wots_addr, tree_addr, pka))"
  proof (rule fold_upt_invar [where P = ?P])
    show "?P 0 (r, t, l, wots_addr, tree_addr, pka)"
      using wa ta pa chain_addr_subtree(6) [OF wf_offsets_p] by auto
  next
    fix i and s :: "bytes \<times> u64 \<times> u32 \<times> bytes \<times> bytes \<times> bytes"
    assume i: "i < SPX_D p" and inv: "?P i s"
    let ?t = "layer_tree p t i" and ?l = "layer_idx p t l i" and ?r = "layer_root p H ctx t r i"
    from inv obtain i0 t0 kp ch hs a i1 t1 kp1
      where s: "s = (?r, ?t, ?l, chain_addr p (subtree_addr p i0 t0) kp ch SPX_ADDR_TYPE_WOTS hs, a,
          set_keypair_addr p (wotspk_addr p i1 t1) kp1)" and a: "tree_ok p a"
      by (cases s) (auto simp: wots_ok_def)
    let ?pos = "?o + i * ?B" and ?blk = "bslice (?o + i * ?B) ?B sig"
    let ?a = "set_tree_addr p (set_layer_addr p a (of_nat i)) ?t"
    let ?w = "chain_addr p (subtree_addr p (of_nat i) ?t) ?l ch SPX_ADDR_TYPE_WOTS hs"
    have ok: "addr_ok p (hashtree_addr p (of_nat i) ?t) ?a" using a by (simp add: tree_ok_def)
    have w: "set_keypair_addr p (copy_subtree_addr p (chain_addr p (subtree_addr p i0 t0) kp ch SPX_ADDR_TYPE_WOTS hs) ?a) ?l = ?w"
      using copy_subtree_addr_ok [OF wf_offsets_p _ _ ok] by (simp add: len_simps chain_addr_subtree)
    have ic: "in_chain p (subtree_addr p (of_nat i) ?t) ?l SPX_ADDR_TYPE_WOTS ?w" by (auto simp: in_chain_def)
    obtain pk w' where pk: "wots_pk_from_sig p H (take (SPX_WOTS_BYTES p) ?blk) ?r ctx ?w = (pk, w')" by fastforce
    have w': "\<exists>ch hs. w' = chain_addr p (subtree_addr p (of_nat i) ?t) ?l ch SPX_ADDR_TYPE_WOTS hs"
      using wots_pk_from_sig_correct(2) [OF _ _ ic, of ?r ctx] blocks [OF i] layer_idx_less [OF l tree_height_bounds(3)] r pk
      by (simp add: layer_block_def xmss_block_def in_chain_def)
    obtain a' where cr: "compute_root p H (thash H pk (SPX_WOTS_LEN p) ctx (set_keypair_addr p (wotspk_addr p (of_nat i) ?t) ?l))
         ?l 0 (drop (SPX_WOTS_BYTES p) ?blk) (SPX_TREE_HEIGHT p) ctx ?a =
        (xmss_node p H ctx (of_nat i) ?t (SPX_TREE_HEIGHT p) 0, a')"
      and a': "addr_ok p (hashtree_addr p (of_nat i) ?t) a'"
      using xmss_pk_from_sig [OF blocks [OF i, unfolded layer_block_def] layer_idx_less [OF l tree_height_bounds(3)] _ ic ok] r pk
      by auto
    have sl: "bslice ?pos (SPX_WOTS_BYTES p) sig = take (SPX_WOTS_BYTES p) ?blk"
      "bslice (?pos + SPX_WOTS_BYTES p) (SPX_TREE_HEIGHT p * SPX_N p) sig = drop (SPX_WOTS_BYTES p) ?blk"
      by (simp_all add: bslice_def drop_take add.commute)
    have "verify_layer p H ctx sig i s =
        (layer_root p H ctx t r (Suc i), layer_tree p t (Suc i), layer_idx p t l (Suc i), w', a',
         set_keypair_addr p (wotspk_addr p (of_nat i) ?t) ?l)"
      by (simp add: verify_layer_def Let_def s w sl pk cr chain_addr_subtree)
    then show "?P (Suc i) (verify_layer p H ctx sig i s)"
      using tree_okI(1) [OF wf_offsets_p a'] w' by auto
  qed simp
  then show ?thesis by (auto split: prod.splits)
qed

end

section \<open>Signer and verifier compute with different contexts\<close>

definition same_thash :: "spx_hash \<Rightarrow> spx_ctx \<Rightarrow> spx_ctx \<Rightarrow> bool" where
  "same_thash H c c' \<longleftrightarrow> (\<forall>x k a. thash H x k c a = thash H x k c' a)"

lemma same_thash_simp: "same_thash H c c' \<Longrightarrow> thash H x k c = thash H x k c'"
  by (auto simp: same_thash_def)

lemma gen_chain_cong: "same_thash H c c' \<Longrightarrow> gen_chain p H x s t c a = gen_chain p H x s t c' a"
  by (simp add: gen_chain_def same_thash_simp)

lemma wots_pk_from_sig_cong:
  "same_thash H c c' \<Longrightarrow> wots_pk_from_sig p H sig msg c a = wots_pk_from_sig p H sig msg c' a"
  by (simp add: wots_pk_from_sig_def gen_chain_cong [of H c c'])

lemma compute_root_loop_cong:
  "same_thash H c c' \<Longrightarrow>
   compute_root_loop p H c left i l off buf auth a = compute_root_loop p H c' left i l off buf auth a"
  by (induction left arbitrary: i l off buf auth a) (simp_all add: Let_def same_thash_simp [of H c c'])

lemma compute_root_cong:
  "same_thash H c c' \<Longrightarrow> compute_root p H leaf l off auth h c a = compute_root p H leaf l off auth h c' a"
  by (simp add: compute_root_def compute_root_loop_cong [of H c c'] same_thash_simp [of H c c'] Let_def)

lemma fors_pk_from_sig_cong:
  "same_thash H c c' \<Longrightarrow> fors_pk_from_sig p H sig m c a = fors_pk_from_sig p H sig m c' a"
  by (simp add: fors_pk_from_sig_def fors_pk_from_sig_tree_def [abs_def] fors_sk_to_leaf_def
      compute_root_cong [of H c c'] same_thash_simp [of H c c'])

lemma verify_layer_cong: "same_thash H c c' \<Longrightarrow> verify_layer p H c sig = verify_layer p H c' sig"
  by (simp add: verify_layer_def [abs_def] wots_pk_from_sig_cong [of H c c'] compute_root_cong [of H c c']
      same_thash_simp [of H c c'])

lemma xmss_node_cong:
  assumes t: "same_thash H c c'" and p: "\<And>a. prf_addr H c a = prf_addr H c' a"
  shows "xmss_node p H c = xmss_node p H c'"
proof -
  have "wots_chain p H c base kp i k = wots_chain p H c' base kp i k" for base kp i k
    by (induction k) (simp_all add: p same_thash_simp [OF t])
  then show ?thesis
    by (simp add: xmss_node_def [abs_def] node_hash_def [abs_def] wots_leaf_def wots_pk_def same_thash_simp [OF t])
qed

section \<open>The scheme\<close>

context spx_thash
begin

lemma merkle_gen_root_correct:
  assumes "length root = SPX_N p" and "length auth_path = SPX_WOTS_BYTES p + SPX_TREE_HEIGHT p * SPX_N p"
  shows "merkle_gen_root p H auth_path root ctx = xmss_node p H ctx (of_nat (SPX_D p - 1)) 0 (SPX_TREE_HEIGHT p) 0"
proof -
  let ?i = "of_nat (SPX_D p - 1) :: u32" and ?a = "set_layer_addr p zero_addr (of_nat (SPX_D p - 1))"
  have "in_chain p (subtree_addr p ?i 0) 0 SPX_ADDR_TYPE_WOTS ?a"
    unfolding chain_addr_subtree(7) [OF wf_offsets_p] by (auto simp: in_chain_def)
  moreover have "addr_ok p (hashtree_addr p ?i 0) (set_type p ?a SPX_ADDR_TYPE_HASHTREE)"
    by (simp add: chain_addr_subtree(8) addr_ok_def)
  ultimately obtain s a where "merkle_sign p H auth_path root ctx ?a ?a (NOT 0) =
      (s, xmss_node p H ctx ?i 0 (SPX_TREE_HEIGHT p) 0, a)"
    using assms by (rule merkle_sign_correct)
  then show ?thesis by (simp add: merkle_gen_root_def)
qed

text \<open>Key generation: the formats of the two keys.\<close>

lemma crypto_sign_seed_keypair_correct:
  assumes "length seed = 3 * SPX_N p" and "length pk = SPX_PK_BYTES p" and "length sk = SPX_SK_BYTES p"
    and "length auth_path = SPX_WOTS_BYTES p + SPX_TREE_HEIGHT p * SPX_N p"
  shows "crypto_sign_seed_keypair p H ctx auth_path pk sk seed =
    (let root = xmss_node p H (initialize_hash_function H
           (ctx\<lparr>pub_seed := drop (2 * SPX_N p) seed, sk_seed := take (SPX_N p) seed\<rparr>))
           (of_nat (SPX_D p - 1)) 0 (SPX_TREE_HEIGHT p) 0
     in (0, drop (2 * SPX_N p) seed @ root, seed @ root))"
proof -
  let ?N = "SPX_N p"
  let ?sk = "memcpy_at sk 0 (take (CRYPTO_SEEDBYTES p) seed)"
  have sk: "?sk = seed @ drop (3 * ?N) sk" and lsk: "length (drop (3 * ?N) sk) = ?N"
    using assms by (simp_all add: CRYPTO_SEEDBYTES_def memcpy_at_def SPX_SK_BYTES_def SPX_PK_BYTES_def)
  have ps: "bslice (2 * ?N) ?N ?sk = drop (2 * ?N) seed" and r0: "length (bslice (3 * ?N) ?N ?sk) = ?N"
    and s0: "take ?N ?sk = take ?N seed"
    unfolding sk using assms(1) lsk by (simp_all add: bslice_def)
  have w: "memcpy_at ?sk (3 * ?N) root = seed @ root" if "length root = ?N" for root
    unfolding sk using assms(1) lsk that by (simp add: memcpy_at_def)
  have r: "bslice (3 * ?N) ?N (seed @ root) = root" if "length root = ?N" for root
    using assms(1) that by (simp add: bslice_def)
  have pk: "memcpy_at (memcpy_at pk 0 (drop (2 * ?N) seed)) ?N root = drop (2 * ?N) seed @ root"
    if "length root = ?N" for root
    using assms(1,2) that by (simp add: memcpy_at_def SPX_PK_BYTES_def)
  have pk0: "take ?N (memcpy_at pk 0 (drop (2 * ?N) seed)) = drop (2 * ?N) seed"
    using assms(1) by (simp add: memcpy_at_def)
  show ?thesis
    by (simp add: crypto_sign_seed_keypair_def Let_def ps s0 merkle_gen_root_correct [OF r0 assms(4)] w pk pk0 r)
qed

end

context spx_hash_laws
begin

lemma D_pos: "0 < SPX_D p"
  using wf_p by (simp add: wf_params_def)

lemma same_thash_init:
  "pub_seed c = pub_seed c' \<Longrightarrow> same_thash H (initialize_hash_function H c) (initialize_hash_function H c')"
  by (simp add: same_thash_def thash_public [of c c'])

lemma last_layer_root:
  assumes "unat t < 2 ^ (SPX_TREE_HEIGHT p * (SPX_D p - 1))"
  shows "layer_root p H ctx t r (SPX_D p) = xmss_node p H ctx (of_nat (SPX_D p - 1)) 0 (SPX_TREE_HEIGHT p) 0"
proof -
  have "layer_tree p t (SPX_D p - 1) = 0"
    using assms unat_drop_bit_div [of "(SPX_D p - 1) * SPX_TREE_HEIGHT p" t]
    by (simp add: layer_tree_def word_unat_eq_iff mult.commute)
  moreover have "SPX_D p = Suc (SPX_D p - 1)" using D_pos by simp
  ultimately show ?thesis by (metis layer_simps(6))
qed

text \<open>What a signature holds, under a key made of the seeds and any root.\<close>

lemma crypto_sign_signature_correct:
  fixes ctx :: spx_ctx and sk optrand m sig :: bytes
  defines "c \<equiv> initialize_hash_function H (ctx\<lparr>sk_seed := take (SPX_N p) sk, pub_seed := bslice (2 * SPX_N p) (SPX_N p) sk\<rparr>)"
    and "pk \<equiv> bslice (2 * SPX_N p) (SPX_PK_BYTES p) sk"
  assumes sig: "length sig = SPX_BYTES p" and sk: "length sk = SPX_SK_BYTES p"
  obtains sig' R mhash t l fpk where
    "crypto_sign_signature p H ctx optrand sig m sk = (0, sig', SPX_BYTES p)" and "length sig' = SPX_BYTES p"
    and "take (SPX_N p) sig' = R" and "hash_message H R pk m c = (mhash, t, l)"
    and "fors_pk_from_sig p H (bslice (SPX_N p) (SPX_FORS_BYTES p) sig') mhash c
      (chain_addr p (subtree_addr p 0 t) l 0 SPX_ADDR_TYPE_WOTS 0) = fpk" and "length fpk = SPX_N p"
    and "\<And>i. i < SPX_D p \<Longrightarrow> layer_block p H c t l fpk sig' i"
proof -
  let ?N = "SPX_N p" and ?F = "SPX_FORS_BYTES p"
  define R where "R = gen_message_random H (bslice ?N ?N sk) optrand m c"
  define sig1 where "sig1 = memcpy_at sig 0 R"
  obtain mhash t l where hm: "hash_message H R pk m c = (mhash, t, l)" by (metis prod_cases3)
  define fa where "fa = chain_addr p (subtree_addr p 0 t) l 0 SPX_ADDR_TYPE_WOTS 0"
  have R: "length R = ?N" by (simp add: R_def length_gen_message_random)
  have big: "?N + ?F \<le> SPX_BYTES p" by (simp add: SPX_BYTES_def)
  have sig1: "length sig1 = SPX_BYTES p" "take ?N sig1 = R" using sig R big by (simp_all add: sig1_def memcpy_at_def)
  have fa: "length fa = SPX_ADDR_BYTES" by (simp add: fa_def len_simps)
  have mh: "length mhash = SPX_FORS_MSG_BYTES p" using hash_message_range [OF hm] by simp
  have "length (bslice ?N ?F sig1) = ?F" using sig1 big by simp
  then obtain fsig where fs: "fors_sign p H (bslice ?N ?F sig1) mhash c fa = (fsig, fors_pk p H c (copy_keypair_addr p zero_addr fa))"
    and fl: "length fsig = ?F"
    and blocks: "\<And>i. i < SPX_FORS_TREES p \<Longrightarrow> fors_block p H c (copy_keypair_addr p zero_addr fa) (message_to_indices p mhash) i
      (bslice (i * ((1 + SPX_FORS_HEIGHT p) * ?N)) ((1 + SPX_FORS_HEIGHT p) * ?N) fsig)"
    using fors_sign_correct [OF fa mh] by blast
  let ?fpk = "fors_pk p H c (copy_keypair_addr p zero_addr fa)"
  have fpk: "fors_pk_from_sig p H fsig mhash c fa = ?fpk"
    using fors_pk_from_sig_correct [OF fa mh blocks] .
  define sig2 where "sig2 = memcpy_at sig1 ?N fsig"
  have sig2: "length sig2 = SPX_BYTES p" "take (?N + ?F) sig2 = R @ fsig"
    using sig1 fl big R by (simp_all add: sig2_def memcpy_at_def)
  have lfpk: "length ?fpk = ?N" by (simp add: fors_pk_def)
  obtain sig' s where layers: "fold (sign_layer p H c) [0..<SPX_D p]
      (sig2, ?fpk, t, l, fa, set_type p zero_addr SPX_ADDR_TYPE_HASHTREE) = (sig', s)"
    and l': "length sig' = SPX_BYTES p" and pre: "take (?N + ?F) sig' = take (?N + ?F) sig2"
    and lb: "\<And>i. i < SPX_D p \<Longrightarrow> layer_block p H c t l ?fpk sig' i"
    using sign_layers [OF sig2(1) lfpk fa_def tree_okI(2) [OF wf_offsets_p]] by blast
  have ps: "take ?N pk = bslice (2 * ?N) ?N sk"
    by (simp add: pk_def bslice_def SPX_PK_BYTES_def min_def)
  have "crypto_sign_signature p H ctx optrand sig m sk = (0, sig', SPX_BYTES p)"
    unfolding crypto_sign_signature_def Let_def pk_def [symmetric] ps c_def [symmetric] R_def [symmetric]
      sig1_def [symmetric] sig1(2) hm case_prod_conv chain_addr_subtree(1) [OF wf_offsets_p] fa_def [symmetric] fs
      sig2_def [symmetric]
    using layers by (simp split: prod.splits)
  moreover have "take ?N sig' = R" "bslice ?N ?F sig' = fsig"
    using arg_cong [OF pre, of "take ?N"] arg_cong [OF pre, of "drop ?N"] sig2(2) R fl
    by (simp_all add: bslice_def min_def drop_take)
  ultimately show thesis
    using that l' hm fpk lfpk lb unfolding fa_def by blast
qed

lemma sign_then_verify:
  assumes "length seed = 3 * SPX_N p" and "length pk0 = SPX_PK_BYTES p" and "length sk0 = SPX_SK_BYTES p"
    and "length auth_path = SPX_WOTS_BYTES p + SPX_TREE_HEIGHT p * SPX_N p" and sig: "length sig0 = SPX_BYTES p"
    and key: "crypto_sign_seed_keypair p H ctx1 auth_path pk0 sk0 seed = (ret1, pk, sk)"
    and sgn: "crypto_sign_signature p H ctx2 optrand sig0 m sk = (ret2, sig, siglen)"
  shows "crypto_sign_verify p H ctx3 sig siglen m pk = 0"
proof -
  let ?N = "SPX_N p" and ?T = "SPX_TREE_HEIGHT p"
  let ?c1 = "initialize_hash_function H (ctx1\<lparr>pub_seed := drop (2 * ?N) seed, sk_seed := take ?N seed\<rparr>)"
  let ?c2 = "initialize_hash_function H (ctx2\<lparr>sk_seed := take ?N seed, pub_seed := drop (2 * ?N) seed\<rparr>)"
  let ?c3 = "initialize_hash_function H (ctx3\<lparr>pub_seed := drop (2 * ?N) seed\<rparr>)"
  define root where "root = xmss_node p H ?c1 (of_nat (SPX_D p - 1)) 0 ?T 0"
  have sk: "sk = seed @ root" and pk: "pk = drop (2 * ?N) seed @ root"
    using crypto_sign_seed_keypair_correct [OF assms(1-4), of ctx1] key by (simp_all add: root_def Let_def)
  have lr: "length root = ?N" by (simp add: root_def)
  have lsk: "length sk = SPX_SK_BYTES p" using assms(1) lr by (simp add: sk SPX_SK_BYTES_def SPX_PK_BYTES_def)
  have parts: "take ?N sk = take ?N seed" "bslice (2 * ?N) ?N sk = drop (2 * ?N) seed"
    "bslice (2 * ?N) (SPX_PK_BYTES p) sk = pk" "take (SPX_PK_BYTES p) pk = pk" "take ?N pk = drop (2 * ?N) seed"
    "bslice ?N ?N pk = root"
    using assms(1) lr by (simp_all add: sk pk bslice_def SPX_PK_BYTES_def)
  obtain sig' R mhash t l fpk where
    s: "crypto_sign_signature p H ctx2 optrand sig0 m sk = (0, sig', SPX_BYTES p)"
    and R: "take ?N sig' = R" and hm: "hash_message H R pk m ?c2 = (mhash, t, l)"
    and fpk: "fors_pk_from_sig p H (bslice ?N (SPX_FORS_BYTES p) sig') mhash ?c2
      (chain_addr p (subtree_addr p 0 t) l 0 SPX_ADDR_TYPE_WOTS 0) = fpk" and lf: "length fpk = ?N"
    and lb: "\<And>i. i < SPX_D p \<Longrightarrow> layer_block p H ?c2 t l fpk sig' i"
    using crypto_sign_signature_correct [OF sig lsk, of ctx2 optrand m, unfolded parts] by metis
  have same: "same_thash H ?c3 ?c2" by (rule same_thash_init) simp
  have range: "unat t < 2 ^ (?T * (SPX_D p - 1))" "unat l < 2 ^ ?T" using hash_message_range [OF hm] by simp_all
  have hm3: "hash_message H R pk m ?c3 = (mhash, t, l)"
    using hm hash_message_public [of R pk m] by metis
  have "fst (fold (verify_layer p H ?c3 sig') [0..<SPX_D p]
      (fpk, t, l, chain_addr p (subtree_addr p 0 t) l 0 SPX_ADDR_TYPE_WOTS 0,
       set_type p zero_addr SPX_ADDR_TYPE_HASHTREE, set_type p zero_addr SPX_ADDR_TYPE_WOTSPK)) =
      layer_root p H ?c2 t fpk (SPX_D p)"
    unfolding verify_layer_cong [OF same]
    by (rule verify_layers [OF lf range(2) refl tree_okI(2) [OF wf_offsets_p] refl lb])
  also have "\<dots> = root"
    unfolding last_layer_root [OF range(1)] root_def
    by (rule fun_cong [OF fun_cong [OF fun_cong [OF fun_cong [OF xmss_node_cong]]]])
      (auto intro: same_thash_init prf_addr_seeds)
  finally have "crypto_sign_verify p H ctx3 sig' (SPX_BYTES p) m pk = 0"
    unfolding crypto_sign_verify_def Let_def
    by (auto simp: parts R hm3 chain_addr_subtree(1) fors_pk_from_sig_cong [OF same] fpk split: prod.splits)
  then show ?thesis using sgn s by simp
qed

text \<open>The attached-signature interface: opening a signed message gives the message back.\<close>

lemma sign_then_open:
  assumes "length seed = 3 * SPX_N p" and "length pk0 = SPX_PK_BYTES p" and "length sk0 = SPX_SK_BYTES p"
    and "length auth_path = SPX_WOTS_BYTES p + SPX_TREE_HEIGHT p * SPX_N p"
    and sm0: "length sm0 = SPX_BYTES p + length m"
    and key: "crypto_sign_seed_keypair p H ctx1 auth_path pk0 sk0 seed = (ret1, pk, sk)"
    and sgn: "crypto_sign p H ctx2 optrand sm0 m sk = (ret2, sm, smlen)"
  shows "crypto_sign_open p H ctx3 mbuf sm smlen pk = (0, memcpy_at mbuf 0 m, length m)"
proof -
  have lsk: "length sk = SPX_SK_BYTES p"
    using crypto_sign_seed_keypair_correct [OF assms(1-4), of ctx1] key assms(1)
    by (auto simp: Let_def SPX_SK_BYTES_def SPX_PK_BYTES_def)
  have "length (take (SPX_BYTES p) sm0) = SPX_BYTES p" using sm0 by simp
  then obtain sig where s: "crypto_sign_signature p H ctx2 optrand (take (SPX_BYTES p) sm0) m sk = (0, sig, SPX_BYTES p)"
    and ls: "length sig = SPX_BYTES p"
    using crypto_sign_signature_correct [OF _ lsk] by metis
  have "crypto_sign_verify p H ctx3 sig (SPX_BYTES p) m pk = 0"
    using sign_then_verify [OF assms(1-4) _ key s] sm0 by simp
  moreover have "sm = sig @ m" "smlen = SPX_BYTES p + length m"
    using sgn s ls sm0 by (auto simp: crypto_sign_def memcpy_at_def)
  ultimately show ?thesis
    using ls by (simp add: crypto_sign_open_def bslice_def)
qed

end

text \<open>Rejection: whatever fails, no byte of the message is released.\<close>

lemma crypto_sign_open_reject:
  assumes "crypto_sign_open p H ctx m sm smlen pk = (ret, m', mlen)" and "ret \<noteq> 0"
  shows "ret = - 1 \<and> mlen = 0 \<and> m' = memcpy_at m 0 (replicate smlen 0)"
  using assms by (auto simp: crypto_sign_open_def Let_def split: if_splits)

lemma crypto_sign_open_accept:
  assumes "crypto_sign_open p H ctx m sm smlen pk = (0, m', mlen)"
  shows "SPX_BYTES p \<le> smlen \<and> mlen = smlen - SPX_BYTES p \<and>
    m' = memcpy_at m 0 (bslice (SPX_BYTES p) mlen sm) \<and>
    crypto_sign_verify p H ctx (take (SPX_BYTES p) sm) (SPX_BYTES p) (bslice (SPX_BYTES p) mlen sm) pk = 0"
  using assms by (auto simp: crypto_sign_open_def Let_def split: if_splits)

lemma crypto_sign_verify_siglen: "siglen \<noteq> SPX_BYTES p \<Longrightarrow> crypto_sign_verify p H ctx sig siglen m pk = - 1"
  by (simp add: crypto_sign_verify_def)

end
