(* ===== verification/Keccak_Spec.thy ===== *)
theory Keccak_Spec
  imports Keccak
begin

text \<open>
  The Keccak-f[1600] permutation as FIPS 202 specifies it, from its step mappings, with rotation
  offsets and round constants generated by the algorithms of the standard, and the proof that the
  unrolled permutation of \<open>pqmagic/hash/keccak/fips202.c\<close> computes it.
\<close>

section \<open>The step mappings of FIPS 202\<close>

text \<open>Lane \<open>(x, y)\<close> of the state is \<open>s ! (5 * y + x)\<close>.\<close>

definition keccak_theta :: "u64 list \<Rightarrow> u64 list" where
  "keccak_theta s =
     (let C = (\<lambda>x. s ! x XOR s ! (x + 5) XOR s ! (x + 10) XOR s ! (x + 15) XOR s ! (x + 20));
          D = (\<lambda>x. C ((x + 4) mod 5) XOR word_rotl 1 (C ((x + 1) mod 5)))
      in map (\<lambda>i. s ! i XOR D (i mod 5)) [0..<25])"

text \<open>The rotation offsets, by the walk of Algorithm 2: \<open>(t + 1) (t + 2) / 2\<close> at the \<open>t\<close>-th lane.\<close>

fun rho_walk :: "nat \<Rightarrow> nat \<Rightarrow> nat \<Rightarrow> nat \<Rightarrow> nat list \<Rightarrow> nat list" where
  "rho_walk 0 t x y offs = offs"
| "rho_walk (Suc n) t x y offs =
     rho_walk n (t + 1) y ((2 * x + 3 * y) mod 5) (offs[5 * y + x := (t + 1) * (t + 2) div 2 mod 64])"

definition rho_offsets :: "nat list" where
  "rho_offsets = rho_walk 24 0 1 0 (replicate 25 0)"

definition keccak_rho :: "u64 list \<Rightarrow> u64 list" where
  "keccak_rho s = map (\<lambda>i. word_rotl (rho_offsets ! i) (s ! i)) [0..<25]"

definition keccak_pi :: "u64 list \<Rightarrow> u64 list" where
  "keccak_pi s = map (\<lambda>i. let x = i mod 5; y = i div 5 in s ! (5 * x + (x + 3 * y) mod 5)) [0..<25]"

definition keccak_chi :: "u64 list \<Rightarrow> u64 list" where
  "keccak_chi s =
     map (\<lambda>i. let x = i mod 5; y = i div 5
          in s ! i XOR (NOT (s ! (5 * y + (x + 1) mod 5)) AND s ! (5 * y + (x + 2) mod 5))) [0..<25]"

definition keccak_iota :: "u64 \<Rightarrow> u64 list \<Rightarrow> u64 list" where
  "keccak_iota rc s = s[0 := s ! 0 XOR rc]"

definition keccak_round :: "u64 \<Rightarrow> u64 list \<Rightarrow> u64 list" where
  "keccak_round rc s = keccak_iota rc (keccak_chi (keccak_pi (keccak_rho (keccak_theta s))))"

text \<open>
  The round constants, by the linear feedback shift register of Algorithm 5: bit \<open>2^j - 1\<close> of
  constant \<open>i\<close> is its output at time \<open>j + 7 i\<close>.
\<close>

fun rc_step :: "bool list \<Rightarrow> bool list" where
  "rc_step [r0, r1, r2, r3, r4, r5, r6, r7] = [r7, r0, r1, r2, r3 \<noteq> r7, r4 \<noteq> r7, r5 \<noteq> r7, r6]"
| "rc_step r = r"

fun rc_stream :: "nat \<Rightarrow> bool list \<Rightarrow> bool list" where
  "rc_stream 0 r = []"
| "rc_stream (Suc n) r = hd r # rc_stream n (rc_step r)"

definition rc_bits :: "bool list" where
  "rc_bits = rc_stream (7 * 24) [True, False, False, False, False, False, False, False]"

definition round_constant :: "nat \<Rightarrow> int" where
  "round_constant i = (\<Sum>j \<leftarrow> [0..<7]. if rc_bits ! (j + 7 * i) then 2 ^ (2 ^ j - 1) else 0)"

definition keccak_f :: "u64 list \<Rightarrow> u64 list" where
  "keccak_f s = fold (\<lambda>i. keccak_round (word_of_int (round_constant i))) [0..<24] s"

lemma rho_offsets_table:
  "rho_offsets = [0, 1, 62, 28, 27, 36, 44, 6, 55, 20, 3, 10, 43, 25, 39, 41, 45, 15, 21, 8, 18, 2, 61, 56, 14]"
  by code_simp

lemma round_constants_generated: "map uint KeccakF_RoundConstants = map round_constant [0..<24]"
  by (simp add: KeccakF_RoundConstants_def) code_simp

lemma rotl_index:
  assumes "n < 64" and "k < (64 :: nat)"
  shows "(k + 64 - n) mod 64 = (if n \<le> k then k - n else 64 + k - n)"
proof (cases "n \<le> k")
  case True
  then have "k + 64 - n = (k - n) + 64" by simp
  then show ?thesis using True assms by (metis mod_add_self2 mod_less less_imp_diff_less)
next
  case False
  then show ?thesis using assms by simp
qed

lemma word_rotl_0 [simp]: "word_rotl 0 (a :: u64) = a"
  by (rule bit_word_eqI) (simp add: bit_word_rotl_iff)

lemma ROL_word_rotl:
  assumes "0 < n" and "n < 64"
  shows "ROL a n = word_rotl n a"
proof (rule bit_word_eqI)
  fix k assume "k < LENGTH(64)"
  then have k: "k < 64" by simp
  have "\<not> bit a (64 + k - n)" if "n \<le> k"
    using that by (auto dest: bit_imp_le_length)
  then show "bit (ROL a n) k = bit (word_rotl n a) k"
    using assms k by (auto simp: ROL_def bit_simps bit_word_rotl_iff rotl_index)
qed

lemma list25:
  assumes "length s = 25"
  obtains a0 a1 a2 a3 a4 a5 a6 a7 a8 a9 a10 a11 a12 a13 a14 a15 a16 a17 a18 a19 a20 a21 a22 a23 a24
  where "s = [a0, a1, a2, a3, a4, a5, a6, a7, a8, a9, a10, a11, a12, a13, a14, a15, a16, a17, a18,
    a19, a20, a21, a22, a23, a24]"
  using assms by (auto simp: numeral_eq_Suc length_Suc_conv)

lemma upt_25: "[0..<25] = [0, 1, 2, 3, 4, 5, 6, 7, 8, 9, 10, 11, 12, 13, 14, 15, 16, 17, 18, 19, 20, 21, 22, 23, 24 :: nat]"
  by code_simp

lemma keccak_round_AE_eq:
  assumes "length s = 25"
  shows "keccak_round_AE rc s = keccak_round rc s"
proof -
  obtain a0 a1 a2 a3 a4 a5 a6 a7 a8 a9 a10 a11 a12 a13 a14 a15 a16 a17 a18 a19 a20 a21 a22 a23 a24
    where s: "s = [a0, a1, a2, a3, a4, a5, a6, a7, a8, a9, a10, a11, a12, a13, a14, a15, a16, a17, a18,
    a19, a20, a21, a22, a23, a24]"
    using assms by (rule list25)
  show ?thesis
    unfolding s keccak_round_AE_def keccak_round_def keccak_iota_def keccak_chi_def keccak_pi_def keccak_rho_def
      keccak_theta_def rho_offsets_table upt_25 Let_def
    by (simp add: ROL_word_rotl)
qed

lemma keccak_round_EA_eq:
  assumes "length s = 25"
  shows "keccak_round_EA rc s = keccak_round rc s"
proof -
  obtain a0 a1 a2 a3 a4 a5 a6 a7 a8 a9 a10 a11 a12 a13 a14 a15 a16 a17 a18 a19 a20 a21 a22 a23 a24
    where s: "s = [a0, a1, a2, a3, a4, a5, a6, a7, a8, a9, a10, a11, a12, a13, a14, a15, a16, a17, a18,
    a19, a20, a21, a22, a23, a24]"
    using assms by (rule list25)
  show ?thesis
    unfolding s keccak_round_EA_def keccak_round_def keccak_iota_def keccak_chi_def keccak_pi_def keccak_rho_def
      keccak_theta_def rho_offsets_table upt_25 Let_def
    by (simp add: ROL_word_rotl)
qed

lemma length_keccak_round [simp]: "length (keccak_round rc s) = 25"
  by (simp add: keccak_round_def keccak_iota_def keccak_chi_def)

lemma RoundConstants_nth:
  assumes "i < 24"
  shows "KeccakF_RoundConstants ! i = word_of_int (round_constant i)"
proof -
  have "length KeccakF_RoundConstants = 24"
    by (simp add: KeccakF_RoundConstants_def)
  then have "uint (KeccakF_RoundConstants ! i) = round_constant i"
    using arg_cong [OF round_constants_generated, of "\<lambda>xs. xs ! i"] assms by simp
  then show ?thesis by (metis word_of_int_uint)
qed

text \<open>Two rounds per turn, twelve turns: the twenty-four rounds.\<close>

lemma fold_pairs: "fold (\<lambda>i s. f (Suc i) (f i s)) (map (\<lambda>k. 2 * k) [0..<n]) s = fold f [0..<2 * n] s"
  by (induction n) simp_all

lemma length_fold_keccak_round:
  "length s = 25 \<Longrightarrow> length (fold (\<lambda>i. keccak_round (f i)) is s) = 25"
  by (induction "is" arbitrary: s) simp_all

lemma KeccakF1600_StatePermute_eq:
  assumes "length s = 25"
  shows "KeccakF1600_StatePermute s = keccak_f s"
proof -
  let ?RC = "\<lambda>i. word_of_int (round_constant i) :: u64"
  have "fold (\<lambda>i A. keccak_round_EA (KeccakF_RoundConstants ! (i + 1)) (keccak_round_AE (KeccakF_RoundConstants ! i) A)) js s =
      fold (\<lambda>i A. keccak_round (?RC (Suc i)) (keccak_round (?RC i) A)) js s"
    if "\<forall>j \<in> set js. j + 1 < 24" for js
    using that assms
    by (induction js arbitrary: s) (simp_all add: RoundConstants_nth keccak_round_AE_eq keccak_round_EA_eq)
  from this [of "map (\<lambda>k. 2 * k) [0..<12]"] show ?thesis
    using fold_pairs [of "\<lambda>i. keccak_round (?RC i)" 12 s]
    by (simp add: KeccakF1600_StatePermute_def keccak_f_def NROUNDS_def Let_def)
qed

lemma length_KeccakF1600 [simp]: "length s = 25 \<Longrightarrow> length (KeccakF1600_StatePermute s) = 25"
  by (simp add: KeccakF1600_StatePermute_eq keccak_f_def length_fold_keccak_round)

end
