(* ===== verification/Keccak_Sponge.thy ===== *)
theory Keccak_Sponge
  imports Keccak_Spec
begin

text \<open>
  The sponge functions of \<open>pqmagic/hash/keccak/fips202.c\<close>.  Absorbing and squeezing are shown to act
  byte by byte (\<open>absorb_byte\<close>, \<open>squeeze_byte\<close>); \<open>xof\<close> is the resulting output stream.  The one-shot
  functions compute its prefixes, and both incremental interfaces do so however input and output are
  split into calls.
\<close>

section \<open>Absorbing, byte by byte\<close>

definition xor_byte :: "u64 list \<Rightarrow> nat \<Rightarrow> u8 \<Rightarrow> u64 list" where
  "xor_byte s i b = s[i div 8 := s ! (i div 8) XOR push_bit (8 * (i mod 8)) (ucast b)]"

definition absorb_byte :: "nat \<Rightarrow> u8 \<Rightarrow> u64 list \<times> nat \<Rightarrow> u64 list \<times> nat" where
  "absorb_byte r b = (\<lambda>(s, pos).
     let s = xor_byte s pos b
     in if Suc pos = r then (KeccakF1600_StatePermute s, 0) else (s, Suc pos))"

lemma length_xor_byte [simp]: "length (xor_byte s i b) = length s"
  by (simp add: xor_byte_def)

lemma keccak_xor_bytes_Cons: "keccak_xor_bytes s i (b # bs) = keccak_xor_bytes (xor_byte s i b) (Suc i) bs"
  by (simp add: xor_byte_def)

declare keccak_xor_bytes.simps(2) [simp del]
declare keccak_xor_bytes_Cons [simp]

lemma length_keccak_xor_bytes [simp]: "length (keccak_xor_bytes s i bs) = length s"
  by (induction bs arbitrary: s i) simp_all

lemma keccak_xor_bytes_append:
  "keccak_xor_bytes s i (xs @ ys) = keccak_xor_bytes (keccak_xor_bytes s i xs) (i + length xs) ys"
  by (induction xs arbitrary: s i) simp_all

lemma absorb_partial:
  "pos + length inp < r \<Longrightarrow> fold (absorb_byte r) inp (s, pos) = (keccak_xor_bytes s pos inp, pos + length inp)"
  by (induction inp arbitrary: s pos) (simp_all add: absorb_byte_def)

lemma absorb_full:
  "pos + length inp = r \<Longrightarrow> inp \<noteq> [] \<Longrightarrow>
   fold (absorb_byte r) inp (s, pos) = (KeccakF1600_StatePermute (keccak_xor_bytes s pos inp), 0)"
proof (induction inp arbitrary: s pos)
  case (Cons b inp)
  then show ?case
    by (cases "inp = []") (auto simp: absorb_byte_def Let_def)
qed simp

lemma keccak_absorb_bytes: "pos < r \<Longrightarrow> keccak_absorb s pos r inp = fold (absorb_byte r) inp (s, pos)"
proof (induction s pos r inp rule: keccak_absorb.induct)
  case (1 s pos r inp)
  show ?case
  proof (cases "r \<le> pos + length inp")
    case True
    have "fold (absorb_byte r) (take (r - pos) inp) (s, pos) =
        (KeccakF1600_StatePermute (keccak_xor_bytes s pos (take (r - pos) inp)), 0)"
      using True 1(2) by (intro absorb_full) auto
    then have "fold (absorb_byte r) inp (s, pos) = fold (absorb_byte r) (drop (r - pos) inp)
        (KeccakF1600_StatePermute (keccak_xor_bytes s pos (take (r - pos) inp)), 0)"
      by (metis append_take_drop_id comp_apply fold_append)
    then show ?thesis using 1 True by (subst keccak_absorb.simps) simp
  next
    case False
    then show ?thesis by (subst keccak_absorb.simps) (simp add: absorb_partial)
  qed
qed

text \<open>Hence the chunking of the input does not matter.\<close>

lemma snd_absorb_byte: "0 < r \<Longrightarrow> snd a < r \<Longrightarrow> snd (absorb_byte r b a) < r"
  by (cases a) (auto simp: absorb_byte_def Let_def)

lemma snd_absorb: "0 < r \<Longrightarrow> snd a < r \<Longrightarrow> snd (fold (absorb_byte r) bs a) < r"
  by (induction bs arbitrary: a) (simp_all add: snd_absorb_byte)

lemma length_absorb: "length (fst a) = 25 \<Longrightarrow> length (fst (fold (absorb_byte r) bs a)) = 25"
  by (induction bs arbitrary: a) (auto simp: absorb_byte_def Let_def split: prod.splits)

lemma keccak_absorb_append:
  assumes "pos < r" and "keccak_absorb s pos r x = (s', pos')"
  shows "keccak_absorb s pos r (x @ y) = keccak_absorb s' pos' r y" and "pos' < r"
proof -
  have f: "fold (absorb_byte r) x (s, pos) = (s', pos')"
    using assms keccak_absorb_bytes by metis
  then show "pos' < r" using snd_absorb [of r "(s, pos)" x] assms(1) by simp
  then show "keccak_absorb s pos r (x @ y) = keccak_absorb s' pos' r y"
    using f assms(1) by (simp add: keccak_absorb_bytes)
qed

lemma keccak_inc_absorb_eq:
  "keccak_inc_absorb st r inp =
   (let (s, c) = keccak_absorb (inc_s st) (inc_cnt st) r inp in \<lparr>inc_s = s, inc_cnt = c\<rparr>)"
proof (induction st r inp rule: keccak_inc_absorb.induct)
  case (1 st r inp)
  show ?case
    by (subst keccak_inc_absorb.simps, subst keccak_absorb.simps)
      (use 1 in \<open>auto simp: add.commute\<close>)
qed

section \<open>Lanes and bytes\<close>

lemma xor_byte_0 [simp]: "xor_byte s i 0 = s"
  by (simp add: xor_byte_def)

lemma keccak_xor_zeros [simp]: "keccak_xor_bytes s i (replicate n 0) = s"
  by (induction n arbitrary: i) simp_all

lemma xor_byte_xor:
  assumes "i div 8 < length s"
  shows "xor_byte s i (a XOR b) = xor_byte (xor_byte s i a) i b"
proof -
  have "ucast (a XOR b) = (ucast a XOR ucast b :: u64)"
    by (rule bit_word_eqI) (auto simp: bit_simps)
  then show ?thesis using assms
    by (simp add: xor_byte_def push_bit_xor xor.assoc)
qed

lemma xor_byte_swap:
  assumes "i div 8 < length s" and "j div 8 < length s"
  shows "xor_byte (xor_byte s i a) j b = xor_byte (xor_byte s j b) i a"
proof (cases "i div 8 = j div 8")
  case True
  then show ?thesis using assms by (simp add: xor_byte_def ac_simps)
next
  case False
  then show ?thesis using assms by (simp add: xor_byte_def list_update_swap)
qed

lemma or_eq_xor_above:
  assumes "take_bit n r = (r :: 'a::len word)"
  shows "r OR push_bit n x = r XOR push_bit n x"
    and "take_bit m x = x \<Longrightarrow> take_bit (n + m) (r XOR push_bit n x) = r XOR push_bit n x"
proof -
  have r: "\<not> bit r k" if "n \<le> k" for k
    using arg_cong [OF assms, of "\<lambda>w. bit w k"] that by (simp add: bit_take_bit_iff)
  show "r OR push_bit n x = r XOR push_bit n x"
    by (rule bit_word_eqI) (auto simp: bit_simps r)
  assume x: "take_bit m x = x"
  have x': "k < m" if "bit x k" for k
    using arg_cong [OF x, of "\<lambda>w. bit w k"] that by (simp add: bit_take_bit_iff)
  have r': "k < n" if "bit r k" for k
    using r [of k] that by (meson not_le)
  show "take_bit (n + m) (r XOR push_bit n x) = r XOR push_bit n x"
  proof (rule bit_word_eqI)
    fix k
    have "bit (r XOR push_bit n x) k \<Longrightarrow> k < n + m"
      using r' [of k] x' [of "k - n"] by (auto simp: bit_simps)
    then show "bit (take_bit (n + m) (r XOR push_bit n x)) k = bit (r XOR push_bit n x) k"
      unfolding bit_take_bit_iff by blast
  qed
qed

lemma take_bit_ucast_byte: "take_bit 8 (ucast (b :: u8) :: u64) = ucast b"
  by (rule bit_word_eqI) (auto simp: bit_simps dest: bit_imp_le_length)

lemma load64_xor: "load64 x = fold (\<lambda>i r. r XOR push_bit (8 * i) (ucast (x ! i))) [0..<8] 0"
proof -
  let ?f = "\<lambda>i (r :: u64). r OR push_bit (8 * i) (ucast (x ! i))"
  let ?g = "\<lambda>i (r :: u64). r XOR push_bit (8 * i) (ucast (x ! i))"
  have "fold ?f [0..<n] 0 = fold ?g [0..<n] 0 \<and> take_bit (8 * n) (fold ?g [0..<n] 0) = fold ?g [0..<n] 0" for n
  proof (induction n)
    case (Suc n)
    then show ?case
      using or_eq_xor_above [where n = "8 * n" and r = "fold ?g [0..<n] 0" and x = "ucast (x ! n)"] take_bit_ucast_byte [of "x ! n"]
      by (simp add: add.commute)
  qed simp
  then show ?thesis by (simp add: load64_def)
qed

lemma xor_lane:
  assumes "length bs = 8" and "i < length s"
  shows "keccak_xor_bytes s (8 * i) bs = s[i := s ! i XOR load64 bs]"
proof -
  obtain b0 b1 b2 b3 b4 b5 b6 b7 where bs: "bs = [b0, b1, b2, b3, b4, b5, b6, b7]"
    using assms(1) by (auto simp: numeral_eq_Suc length_Suc_conv)
  have m: "(8 * i + k) mod 8 = k" "(8 * i + k) div 8 = i" if "k < 8" for k
    using that by simp_all
  have l: "load64 bs = ucast b0 XOR push_bit 8 (ucast b1) XOR push_bit 16 (ucast b2) XOR push_bit 24 (ucast b3)
      XOR push_bit 32 (ucast b4) XOR push_bit 40 (ucast b5) XOR push_bit 48 (ucast b6) XOR push_bit 56 (ucast b7)"
    by (simp add: load64_xor bs upt_rec xor.assoc)
  show ?thesis
    unfolding l using assms(2) m [of 0] m [of 1] m [of 2] m [of 3] m [of 4] m [of 5] m [of 6] m [of 7]
    by (simp add: bs xor_byte_def xor.assoc)
qed

lemma load64_take: "load64 (take 8 x) = load64 x"
  unfolding load64_def by (rule fold_cong) auto

lemma keccak_xor_lanes_bytes:
  assumes "8 * n \<le> length inp" and "n \<le> length s"
  shows "keccak_xor_lanes s (8 * n) inp = keccak_xor_bytes s 0 (take (8 * n) inp)"
proof -
  have "fold (\<lambda>i s. s[i := s ! i XOR load64 (drop (8 * i) inp)]) [0..<n] s = keccak_xor_bytes s 0 (take (8 * n) inp)"
    using assms
  proof (induction n)
    case (Suc n)
    have "take (8 * Suc n) inp = take (8 * n) inp @ take 8 (drop (8 * n) inp)"
      using take_add [of "8 * n" 8 inp] by (simp add: add.commute)
    moreover have "length (take 8 (drop (8 * n) inp)) = 8" using Suc.prems by simp
    ultimately show ?case
      using Suc by (simp add: keccak_xor_bytes_append xor_lane load64_take)
  qed simp
  then show ?thesis by (simp add: keccak_xor_lanes_def)
qed

section \<open>The one-shot absorption\<close>

text \<open>The last block of \<open>keccak_absorb_once\<close>: the rest, the domain byte, zeros, the final bit.\<close>

definition last_block :: "nat \<Rightarrow> bytes \<Rightarrow> u8 \<Rightarrow> bytes" where
  "last_block r inp p =
     (let t = (memcpy_at (replicate r 0) 0 inp)[length inp := p] in t[r - 1 := t ! (r - 1) OR 128])"

lemma or_128_eq_xor: "\<not> bit p 7 \<Longrightarrow> p OR 128 = p XOR (128 :: u8)"
proof -
  assume "\<not> bit p 7"
  then have "p AND 2 ^ 7 = 0" by (simp only: and_exp_eq_0_iff_not_bit not_False_eq_True)
  then have "p AND 128 = 0" by simp
  then show ?thesis
    by (metis disjunctive_add_eq_or disjunctive_add_eq_xor)
qed

lemma last_block_eq:
  assumes len: "length inp < r" and p: "\<not> bit p 7"
  shows "last_block r inp p =
    (if Suc (length inp) = r then inp @ [p XOR 128]
     else inp @ [p] @ replicate (r - 2 - length inp) 0 @ [128])"
proof -
  obtain k where r: "r = Suc (length inp + k)" using len less_imp_Suc_add by blast
  have t: "(memcpy_at (replicate r 0) 0 inp)[length inp := p] = inp @ p # replicate k 0"
  proof -
    have "memcpy_at (replicate r 0) 0 inp = inp @ replicate (Suc k) 0"
      by (simp add: r memcpy_at_def Suc_diff_le del: replicate_Suc)
    then show ?thesis by simp
  qed
  show ?thesis
  proof (cases k)
    case 0
    then show ?thesis unfolding last_block_def Let_def t using p
      by (simp add: r or_128_eq_xor)
  next
    case (Suc k')
    then have "p # replicate k 0 = (p # replicate k' 0) @ [0]"
      by (simp add: replicate_append_same)
    then show ?thesis unfolding last_block_def Let_def t
      by (simp add: r Suc nth_append list_update_append)
  qed
qed

lemma xor_last_bit:
  assumes "8 dvd r" and "0 < r"
  shows "s[r div 8 - 1 := s ! (r div 8 - 1) XOR push_bit 63 1] = xor_byte s (r - 1) 128"
proof -
  obtain k where r: "r = 8 * Suc k" using assms by (metis dvdE gr0_implies_Suc mult_0_right not_gr0)
  have 128: "push_bit 56 (ucast (128 :: u8)) = (push_bit 63 1 :: u64)" by simp
  have "(r - 1) div 8 = k" "(r - 1) mod 8 = 7" "r div 8 - 1 = k" by (simp_all add: r)
  then show ?thesis using 128 by (simp add: xor_byte_def)
qed

lemma keccak_finalize_xor:
  assumes "8 dvd r" and "0 < r"
  shows "keccak_finalize s pos r p = xor_byte (xor_byte s pos p) (r - 1) 128"
  using xor_last_bit [OF assms, of "xor_byte s pos p"] by (simp add: keccak_finalize_def Let_def xor_byte_def)

lemma absorb_last_block:
  assumes "length inp < r" and "\<not> bit p 7" and "8 dvd r" and "r \<le> 8 * length s"
  shows "keccak_xor_bytes s 0 (last_block r inp p) = keccak_finalize (keccak_xor_bytes s 0 inp) (length inp) r p"
proof -
  have r: "0 < r" using assms by simp
  show ?thesis
  proof (cases "Suc (length inp) = r")
    case True
    then have "length inp div 8 < length s" "r - 1 = length inp" using assms by auto
    then show ?thesis using True
      by (simp add: last_block_eq [OF assms(1,2)] keccak_finalize_xor [OF assms(3) r] keccak_xor_bytes_append xor_byte_xor)
  next
    case False
    have "Suc (r - 2) = r - 1" using assms(1) False by arith
    moreover have "Suc (length inp + (r - 2 - length inp)) = r - 1" using assms(1) False by arith
    ultimately show ?thesis using False
      by (simp add: last_block_eq [OF assms(1,2)] keccak_finalize_xor [OF assms(3) r] keccak_xor_bytes_append)
  qed
qed

lemma absorb_once_loop:
  assumes "8 dvd r" and "0 < r" and "r \<le> 8 * length s" and "length s = 25"
  shows "\<exists>s' rest. keccak_absorb_once_loop s r inp = (s', rest) \<and> length rest < r \<and> length s' = 25 \<and>
    keccak_absorb s 0 r inp = (keccak_xor_bytes s' 0 rest, length rest)"
  using assms
proof (induction s r inp rule: keccak_absorb_once_loop.induct)
  case (1 s r inp)
  show ?case
  proof (cases "r \<le> length inp")
    case True
    obtain n where n: "r = 8 * n" using "1.prems"(1) by blast
    have eq: "keccak_xor_lanes s r inp = keccak_xor_bytes s 0 (take r inp)"
      unfolding n by (rule keccak_xor_lanes_bytes) (use True "1.prems" n in auto)
    show ?thesis
      using "1.IH" True "1.prems"
      by (subst keccak_absorb_once_loop.simps, subst keccak_absorb.simps) (simp add: eq)
  next
    case False
    then show ?thesis using "1.prems"
      by (subst keccak_absorb_once_loop.simps, subst keccak_absorb.simps) simp
  qed
qed

lemma keccak_absorb_once_eq:
  assumes "8 dvd r" and "0 < r" and "r \<le> 200" and "\<not> bit p 7"
  shows "keccak_absorb_once r inp p =
    (let (s, pos) = keccak_absorb keccak_init 0 r inp in keccak_finalize s pos r p)"
proof -
  obtain s' rest where l: "keccak_absorb_once_loop (replicate 25 0) r inp = (s', rest)" "length rest < r" "length s' = 25"
    "keccak_absorb (replicate 25 0) 0 r inp = (keccak_xor_bytes s' 0 rest, length rest)"
    using absorb_once_loop [OF assms(1,2), of "replicate 25 0" inp] assms(3) by auto
  have lb: "length (last_block r rest p) = r"
    using l(2) by (simp add: last_block_def Let_def)
  obtain n where n: "r = 8 * n" using assms(1) by blast
  have "keccak_absorb_once r inp p = keccak_xor_lanes s' r (last_block r rest p)"
    by (simp add: keccak_absorb_once_def Let_def l(1) last_block_def)
  also have "\<dots> = keccak_xor_bytes s' 0 (last_block r rest p)"
    unfolding n using keccak_xor_lanes_bytes [of n "last_block r rest p" s'] lb l(3) assms(3) n by simp
  also have "\<dots> = keccak_finalize (keccak_xor_bytes s' 0 rest) (length rest) r p"
    using l(2,3) assms by (intro absorb_last_block) auto
  finally show ?thesis by (simp add: keccak_init_def l(4))
qed

section \<open>Squeezing, byte by byte\<close>

definition squeeze_byte :: "nat \<Rightarrow> u64 list \<times> nat \<Rightarrow> u8 \<times> u64 list \<times> nat" where
  "squeeze_byte r = (\<lambda>(s, pos).
     let (s, pos) = (if pos = r then (KeccakF1600_StatePermute s, 0) else (s, pos))
     in (keccak_byte s pos, s, Suc pos))"

fun squeeze_bytes :: "nat \<Rightarrow> nat \<Rightarrow> u64 list \<times> nat \<Rightarrow> bytes \<times> u64 list \<times> nat" where
  "squeeze_bytes r 0 st = ([], st)"
| "squeeze_bytes r (Suc n) st =
     (let (b, st) = squeeze_byte r st; (out, st) = squeeze_bytes r n st in (b # out, st))"

lemma squeeze_bytes_add:
  "squeeze_bytes r (m + n) st =
   (let (out, st) = squeeze_bytes r m st; (out', st) = squeeze_bytes r n st in (out @ out', st))"
  by (induction m arbitrary: st) (simp_all add: Let_def split: prod.splits)

lemma length_squeeze_bytes: "squeeze_bytes r n st = (out, st') \<Longrightarrow> length out = n"
  by (induction n arbitrary: st out) (auto simp: Let_def split: prod.splits)

lemma length_squeeze_fst: "length (fst (squeeze_bytes r n st)) = n"
  by (cases "squeeze_bytes r n st") (simp add: length_squeeze_bytes)

lemma squeeze_block:
  "pos + k \<le> r \<Longrightarrow> squeeze_bytes r k (s, pos) = (map (keccak_byte s) [pos..<pos + k], s, pos + k)"
proof (induction k arbitrary: pos)
  case (Suc k)
  then have "squeeze_bytes r k (s, Suc pos) = (map (keccak_byte s) [Suc pos..<Suc pos + k], s, Suc pos + k)"
    by simp
  moreover have "[pos..<pos + Suc k] = pos # [Suc pos..<Suc pos + k]"
    by (simp add: upt_conv_Cons)
  ultimately show ?case using Suc.prems by (simp add: squeeze_byte_def)
qed simp

lemma squeeze_at_end:
  "0 < n \<Longrightarrow> 0 < r \<Longrightarrow> squeeze_bytes r n (s, r) = squeeze_bytes r n (KeccakF1600_StatePermute s, 0)"
  by (cases n) (simp_all add: squeeze_byte_def)

lemma keccak_squeeze_bytes:
  "0 < r \<Longrightarrow> pos \<le> r \<Longrightarrow> keccak_squeeze n s pos r = squeeze_bytes r n (s, pos)"
proof (induction n s pos r rule: keccak_squeeze.induct)
  case (1 n s pos r)
  show ?case
  proof (cases "n = 0")
    case True
    then show ?thesis by (subst keccak_squeeze.simps) simp
  next
    case False
    define s1 pos1 where "s1 = (if pos = r then KeccakF1600_StatePermute s else s)" and "pos1 = (if pos = r then 0 else pos)"
    define k where "k = min r (pos1 + n) - pos1"
    have pos1: "pos1 < r" using "1.prems" by (auto simp: pos1_def)
    then have k: "min r (pos1 + n) = pos1 + k" "pos1 + k \<le> r" "k \<le> n" by (auto simp: k_def)
    have st: "(if pos = r then (KeccakF1600_StatePermute s, 0) else (s, pos)) = (s1, pos1)"
      by (simp add: s1_def pos1_def)
    have IH: "keccak_squeeze (n - k) s1 (pos1 + k) r = squeeze_bytes r (n - k) (s1, pos1 + k)"
      using "1.IH" [OF _ st [symmetric] refl refl] False "1.prems" k by simp
    have "squeeze_bytes r n (s, pos) = squeeze_bytes r n (s1, pos1)"
      using False "1.prems" by (simp add: s1_def pos1_def squeeze_at_end)
    also have "\<dots> = squeeze_bytes r (k + (n - k)) (s1, pos1)" using k by simp
    also have "\<dots> = (let (out, st) = squeeze_bytes r (n - k) (s1, pos1 + k)
        in (map (keccak_byte s1) [pos1..<pos1 + k] @ out, st))"
      unfolding squeeze_bytes_add using k by (simp add: squeeze_block)
    finally show ?thesis
      using False "1.prems" k IH
      by (subst keccak_squeeze.simps) (simp add: st split: prod.splits)
  qed
qed

lemma store64_bytes: "store64 u = map (\<lambda>j. ucast (drop_bit (8 * j) u)) [0..<8]"
proof -
  have "fold (\<lambda>i (x, u). (x @ [ucast u], drop_bit 8 u)) [0..<n] ([], u) =
      (map (\<lambda>j. ucast (drop_bit (8 * j) u) :: u8) [0..<n], drop_bit (8 * n) u)" for n
    by (induction n) (simp_all add: add.commute)
  then show ?thesis by (simp add: store64_def)
qed

lemma concat_store64: "concat (map (\<lambda>i. store64 (s ! i)) [0..<n]) = map (keccak_byte s) [0..<8 * n]"
proof (induction n)
  case (Suc n)
  have "[0..<8 * Suc n] = [0..<8 * n] @ map (\<lambda>j. 8 * n + j) [0..<8]"
    using upt_add_eq_append [of 0 "8 * n" 8] map_add_upt [of "8 * n" 8] by (simp add: add.commute)
  moreover have "map (keccak_byte s) (map (\<lambda>j. 8 * n + j) [0..<8]) = store64 (s ! n)"
    by (simp add: store64_bytes keccak_byte_def)
  ultimately show ?case using Suc by simp
qed simp

lemma keccak_squeezeblocks_bytes:
  assumes "8 dvd r" and "0 < r"
  shows "keccak_squeezeblocks n s r = (out, s') \<Longrightarrow> squeeze_bytes r (n * r) (s, r) = (out, s', r)"
proof (induction n arbitrary: s out)
  case (Suc n)
  let ?s = "KeccakF1600_StatePermute s"
  obtain out' where rec: "keccak_squeezeblocks n ?s r = (out', s')"
    and out: "out = concat (map (\<lambda>i. store64 (?s ! i)) [0..<drop_bit 3 r]) @ out'"
    using Suc.prems by (auto simp: Let_def split: prod.splits)
  obtain k where r: "r = 8 * k" using assms(1) by blast
  have d: "drop_bit 3 r = k" by (simp add: r drop_bit_eq_div)
  have "squeeze_bytes r (r + n * r) (s, r) = squeeze_bytes r (r + n * r) (?s, 0)"
    using assms(2) by (simp add: squeeze_at_end)
  also have "\<dots> = (map (keccak_byte ?s) [0..<r] @ out', s', r)"
    unfolding squeeze_bytes_add using Suc.IH [OF rec] by (simp add: squeeze_block)
  finally show ?case by (simp add: out d concat_store64 flip: r)
qed simp

section \<open>The interface\<close>

lemma rates: "8 dvd SHAKE128_RATE" "8 dvd SHAKE256_RATE" "0 < SHAKE128_RATE" "0 < SHAKE256_RATE"
    "SHAKE128_RATE \<le> 200" "SHAKE256_RATE \<le> 200"
  by (simp_all add: rate_defs)

text \<open>The output stream of a sponge with rate \<open>r\<close> and domain byte \<open>p\<close>.\<close>

definition xof :: "nat \<Rightarrow> u8 \<Rightarrow> nat \<Rightarrow> bytes \<Rightarrow> bytes" where
  "xof r p n m =
     (let (s, pos) = fold (absorb_byte r) m (keccak_init, 0)
      in fst (squeeze_bytes r n (keccak_finalize s pos r p, r)))"

lemma absorb_once_xof:
  assumes "8 dvd r" and "0 < r" and "r \<le> 200" and "\<not> bit p 7"
  shows "xof r p n m = fst (squeeze_bytes r n (keccak_absorb_once r m p, r))"
  using assms by (simp add: xof_def keccak_absorb_once_eq keccak_absorb_bytes split: prod.splits)

lemma length_xof [simp]: "length (xof r p n m) = n"
  by (simp add: xof_def length_squeeze_fst split: prod.splits)

lemma xof_prefix: "n \<le> n' \<Longrightarrow> xof r p n m = take n (xof r p n' m)"
proof -
  assume n: "n \<le> n'"
  have "fst (squeeze_bytes r n st) = take n (fst (squeeze_bytes r n' st))" for st
  proof -
    obtain out st' where s: "squeeze_bytes r n st = (out, st')" by (metis surj_pair)
    then have "length out = n" by (rule length_squeeze_bytes)
    then show ?thesis
      using squeeze_bytes_add [of r n "n' - n" st] n s by (simp split: prod.splits)
  qed
  then show ?thesis unfolding xof_def by (simp split: prod.splits)
qed

lemma shake_one_shot:
  assumes r: "8 dvd r" "0 < r" "r \<le> 200" and blocks: "keccak_squeezeblocks (n div r) s r = (out, s')"
    and sq: "keccak_squeeze (n - n div r * r) s' r r = (out', st)" and s: "s = keccak_absorb_once r m 0x1F"
  shows "out @ out' = xof r 0x1F n m"
proof -
  have "\<not> bit (0x1F :: u8) 7" by simp
  from absorb_once_xof [OF r this] have "xof r 0x1F n m = fst (squeeze_bytes r (n div r * r + (n - n div r * r)) (s, r))"
    by (simp add: s)
  then show ?thesis
    unfolding squeeze_bytes_add keccak_squeezeblocks_bytes [OF r(1,2) blocks]
    using sq keccak_squeeze_bytes [OF r(2)] by simp
qed

lemma shake128_xof: "shake128 n m = xof SHAKE128_RATE 0x1F n m"
  using shake_one_shot [OF rates(1,3,5)]
  by (simp add: shake128_def shake128_absorb_once_def shake128_squeezeblocks_def shake128_squeeze_def Let_def
      split: prod.splits)

lemma shake256_xof: "shake256 n m = xof SHAKE256_RATE 0x1F n m"
  using shake_one_shot [OF rates(2,4,6)]
  by (simp add: shake256_def shake256_absorb_once_def shake256_squeezeblocks_def shake256_squeeze_def Let_def
      split: prod.splits)

lemma length_shake256 [simp]: "length (shake256 n m) = n"
  by (simp add: shake256_xof)

lemma length_shake128 [simp]: "length (shake128 n m) = n"
  by (simp add: shake128_xof)

section \<open>The incremental interfaces\<close>

text \<open>Both interfaces, fed with any chunks and read in any portions, produce the one-shot stream.\<close>

lemma shake256_absorb_chunks:
  assumes "kpos st < SHAKE256_RATE"
  shows "(case fold (\<lambda>c st. shake256_absorb st c) cs st of st' \<Rightarrow> (kst st', kpos st')) =
    fold (absorb_byte SHAKE256_RATE) (concat cs) (kst st, kpos st)"
  using assms
proof (induction cs arbitrary: st)
  case (Cons c cs)
  obtain s pos where f: "fold (absorb_byte SHAKE256_RATE) c (kst st, kpos st) = (s, pos)" by fastforce
  have "pos < SHAKE256_RATE" using snd_absorb [OF rates(4), of "(kst st, kpos st)" c] Cons.prems f by simp
  then show ?case using Cons f by (simp add: shake256_absorb_def keccak_absorb_bytes)
qed simp

fun shake256_squeezes :: "nat list \<Rightarrow> keccak_state \<Rightarrow> bytes" where
  "shake256_squeezes [] st = []"
| "shake256_squeezes (n # ns) st = (let (out, st) = shake256_squeeze n st in out @ shake256_squeezes ns st)"

lemma squeeze_pos_le: "0 < r \<Longrightarrow> snd st \<le> r \<Longrightarrow> squeeze_bytes r n st = (out, s, pos) \<Longrightarrow> pos \<le> r"
proof (induction n arbitrary: st out)
  case (Suc n)
  obtain s0 p0 where st: "st = (s0, p0)" by fastforce
  obtain b s1 p1 where b: "squeeze_byte r st = (b, s1, p1)" by (metis prod_cases3)
  then have "p1 \<le> r" using Suc.prems(1,2) by (auto simp: squeeze_byte_def st split: if_splits)
  moreover obtain out' where "squeeze_bytes r n (s1, p1) = (out', s, pos)"
    using Suc.prems(3) b by (auto split: prod.splits)
  ultimately show ?case using Suc.IH [of "(s1, p1)"] Suc.prems(1) by simp
qed simp

lemma shake256_squeezes_bytes:
  "kpos st \<le> SHAKE256_RATE \<Longrightarrow>
   shake256_squeezes ns st = fst (squeeze_bytes SHAKE256_RATE (sum_list ns) (kst st, kpos st))"
proof (induction ns arbitrary: st)
  case (Cons n ns)
  obtain out s pos where sq: "squeeze_bytes SHAKE256_RATE n (kst st, kpos st) = (out, s, pos)"
    by (metis prod_cases3)
  have "pos \<le> SHAKE256_RATE" using squeeze_pos_le [OF rates(4) _ sq] Cons.prems by simp
  then show ?case
    using Cons sq
    by (simp add: shake256_squeeze_def keccak_squeeze_bytes [OF rates(4)] squeeze_bytes_add split: prod.splits)
qed simp

lemma shake256_incremental:
  "shake256_squeezes ns (shake256_finalize (fold (\<lambda>c st. shake256_absorb st c) cs shake256_init)) =
   shake256 (sum_list ns) (concat cs)"
proof -
  let ?st = "fold (\<lambda>c st. shake256_absorb st c) cs shake256_init"
  have "(kst ?st, kpos ?st) = fold (absorb_byte SHAKE256_RATE) (concat cs) (keccak_init, 0)"
    using shake256_absorb_chunks [of shake256_init cs] rates by (simp add: shake256_init_def)
  then show ?thesis
    by (simp add: shake256_squeezes_bytes shake256_finalize_def shake256_xof xof_def flip: \<open>(kst ?st, kpos ?st) = _\<close>)
qed

lemma keccak_inc_squeeze_loop_bytes:
  assumes "0 < r" and "n = 0 \<or> inc_cnt st = 0" and "inc_cnt st \<le> r"
    and "squeeze_bytes r n (inc_s st, r - inc_cnt st) = (out, s', pos')"
  shows "keccak_inc_squeeze_loop n st r = (out, \<lparr>inc_s = s', inc_cnt = r - pos'\<rparr>)"
  using assms
proof (induction n st r arbitrary: out rule: keccak_inc_squeeze_loop.induct)
  case (1 n st r)
  show ?case
  proof (cases "n = 0")
    case True
    then show ?thesis using "1.prems" by (subst keccak_inc_squeeze_loop.simps) (cases st, auto)
  next
    case False
    let ?s = "KeccakF1600_StatePermute (inc_s st)" and ?k = "min n r"
    let ?st = "\<lparr>inc_s = ?s, inc_cnt = r - ?k\<rparr>"
    obtain out' where out': "squeeze_bytes r (n - ?k) (?s, ?k) = (out', s', pos')"
      and out: "out = map (keccak_byte ?s) [0..<?k] @ out'"
    proof -
      have "squeeze_bytes r n (inc_s st, r) = squeeze_bytes r (?k + (n - ?k)) (?s, 0)"
        using squeeze_at_end [of n r "inc_s st"] False "1.prems"(1) by simp
      also have "\<dots> = (let (out, st) = squeeze_bytes r (n - ?k) (?s, ?k) in (map (keccak_byte ?s) [0..<?k] @ out, st))"
        unfolding squeeze_bytes_add by (simp add: squeeze_block)
      finally show thesis using that "1.prems"(2,4) False by (auto split: prod.splits)
    qed
    have "keccak_inc_squeeze_loop (n - ?k) ?st r = (out', \<lparr>inc_s = s', inc_cnt = r - pos'\<rparr>)"
    proof (rule "1.IH")
      show "0 < n \<and> 0 < r" using False "1.prems" by simp
      show "n - ?k = 0 \<or> inc_cnt ?st = 0" by (auto simp: min_def)
      show "squeeze_bytes r (n - ?k) (inc_s ?st, r - inc_cnt ?st) = (out', s', pos')" using out' by simp
    qed (use "1.prems" in simp_all)
    then show ?thesis using False "1.prems"(1) out
      by (subst keccak_inc_squeeze_loop.simps) (simp add: Let_def)
  qed
qed

lemma keccak_inc_squeeze_bytes:
  assumes "0 < r" and "inc_cnt st \<le> r"
    and "squeeze_bytes r n (inc_s st, r - inc_cnt st) = (out, s', pos')"
  shows "keccak_inc_squeeze n st r = (out, \<lparr>inc_s = s', inc_cnt = r - pos'\<rparr>)"
proof -
  let ?i = "min n (inc_cnt st)" and ?p = "r - inc_cnt st"
  let ?st = "st\<lparr>inc_cnt := inc_cnt st - ?i\<rparr>"
  have first: "squeeze_bytes r ?i (inc_s st, ?p) = (map (keccak_byte (inc_s st)) [?p..<?p + ?i], inc_s st, ?p + ?i)"
    using assms(2) by (intro squeeze_block) auto
  have "squeeze_bytes r (?i + (n - ?i)) (inc_s st, ?p) = (out, s', pos')" using assms(3) by simp
  then obtain out' where out: "out = map (keccak_byte (inc_s st)) [?p..<?p + ?i] @ out'"
    and rest: "squeeze_bytes r (n - ?i) (inc_s st, ?p + ?i) = (out', s', pos')"
    unfolding squeeze_bytes_add first by (auto split: prod.splits)
  have "keccak_inc_squeeze_loop (n - ?i) ?st r = (out', \<lparr>inc_s = s', inc_cnt = r - pos'\<rparr>)"
    by (rule keccak_inc_squeeze_loop_bytes) (use assms rest in \<open>auto simp: min_def diff_diff_eq2\<close>)
  moreover have "map (\<lambda>j. keccak_byte (inc_s st) (?p + j)) [0..<?i] = map (keccak_byte (inc_s st)) [?p..<?p + ?i]"
    using arg_cong [OF map_add_upt [of ?p ?i], of "map (keccak_byte (inc_s st))"]
    by (simp add: comp_def add.commute)
  ultimately show ?thesis by (simp add: keccak_inc_squeeze_def Let_def out)
qed

lemma shake256_inc_absorb_chunks:
  assumes "inc_cnt st < SHAKE256_RATE"
  shows "(case fold (\<lambda>c st. shake256_inc_absorb st c) cs st of st' \<Rightarrow> (inc_s st', inc_cnt st')) =
    fold (absorb_byte SHAKE256_RATE) (concat cs) (inc_s st, inc_cnt st)"
  using assms
proof (induction cs arbitrary: st)
  case (Cons c cs)
  obtain s pos where f: "fold (absorb_byte SHAKE256_RATE) c (inc_s st, inc_cnt st) = (s, pos)" by fastforce
  have "pos < SHAKE256_RATE" using snd_absorb [OF rates(4), of "(inc_s st, inc_cnt st)" c] Cons.prems f by simp
  then show ?case using Cons f by (simp add: shake256_inc_absorb_def keccak_inc_absorb_eq keccak_absorb_bytes)
qed simp

fun shake256_inc_squeezes :: "nat list \<Rightarrow> keccak_inc \<Rightarrow> bytes" where
  "shake256_inc_squeezes [] st = []"
| "shake256_inc_squeezes (n # ns) st =
     (let (out, st) = shake256_inc_squeeze n st in out @ shake256_inc_squeezes ns st)"

lemma shake256_inc_squeezes_bytes:
  "inc_cnt st \<le> SHAKE256_RATE \<Longrightarrow>
   shake256_inc_squeezes ns st =
   fst (squeeze_bytes SHAKE256_RATE (sum_list ns) (inc_s st, SHAKE256_RATE - inc_cnt st))"
proof (induction ns arbitrary: st)
  case (Cons n ns)
  obtain out s pos where sq: "squeeze_bytes SHAKE256_RATE n (inc_s st, SHAKE256_RATE - inc_cnt st) = (out, s, pos)"
    by (metis prod_cases3)
  have "pos \<le> SHAKE256_RATE" using squeeze_pos_le [OF rates(4) _ sq] by simp
  then show ?case
    using Cons sq keccak_inc_squeeze_bytes [OF rates(4) Cons.prems sq]
    by (simp add: shake256_inc_squeeze_def squeeze_bytes_add split: prod.splits)
qed simp

lemma keccak_inc_finalize_eq:
  assumes "8 dvd r" and "0 < r"
  shows "keccak_inc_finalize st r p = \<lparr>inc_s = keccak_finalize (inc_s st) (inc_cnt st) r p, inc_cnt = 0\<rparr>"
  using assms by (simp add: keccak_inc_finalize_def Let_def keccak_finalize_xor xor_byte_def)

lemma shake256_inc_incremental:
  "shake256_inc_squeezes ns (shake256_inc_finalize (fold (\<lambda>c st. shake256_inc_absorb st c) cs shake256_inc_init)) =
   shake256 (sum_list ns) (concat cs)"
proof -
  let ?st = "fold (\<lambda>c st. shake256_inc_absorb st c) cs shake256_inc_init"
  have "(inc_s ?st, inc_cnt ?st) = fold (absorb_byte SHAKE256_RATE) (concat cs) (keccak_init, 0)"
    using shake256_inc_absorb_chunks [of shake256_inc_init cs] rates
    by (simp add: shake256_inc_init_def keccak_inc_init_def keccak_init_def)
  then show ?thesis
    by (simp add: shake256_inc_squeezes_bytes shake256_inc_finalize_def keccak_inc_finalize_eq rates
        shake256_xof xof_def flip: \<open>(inc_s ?st, inc_cnt ?st) = _\<close>)
qed

lemma shake256_inc_squeeze_length:
  assumes "inc_cnt st \<le> SHAKE256_RATE"
  shows "length (fst (shake256_inc_squeeze n st)) = n"
proof -
  obtain out s pos where sq: "squeeze_bytes SHAKE256_RATE n (inc_s st, SHAKE256_RATE - inc_cnt st) = (out, s, pos)"
    by (metis prod_cases3)
  then show ?thesis
    using keccak_inc_squeeze_bytes [OF rates(4) assms sq] length_squeeze_bytes [OF sq]
    by (simp add: shake256_inc_squeeze_def)
qed

lemma sha3_lengths [simp]:
  "length (sha3_128 m) = 16" "length (sha3_256 m) = 32" "length (sha3_384 m) = 48"
  "length (sha3_512 m) = 64" "length (sha3_1024 m) = 128"
  by (simp_all add: sha3_128_def sha3_256_def sha3_384_def sha3_512_def sha3_1024_def Let_def split: prod.splits)

text \<open>SHA3 is the prefix of the stream of a sponge with domain byte \<open>0x06\<close>.\<close>

lemma sha3_one_shot:
  assumes r: "8 dvd r" "0 < r" "r \<le> 200" and blocks: "keccak_squeezeblocks n (keccak_absorb_once r m 6) r = (t, s')"
    and k: "k \<le> n * r"
  shows "map (\<lambda>i. t ! i) [0..<k] = xof r 6 k m"
proof -
  have "\<not> bit (6 :: u8) 7" by simp
  from absorb_once_xof [OF r this] keccak_squeezeblocks_bytes [OF r(1,2) blocks]
  have t: "t = xof r 6 (n * r) m" by simp
  have "map (\<lambda>i. t ! i) [0..<k] = take k t"
    using k by (intro nth_equalityI) (simp_all add: t)
  then show ?thesis using xof_prefix [OF k, of r 6 m] by (simp add: t)
qed

lemma sha3_xof:
  "sha3_256 m = xof SHA3_256_RATE 6 32 m" "sha3_512 m = xof SHA3_512_RATE 6 64 m"
  "sha3_384 m = xof SHA3_384_RATE 6 48 m" "sha3_128 m = xof SHA3_128_RATE 6 16 m"
  "sha3_1024 m = xof SHA3_512_RATE 6 128 m"
  by (simp_all add: sha3_128_def sha3_256_def sha3_384_def sha3_512_def sha3_1024_def Let_def
      sha3_one_shot [where n = 1] sha3_one_shot [where n = 2] rate_defs del: keccak_squeezeblocks.simps split: prod.splits)

end
