(* ===== verification/SLH_Shake.thy ===== *)
theory SLH_Shake
  imports SLH_Sign Keccak_Sponge
begin

text \<open>
  The SHAKE256 instance of the hash functions of SLH-DSA (\<open>pqmagic/sig/slh_dsa/std/hash_shake.c\<close>,
  \<open>thash_shake_simple.c\<close>, \<open>thash_shake_robust.c\<close>), and the interpretation of the interface of
  \<open>SLH_Interface\<close> by it: all facts about the scheme hold for the SHAKE parameter sets.
\<close>

section \<open>The code\<close>

definition shake_initialize_hash_function :: "spx_ctx \<Rightarrow> spx_ctx" where
  "shake_initialize_hash_function ctx = ctx"

definition shake_prf_addr :: "spx_params \<Rightarrow> spx_ctx \<Rightarrow> bytes \<Rightarrow> bytes" where
  "shake_prf_addr p ctx addr =
     (let buf = take (SPX_N p) (pub_seed ctx) @ take SPX_ADDR_BYTES addr @ take (SPX_N p) (sk_seed ctx)
      in shake256 (SPX_N p) buf)"

definition shake_gen_message_random ::
  "spx_params \<Rightarrow> bytes \<Rightarrow> bytes \<Rightarrow> bytes \<Rightarrow> spx_ctx \<Rightarrow> bytes" where
  "shake_gen_message_random p sk_prf optrand m ctx =
     (let s_inc = shake256_inc_init;
          s_inc = shake256_inc_absorb s_inc (take (SPX_N p) sk_prf);
          s_inc = shake256_inc_absorb s_inc (take (SPX_N p) optrand);
          s_inc = shake256_inc_absorb s_inc m;
          s_inc = shake256_inc_finalize s_inc;
          (R, s_inc) = shake256_inc_squeeze (SPX_N p) s_inc
      in R)"

definition SPX_TREE_BITS :: "spx_params \<Rightarrow> nat" where
  "SPX_TREE_BITS p = SPX_TREE_HEIGHT p * (SPX_D p - 1)"

definition SPX_TREE_BYTES :: "spx_params \<Rightarrow> nat" where
  "SPX_TREE_BYTES p = (SPX_TREE_BITS p + 7) div 8"

definition SPX_LEAF_BITS :: "spx_params \<Rightarrow> nat" where
  "SPX_LEAF_BITS p = SPX_TREE_HEIGHT p"

definition SPX_LEAF_BYTES :: "spx_params \<Rightarrow> nat" where
  "SPX_LEAF_BYTES p = (SPX_LEAF_BITS p + 7) div 8"

definition SPX_DGST_BYTES :: "spx_params \<Rightarrow> nat" where
  "SPX_DGST_BYTES p = SPX_FORS_MSG_BYTES p + SPX_TREE_BYTES p + SPX_LEAF_BYTES p"

text \<open>The split of the digest, the same in every \<open>hash_*.c\<close>.\<close>

definition split_digest :: "spx_params \<Rightarrow> bytes \<Rightarrow> bytes \<times> u64 \<times> u32" where
  "split_digest p buf =
     (let digest = take (SPX_FORS_MSG_BYTES p) buf;
          bufp = drop (SPX_FORS_MSG_BYTES p) buf;
          tree = (if SPX_D p = 1 then 0
                  else bytes_to_ull bufp (SPX_TREE_BYTES p) AND drop_bit (64 - SPX_TREE_BITS p) (NOT 0));
          bufp = drop (SPX_TREE_BYTES p) bufp;
          leaf_idx = ucast (bytes_to_ull bufp (SPX_LEAF_BYTES p));
          leaf_idx = leaf_idx AND drop_bit (32 - SPX_LEAF_BITS p) (NOT 0)
      in (digest, tree, leaf_idx))"

definition shake_hash_message ::
  "spx_params \<Rightarrow> bytes \<Rightarrow> bytes \<Rightarrow> bytes \<Rightarrow> spx_ctx \<Rightarrow> bytes \<times> u64 \<times> u32" where
  "shake_hash_message p R pk m ctx =
     (let s_inc = shake256_inc_init;
          s_inc = shake256_inc_absorb s_inc (take (SPX_N p) R);
          s_inc = shake256_inc_absorb s_inc (take (SPX_PK_BYTES p) pk);
          s_inc = shake256_inc_absorb s_inc m;
          s_inc = shake256_inc_finalize s_inc;
          (buf, s_inc) = shake256_inc_squeeze (SPX_DGST_BYTES p) s_inc
      in split_digest p buf)"

definition shake_thash_simple :: "spx_params \<Rightarrow> bytes \<Rightarrow> nat \<Rightarrow> spx_ctx \<Rightarrow> bytes \<Rightarrow> bytes" where
  "shake_thash_simple p inp inblocks ctx addr =
     (let buf = take (SPX_N p) (pub_seed ctx) @ take SPX_ADDR_BYTES addr @ take (inblocks * SPX_N p) inp
      in shake256 (SPX_N p) buf)"

definition shake_thash_robust :: "spx_params \<Rightarrow> bytes \<Rightarrow> nat \<Rightarrow> spx_ctx \<Rightarrow> bytes \<Rightarrow> bytes" where
  "shake_thash_robust p inp inblocks ctx addr =
     (let buf = take (SPX_N p) (pub_seed ctx) @ take SPX_ADDR_BYTES addr;
          bitmask = shake256 (inblocks * SPX_N p) buf;
          buf = buf @ map (\<lambda>i. inp ! i XOR bitmask ! i) [0..<inblocks * SPX_N p]
      in shake256 (SPX_N p) buf)"

definition shake_hash :: "spx_params \<Rightarrow> spx_hash" where
  "shake_hash p =
     \<lparr>initialize_hash_function = shake_initialize_hash_function, prf_addr = shake_prf_addr p,
      gen_message_random = shake_gen_message_random p, hash_message = shake_hash_message p,
      thash = shake_thash_simple p\<rparr>"

definition shake_robust_hash :: "spx_params \<Rightarrow> spx_hash" where
  "shake_robust_hash p = (shake_hash p)\<lparr>thash := shake_thash_robust p\<rparr>"

section \<open>The interface\<close>

lemma unat_and_drop_mask64: "n \<le> 64 \<Longrightarrow> unat (w AND drop_bit (64 - n) (NOT 0) :: u64) < 2 ^ n"
proof -
  assume n: "n \<le> 64"
  have "drop_bit (64 - n) (NOT 0 :: u64) = mask n"
    by (rule bit_word_eqI) (use n in \<open>auto simp: bit_simps\<close>)
  then have "unat (w AND drop_bit (64 - n) (NOT 0)) = take_bit n (unat w)"
    by (simp add: unsigned_take_bit_eq flip: take_bit_eq_mask)
  then show ?thesis using n by (simp add: min_def)
qed

lemma unat_and_drop_mask32: "n \<le> 32 \<Longrightarrow> unat (w AND drop_bit (32 - n) (NOT 0) :: u32) < 2 ^ n"
proof -
  assume n: "n \<le> 32"
  have "drop_bit (32 - n) (NOT 0 :: u32) = mask n"
    by (rule bit_word_eqI) (use n in \<open>auto simp: bit_simps\<close>)
  then have "unat (w AND drop_bit (32 - n) (NOT 0)) = take_bit n (unat w)"
    by (simp add: unsigned_take_bit_eq flip: take_bit_eq_mask)
  then show ?thesis using n by (simp add: min_def)
qed

lemma split_digest_range:
  assumes p: "wf_params p" and len: "length buf = SPX_DGST_BYTES p" and eq: "split_digest p buf = (mhash, tree, idx)"
  shows "length mhash = SPX_FORS_MSG_BYTES p" and "unat tree < 2 ^ (SPX_TREE_HEIGHT p * (SPX_D p - 1))"
    and "unat idx < 2 ^ SPX_TREE_HEIGHT p"
proof -
  show "length mhash = SPX_FORS_MSG_BYTES p"
    using len eq by (auto simp: split_digest_def Let_def SPX_DGST_BYTES_def)
  have b: "SPX_TREE_HEIGHT p * (SPX_D p - 1) \<le> 64" "SPX_TREE_HEIGHT p \<le> 32"
    using p by (auto simp: wf_params_def)
  show "unat tree < 2 ^ (SPX_TREE_HEIGHT p * (SPX_D p - 1))"
    using eq b unat_and_drop_mask64 [of "SPX_TREE_BITS p"]
    by (auto simp: split_digest_def Let_def SPX_TREE_BITS_def split: if_splits)
  show "unat idx < 2 ^ SPX_TREE_HEIGHT p"
    using eq b unat_and_drop_mask32 [of "SPX_LEAF_BITS p"]
    by (auto simp: split_digest_def Let_def SPX_LEAF_BITS_def)
qed

lemma inc_cnt_finalize: "inc_cnt (shake256_inc_finalize st) = 0"
  by (simp add: shake256_inc_finalize_def keccak_inc_finalize_def Let_def)

lemma shake_thash_laws:
  assumes "wf_params p"
  shows "spx_thash p (shake_hash p)" and "spx_thash p (shake_robust_hash p)"
  using assms
  by (unfold_locales; simp add: shake_hash_def shake_robust_hash_def shake_thash_simple_def
      shake_thash_robust_def shake_prf_addr_def Let_def)+

lemma shake_hash_message_split:
  obtains buf where "length buf = SPX_DGST_BYTES p" and "shake_hash_message p R pk m c = split_digest p buf"
proof -
  let ?st = "shake256_inc_finalize (shake256_inc_absorb (shake256_inc_absorb (shake256_inc_absorb shake256_inc_init
    (take (SPX_N p) R)) (take (SPX_PK_BYTES p) pk)) m)"
  have "length (fst (shake256_inc_squeeze (SPX_DGST_BYTES p) ?st)) = SPX_DGST_BYTES p"
    by (rule shake256_inc_squeeze_length) (simp add: inc_cnt_finalize)
  then show thesis
    by (rule that) (simp only: shake_hash_message_def Let_def case_prod_beta)
qed

lemma shake_hash_message_range:
  assumes p: "wf_params p" and h: "shake_hash_message p R pk m c = (mhash, tree, idx)"
  shows "length mhash = SPX_FORS_MSG_BYTES p \<and> unat tree < 2 ^ (SPX_TREE_HEIGHT p * (SPX_D p - 1)) \<and>
    unat idx < 2 ^ SPX_TREE_HEIGHT p"
proof -
  obtain buf where buf: "length buf = SPX_DGST_BYTES p" "shake_hash_message p R pk m c = split_digest p buf"
    by (rule shake_hash_message_split)
  with h have "split_digest p buf = (mhash, tree, idx)" by simp
  with split_digest_range [OF p buf(1)] show ?thesis by blast
qed

lemma length_shake_gen_message_random: "length (shake_gen_message_random p sk_prf optrand m c) = SPX_N p"
  unfolding shake_gen_message_random_def Let_def case_prod_beta
  by (rule shake256_inc_squeeze_length) (simp add: inc_cnt_finalize)

lemma shake_hash_message_ctx: "shake_hash_message p R pk m c = shake_hash_message p R pk m c'"
  by (simp only: shake_hash_message_def)

lemma shake_hash_laws:
  assumes p: "wf_params p"
  shows "spx_hash_laws p (shake_hash p)" and "spx_hash_laws p (shake_robust_hash p)"
proof -
  show "spx_hash_laws p (shake_hash p)"
  proof (intro spx_hash_laws.intro spx_hash_laws_axioms.intro shake_thash_laws [OF p])
    fix R pk m c c'
    show "hash_message (shake_hash p) R pk m (initialize_hash_function (shake_hash p) c) =
        hash_message (shake_hash p) R pk m (initialize_hash_function (shake_hash p) c')"
      using shake_hash_message_ctx by (simp add: shake_hash_def)
  qed (use shake_hash_message_range [OF p] in \<open>simp_all add: shake_hash_def shake_thash_simple_def
      shake_prf_addr_def shake_initialize_hash_function_def length_shake_gen_message_random\<close>)
  show "spx_hash_laws p (shake_robust_hash p)"
  proof (intro spx_hash_laws.intro spx_hash_laws_axioms.intro shake_thash_laws [OF p])
    fix R pk m c c'
    show "hash_message (shake_robust_hash p) R pk m (initialize_hash_function (shake_robust_hash p) c) =
        hash_message (shake_robust_hash p) R pk m (initialize_hash_function (shake_robust_hash p) c')"
      using shake_hash_message_ctx by (simp add: shake_robust_hash_def shake_hash_def)
  qed (use shake_hash_message_range [OF p] in \<open>simp_all add: shake_robust_hash_def shake_hash_def
      shake_thash_robust_def shake_prf_addr_def shake_initialize_hash_function_def length_shake_gen_message_random\<close>)
qed

text \<open>The parameter sets are well-formed.\<close>

lemma wf_shake_params [simp]:
  "wf_params slh_dsa_shake_128f" "wf_params slh_dsa_shake_128s" "wf_params slh_dsa_shake_192f"
  "wf_params slh_dsa_shake_192s" "wf_params slh_dsa_shake_256f" "wf_params slh_dsa_shake_256s"
  by (simp_all add: wf_params_def wf_offsets_def SPX_ADDR_BYTES_def SPX_TREE_HEIGHT_def shake_params_def
      slh_dsa_shake_128f_def slh_dsa_shake_128s_def slh_dsa_shake_192f_def slh_dsa_shake_192s_def
      slh_dsa_shake_256f_def slh_dsa_shake_256s_def)

interpretation shake_128f: spx_hash_laws slh_dsa_shake_128f "shake_hash slh_dsa_shake_128f"
  by (rule shake_hash_laws) simp

interpretation shake_128s: spx_hash_laws slh_dsa_shake_128s "shake_hash slh_dsa_shake_128s"
  by (rule shake_hash_laws) simp

interpretation shake_192f: spx_hash_laws slh_dsa_shake_192f "shake_hash slh_dsa_shake_192f"
  by (rule shake_hash_laws) simp

interpretation shake_192s: spx_hash_laws slh_dsa_shake_192s "shake_hash slh_dsa_shake_192s"
  by (rule shake_hash_laws) simp

interpretation shake_256f: spx_hash_laws slh_dsa_shake_256f "shake_hash slh_dsa_shake_256f"
  by (rule shake_hash_laws) simp

interpretation shake_256s: spx_hash_laws slh_dsa_shake_256s "shake_hash slh_dsa_shake_256s"
  by (rule shake_hash_laws) simp

end
