(* ===== verification/Sm3.thy ===== *)
theory Sm3
  imports Prelude
begin

text \<open>
  The SM3 hash function (\<open>pqmagic/hash/sm3/x86-64/sm3.c\<close>): compression, the streaming interface and
  HMAC, translated from the C code.  The code reads and writes 32-bit words through pointers, that is
  little-endian on the supported targets, and swaps them with \<open>cpu_to_be32\<close>.

  \<open>sm3_init\<close> leaves the block buffer uninitialised; the functions with a local context take its
  initial contents as their first argument.
\<close>

section \<open>Compression\<close>

definition cpu_to_be32 :: "u32 \<Rightarrow> u32" where
  "cpu_to_be32 v = drop_bit 24 v OR (drop_bit 8 v AND 0xff00) OR (push_bit 8 v AND 0xff0000) OR push_bit 24 v"

definition ROTATELEFT :: "u32 \<Rightarrow> nat \<Rightarrow> u32" where
  "ROTATELEFT X n = push_bit (n mod 32) X OR drop_bit (32 - n mod 32) X"

definition P0 :: "u32 \<Rightarrow> u32" where
  "P0 x = x XOR ROTATELEFT x 9 XOR ROTATELEFT x 17"

definition P1 :: "u32 \<Rightarrow> u32" where
  "P1 x = x XOR ROTATELEFT x 15 XOR ROTATELEFT x 23"

definition FF0 :: "u32 \<Rightarrow> u32 \<Rightarrow> u32 \<Rightarrow> u32" where
  "FF0 x y z = x XOR y XOR z"

definition FF1 :: "u32 \<Rightarrow> u32 \<Rightarrow> u32 \<Rightarrow> u32" where
  "FF1 x y z = (x AND y) OR (x AND z) OR (y AND z)"

definition GG0 :: "u32 \<Rightarrow> u32 \<Rightarrow> u32 \<Rightarrow> u32" where
  "GG0 x y z = x XOR y XOR z"

definition GG1 :: "u32 \<Rightarrow> u32 \<Rightarrow> u32 \<Rightarrow> u32" where
  "GG1 x y z = (x AND y) OR (NOT x AND z)"

definition Ti :: "u32 list" where
  "Ti =
    [0x79CC4519, 0xF3988A32, 0xE7311465, 0xCE6228CB, 0x9CC45197, 0x3988A32F, 0x7311465E, 0xE6228CBC,
     0xCC451979, 0x988A32F3, 0x311465E7, 0x6228CBCE, 0xC451979C, 0x88A32F39, 0x11465E73, 0x228CBCE6,
     0x9D8A7A87, 0x3B14F50F, 0x7629EA1E, 0xEC53D43C, 0xD8A7A879, 0xB14F50F3, 0x629EA1E7, 0xC53D43CE,
     0x8A7A879D, 0x14F50F3B, 0x29EA1E76, 0x53D43CEC, 0xA7A879D8, 0x4F50F3B1, 0x9EA1E762, 0x3D43CEC5,
     0x7A879D8A, 0xF50F3B14, 0xEA1E7629, 0xD43CEC53, 0xA879D8A7, 0x50F3B14F, 0xA1E7629E, 0x43CEC53D,
     0x879D8A7A, 0x0F3B14F5, 0x1E7629EA, 0x3CEC53D4, 0x79D8A7A8, 0xF3B14F50, 0xE7629EA1, 0xCEC53D43,
     0x9D8A7A87, 0x3B14F50F, 0x7629EA1E, 0xEC53D43C, 0xD8A7A879, 0xB14F50F3, 0x629EA1E7, 0xC53D43CE,
     0x8A7A879D, 0x14F50F3B, 0x29EA1E76, 0x53D43CEC, 0xA7A879D8, 0x4F50F3B1, 0x9EA1E762, 0x3D43CEC5]"

type_synonym sm3_regs = "u32 \<times> u32 \<times> u32 \<times> u32 \<times> u32 \<times> u32 \<times> u32 \<times> u32"

definition ONE_ROUND_16 :: "u32 list \<Rightarrow> sm3_regs \<Rightarrow> nat \<Rightarrow> sm3_regs" where
  "ONE_ROUND_16 W = (\<lambda>(A, B, C, D, E, F, G, H) idx.
     let SS1 = ROTATELEFT A 12 + E + Ti ! idx;
         SS1 = ROTATELEFT SS1 7;
         SS2 = SS1 XOR ROTATELEFT A 12;
         k = W ! idx;
         D = FF0 A B C + D + SS2 + (k XOR W ! (idx + 4));
         H = GG0 E F G + H + SS1 + k;
         H = P0 H;
         B = ROTATELEFT B 9;
         F = ROTATELEFT F 19
     in (A, B, C, D, E, F, G, H))"

definition ONE_ROUNDS_16 :: "u32 list \<Rightarrow> nat \<Rightarrow> sm3_regs \<Rightarrow> sm3_regs" where
  "ONE_ROUNDS_16 W idx = (\<lambda>(A, B, C, D, E, F, G, H).
     let (A, B, C, D, E, F, G, H) = ONE_ROUND_16 W (A, B, C, D, E, F, G, H) idx;
         (D, A, B, C, H, E, F, G) = ONE_ROUND_16 W (D, A, B, C, H, E, F, G) (idx + 1);
         (C, D, A, B, G, H, E, F) = ONE_ROUND_16 W (C, D, A, B, G, H, E, F) (idx + 2);
         (B, C, D, A, F, G, H, E) = ONE_ROUND_16 W (B, C, D, A, F, G, H, E) (idx + 3)
     in (A, B, C, D, E, F, G, H))"

definition ONE_ROUND_64 :: "u32 list \<Rightarrow> sm3_regs \<Rightarrow> nat \<Rightarrow> sm3_regs" where
  "ONE_ROUND_64 W = (\<lambda>(A, B, C, D, E, F, G, H) idx.
     let SS1 = ROTATELEFT A 12 + E + Ti ! idx;
         SS1 = ROTATELEFT SS1 7;
         SS2 = SS1 XOR ROTATELEFT A 12;
         k = W ! idx;
         D = FF1 A B C + D + SS2 + (k XOR W ! (idx + 4));
         H = GG1 E F G + H + SS1 + k;
         H = P0 H;
         B = ROTATELEFT B 9;
         F = ROTATELEFT F 19
     in (A, B, C, D, E, F, G, H))"

definition ONE_ROUNDS_64 :: "u32 list \<Rightarrow> nat \<Rightarrow> sm3_regs \<Rightarrow> sm3_regs" where
  "ONE_ROUNDS_64 W idx = (\<lambda>(A, B, C, D, E, F, G, H).
     let (A, B, C, D, E, F, G, H) = ONE_ROUND_64 W (A, B, C, D, E, F, G, H) idx;
         (D, A, B, C, H, E, F, G) = ONE_ROUND_64 W (D, A, B, C, H, E, F, G) (idx + 1);
         (C, D, A, B, G, H, E, F) = ONE_ROUND_64 W (C, D, A, B, G, H, E, F) (idx + 2);
         (B, C, D, A, F, G, H, E) = ONE_ROUND_64 W (B, C, D, A, F, G, H, E) (idx + 3)
     in (A, B, C, D, E, F, G, H))"

text \<open>Reads and writes through a \<open>uint32_t\<close> pointer.\<close>

definition load32_le :: "bytes \<Rightarrow> nat \<Rightarrow> u32" where
  "load32_le b i = ucast (b ! (4 * i)) OR push_bit 8 (ucast (b ! (4 * i + 1))) OR
     push_bit 16 (ucast (b ! (4 * i + 2))) OR push_bit 24 (ucast (b ! (4 * i + 3)))"

definition store32_le :: "u32 \<Rightarrow> bytes" where
  "store32_le v = [ucast v, ucast (drop_bit 8 v), ucast (drop_bit 16 v), ucast (drop_bit 24 v)]"

text \<open>The two loops that fill \<open>W\<close> from a block.\<close>

definition sm3_schedule :: "bytes \<Rightarrow> u32 list \<Rightarrow> u32 list" where
  "sm3_schedule pblock W =
     (let W = fold (\<lambda>j W. let SS2 = load32_le pblock j in W[j := cpu_to_be32 SS2]) [0..<16] W
      in fold (\<lambda>j W.
           let SS2 = W ! (j - 3);
               SS1 = W ! (j - 16) XOR W ! (j - 9) XOR ROTATELEFT SS2 15;
               SS2 = W ! (j - 13)
           in W[j := P1 SS1 XOR ROTATELEFT SS2 7 XOR W ! (j - 6)]) [16..<68] W)"

definition sm3_compress_block ::
  "bytes \<Rightarrow> u32 list \<times> u32 list \<times> sm3_regs \<Rightarrow> u32 list \<times> u32 list \<times> sm3_regs" where
  "sm3_compress_block pblock = (\<lambda>(digest, W, regs).
     let W = sm3_schedule pblock W;
         regs = ONE_ROUNDS_16 W 0 regs;
         regs = ONE_ROUNDS_16 W 4 regs;
         regs = ONE_ROUNDS_16 W 8 regs;
         regs = ONE_ROUNDS_16 W 12 regs;
         regs = ONE_ROUNDS_64 W 16 regs;
         regs = ONE_ROUNDS_64 W 20 regs;
         regs = ONE_ROUNDS_64 W 24 regs;
         regs = ONE_ROUNDS_64 W 28 regs;
         regs = ONE_ROUNDS_64 W 32 regs;
         regs = ONE_ROUNDS_64 W 36 regs;
         regs = ONE_ROUNDS_64 W 40 regs;
         regs = ONE_ROUNDS_64 W 44 regs;
         regs = ONE_ROUNDS_64 W 48 regs;
         regs = ONE_ROUNDS_64 W 52 regs;
         regs = ONE_ROUNDS_64 W 56 regs;
         (A, B, C, D, E, F, G, H) = ONE_ROUNDS_64 W 60 regs;
         A = digest ! 0 XOR A; B = digest ! 1 XOR B; C = digest ! 2 XOR C; D = digest ! 3 XOR D;
         E = digest ! 4 XOR E; F = digest ! 5 XOR F; G = digest ! 6 XOR G; H = digest ! 7 XOR H
     in ([A, B, C, D, E, F, G, H], W, (A, B, C, D, E, F, G, H)))"

definition SM3_BLOCK_SIZE :: nat where "SM3_BLOCK_SIZE = 64"
definition SM3_DIGEST_LENGTH :: nat where "SM3_DIGEST_LENGTH = 32"
definition SM3_HMAC_SIZE :: nat where "SM3_HMAC_SIZE = 32"

definition sm3_compress :: "u32 list \<Rightarrow> bytes \<Rightarrow> u32 \<Rightarrow> u32 list" where
  "sm3_compress digest block nblocks =
     (let W = replicate 68 0;
          regs = (digest ! 0, digest ! 1, digest ! 2, digest ! 3, digest ! 4, digest ! 5, digest ! 6, digest ! 7);
          (digest, W, regs) =
            fold (\<lambda>i. sm3_compress_block (bslice (i * SM3_BLOCK_SIZE) SM3_BLOCK_SIZE block)) [0..<unat nblocks]
              (digest, W, regs)
      in digest)"

section \<open>The streaming interface\<close>

record SM3_CTX =
  sm3_digest :: "u32 list"
  sm3_nblocks :: u32
  sm3_block :: bytes
  sm3_num :: u32

definition sm3_init :: "SM3_CTX \<Rightarrow> SM3_CTX" where
  "sm3_init ctx = ctx\<lparr>sm3_digest := [0x7380166F, 0x4914B2B9, 0x172442D7, 0xDA8A0600,
      0xA96F30BC, 0x163138AA, 0xE38DEE4D, 0xB0FB0E4E], sm3_nblocks := 0, sm3_num := 0\<rparr>"

text \<open>The part of \<open>sm3_update\<close> after the buffered bytes have been dealt with.\<close>

definition sm3_update_blocks :: "SM3_CTX \<Rightarrow> bytes \<Rightarrow> SM3_CTX" where
  "sm3_update_blocks ctx data =
     (let data_len = length data;
          nblock = (of_nat (data_len div SM3_BLOCK_SIZE) :: u32);
          left = (of_nat (data_len mod SM3_BLOCK_SIZE) :: u32);
          offset = (of_nat (data_len - unat left) :: u32);
          ctx = ctx\<lparr>sm3_num := left\<rparr>;
          ctx = (if nblock > 0
                 then ctx\<lparr>sm3_digest := sm3_compress (sm3_digest ctx) data nblock, sm3_nblocks := sm3_nblocks ctx + nblock\<rparr>
                 else ctx)
      in ctx\<lparr>sm3_block := memcpy_at (sm3_block ctx) 0 (bslice (unat offset) (unat left) data)\<rparr>)"

definition sm3_update :: "SM3_CTX \<Rightarrow> bytes \<Rightarrow> SM3_CTX" where
  "sm3_update ctx data =
     (if sm3_num ctx \<noteq> 0 then
        let left = of_nat SM3_BLOCK_SIZE - sm3_num ctx
        in if length data < unat left then
             ctx\<lparr>sm3_block := memcpy_at (sm3_block ctx) (unat (sm3_num ctx)) data, sm3_num := sm3_num ctx + of_nat (length data)\<rparr>
           else
             let ctx = ctx\<lparr>sm3_block := memcpy_at (sm3_block ctx) (unat (sm3_num ctx)) (take (unat left) data)\<rparr>;
                 ctx = ctx\<lparr>sm3_digest := sm3_compress (sm3_digest ctx) (sm3_block ctx) 1, sm3_nblocks := sm3_nblocks ctx + 1,
                           sm3_num := 0\<rparr>
             in sm3_update_blocks ctx (drop (unat left) data)
      else sm3_update_blocks ctx data)"

definition sm3_final :: "SM3_CTX \<Rightarrow> SM3_CTX \<times> bytes" where
  "sm3_final ctx =
     (let ctx = ctx\<lparr>sm3_block := (sm3_block ctx)[unat (sm3_num ctx) := 0x80]\<rparr>;
          n = unat (sm3_num ctx);
          ctx = (if sm3_num ctx + 9 \<le> of_nat SM3_BLOCK_SIZE
                 then ctx\<lparr>sm3_block := memcpy_at (sm3_block ctx) (n + 1) (replicate (SM3_BLOCK_SIZE - n - 9) 0)\<rparr>
                 else
                   let ctx = ctx\<lparr>sm3_block := memcpy_at (sm3_block ctx) (n + 1) (replicate (SM3_BLOCK_SIZE - n - 1) 0)\<rparr>;
                       ctx = ctx\<lparr>sm3_digest := sm3_compress (sm3_digest ctx) (sm3_block ctx) 1\<rparr>
                   in ctx\<lparr>sm3_block := memcpy_at (sm3_block ctx) 0 (replicate (SM3_BLOCK_SIZE - 8) 0)\<rparr>);
          count0 = cpu_to_be32 (drop_bit 23 (sm3_nblocks ctx));
          count1 = cpu_to_be32 (push_bit 9 (sm3_nblocks ctx) + push_bit 3 (sm3_num ctx));
          ctx = ctx\<lparr>sm3_block := memcpy_at (sm3_block ctx) (SM3_BLOCK_SIZE - 8) (store32_le count0)\<rparr>;
          ctx = ctx\<lparr>sm3_block := memcpy_at (sm3_block ctx) (SM3_BLOCK_SIZE - 4) (store32_le count1)\<rparr>;
          ctx = ctx\<lparr>sm3_digest := sm3_compress (sm3_digest ctx) (sm3_block ctx) 1\<rparr>
      in (ctx, concat (map (\<lambda>i. store32_le (cpu_to_be32 (sm3_digest ctx ! i))) [0..<8])))"

definition sm3 :: "SM3_CTX \<Rightarrow> bytes \<Rightarrow> bytes" where
  "sm3 ctx data =
     (let ctx = sm3_init ctx;
          ctx = sm3_update ctx data;
          (ctx, dgst) = sm3_final ctx
      in dgst)"

section \<open>HMAC\<close>

record SM3_HMAC_CTX =
  sm3_ctx :: SM3_CTX
  hmac_key :: bytes

definition IPAD :: u8 where "IPAD = 0x36"
definition OPAD :: u8 where "OPAD = 0x5C"

definition sm3_hmac_init :: "SM3_HMAC_CTX \<Rightarrow> bytes \<Rightarrow> SM3_HMAC_CTX" where
  "sm3_hmac_init ctx k =
     (let ctx = (if length k \<le> SM3_BLOCK_SIZE
                 then
                   let ctx = ctx\<lparr>hmac_key := memcpy_at (hmac_key ctx) 0 k\<rparr>
                   in ctx\<lparr>hmac_key := memcpy_at (hmac_key ctx) (length k) (replicate (SM3_BLOCK_SIZE - length k) 0)\<rparr>
                 else
                   let ctx = ctx\<lparr>sm3_ctx := sm3_init (sm3_ctx ctx)\<rparr>;
                       ctx = ctx\<lparr>sm3_ctx := sm3_update (sm3_ctx ctx) k\<rparr>;
                       (c, dgst) = sm3_final (sm3_ctx ctx);
                       ctx = ctx\<lparr>sm3_ctx := c, hmac_key := memcpy_at (hmac_key ctx) 0 dgst\<rparr>
                   in ctx\<lparr>hmac_key := memcpy_at (hmac_key ctx) SM3_DIGEST_LENGTH
                            (replicate (SM3_BLOCK_SIZE - SM3_DIGEST_LENGTH) 0)\<rparr>);
          ctx = ctx\<lparr>hmac_key := map (\<lambda>b. b XOR IPAD) (hmac_key ctx)\<rparr>;
          ctx = ctx\<lparr>sm3_ctx := sm3_init (sm3_ctx ctx)\<rparr>
      in ctx\<lparr>sm3_ctx := sm3_update (sm3_ctx ctx) (hmac_key ctx)\<rparr>)"

definition sm3_hmac_update :: "SM3_HMAC_CTX \<Rightarrow> bytes \<Rightarrow> SM3_HMAC_CTX" where
  "sm3_hmac_update ctx data = ctx\<lparr>sm3_ctx := sm3_update (sm3_ctx ctx) data\<rparr>"

definition sm3_hmac_final :: "SM3_HMAC_CTX \<Rightarrow> SM3_HMAC_CTX \<times> bytes" where
  "sm3_hmac_final ctx =
     (let ctx = ctx\<lparr>hmac_key := map (\<lambda>b. b XOR (IPAD XOR OPAD)) (hmac_key ctx)\<rparr>;
          (c, mac) = sm3_final (sm3_ctx ctx);
          ctx = ctx\<lparr>sm3_ctx := sm3_init c\<rparr>;
          ctx = ctx\<lparr>sm3_ctx := sm3_update (sm3_ctx ctx) (hmac_key ctx)\<rparr>;
          ctx = ctx\<lparr>sm3_ctx := sm3_update (sm3_ctx ctx) mac\<rparr>;
          (c, mac) = sm3_final (sm3_ctx ctx)
      in (ctx\<lparr>sm3_ctx := c\<rparr>, mac))"

definition sm3_hmac :: "SM3_HMAC_CTX \<Rightarrow> bytes \<Rightarrow> bytes \<Rightarrow> bytes" where
  "sm3_hmac ctx data k =
     (let ctx = sm3_hmac_init ctx k;
          ctx = sm3_hmac_update ctx data;
          (ctx, mac) = sm3_hmac_final ctx
      in mac)"

end
