(* ===== verification/Sm3_Spec.thy ===== *)
theory Sm3_Spec
  imports Sm3
begin

text \<open>
  SM3 as the standard GB/T 32905 defines it, and the proof that \<open>sm3_compress\<close> of \<open>sm3.c\<close>, with its
  unrolled rounds and its table of rotated constants, is the compression function of the standard.
\<close>

section \<open>The standard\<close>

definition sm3_T :: "nat \<Rightarrow> u32" where
  "sm3_T j = (if j < 16 then 0x79CC4519 else 0x7A879D8A)"

definition sm3_FF :: "nat \<Rightarrow> u32 \<Rightarrow> u32 \<Rightarrow> u32 \<Rightarrow> u32" where
  "sm3_FF j x y z = (if j < 16 then x XOR y XOR z else (x AND y) OR (x AND z) OR (y AND z))"

definition sm3_GG :: "nat \<Rightarrow> u32 \<Rightarrow> u32 \<Rightarrow> u32 \<Rightarrow> u32" where
  "sm3_GG j x y z = (if j < 16 then x XOR y XOR z else (x AND y) OR (NOT x AND z))"

definition sm3_P0 :: "u32 \<Rightarrow> u32" where
  "sm3_P0 x = x XOR word_rotl 9 x XOR word_rotl 17 x"

definition sm3_P1 :: "u32 \<Rightarrow> u32" where
  "sm3_P1 x = x XOR word_rotl 15 x XOR word_rotl 23 x"

text \<open>The big-endian words of a block, and the message expansion.\<close>

definition be32 :: "bytes \<Rightarrow> nat \<Rightarrow> u32" where
  "be32 b i = push_bit 24 (ucast (b ! (4 * i))) OR push_bit 16 (ucast (b ! (4 * i + 1))) OR
     push_bit 8 (ucast (b ! (4 * i + 2))) OR ucast (b ! (4 * i + 3))"

fun sm3_W :: "bytes \<Rightarrow> nat \<Rightarrow> u32" where
  "sm3_W b j =
     (if j < 16 then be32 b j
      else sm3_P1 (sm3_W b (j - 16) XOR sm3_W b (j - 9) XOR word_rotl 15 (sm3_W b (j - 3))) XOR
        word_rotl 7 (sm3_W b (j - 13)) XOR sm3_W b (j - 6))"

declare sm3_W.simps [simp del]

definition sm3_round :: "(nat \<Rightarrow> u32) \<Rightarrow> nat \<Rightarrow> sm3_regs \<Rightarrow> sm3_regs" where
  "sm3_round W j = (\<lambda>(A, B, C, D, E, F, G, H).
     let SS1 = word_rotl 7 (word_rotl 12 A + E + word_rotl (j mod 32) (sm3_T j));
         SS2 = SS1 XOR word_rotl 12 A;
         TT1 = sm3_FF j A B C + D + SS2 + (W j XOR W (j + 4));
         TT2 = sm3_GG j E F G + H + SS1 + W j
     in (TT1, A, word_rotl 9 B, C, sm3_P0 TT2, E, word_rotl 19 F, G))"

definition regs_list :: "sm3_regs \<Rightarrow> u32 list" where
  "regs_list = (\<lambda>(A, B, C, D, E, F, G, H). [A, B, C, D, E, F, G, H])"

definition list_regs :: "u32 list \<Rightarrow> sm3_regs" where
  "list_regs v = (v ! 0, v ! 1, v ! 2, v ! 3, v ! 4, v ! 5, v ! 6, v ! 7)"

definition sm3_CF :: "u32 list \<Rightarrow> bytes \<Rightarrow> u32 list" where
  "sm3_CF V b = map2 (XOR) (regs_list (fold (sm3_round (sm3_W b)) [0..<64] (list_regs V))) V"

definition sm3_blocks :: "bytes \<Rightarrow> bytes list" where
  "sm3_blocks m = map (\<lambda>i. bslice (i * 64) 64 m) [0..<length m div 64]"

definition sm3_IV :: "u32 list" where
  "sm3_IV = [0x7380166F, 0x4914B2B9, 0x172442D7, 0xDA8A0600, 0xA96F30BC, 0x163138AA, 0xE38DEE4D, 0xB0FB0E4E]"

definition be_bytes :: "nat \<Rightarrow> nat \<Rightarrow> bytes" where
  "be_bytes n x = map (\<lambda>i. of_nat (x div 256 ^ (n - 1 - i))) [0..<n]"

definition sm3_pad :: "bytes \<Rightarrow> bytes" where
  "sm3_pad m = m @ [0x80] @ replicate ((119 - length m mod 64) mod 64) 0 @ be_bytes 8 (8 * length m)"

definition sm3_hash :: "bytes \<Rightarrow> bytes" where
  "sm3_hash m = concat (map (\<lambda>w. be_bytes 4 (unat w)) (fold (\<lambda>b V. sm3_CF V b) (sm3_blocks (sm3_pad m)) sm3_IV))"

section \<open>Words\<close>

lemma rotl_shifts:
  fixes x :: "'a::len word"
  assumes n: "n < LENGTH('a)"
  shows "push_bit n x OR drop_bit (LENGTH('a) - n) x = word_rotl n x"
proof (rule bit_word_eqI)
  fix k assume k: "k < LENGTH('a)"
  show "bit (push_bit n x OR drop_bit (LENGTH('a) - n) x) k = bit (word_rotl n x) k"
  proof (cases "n \<le> k")
    case True
    then have "(k + LENGTH('a) - n) mod LENGTH('a) = k - n"
      using k n by (simp add: mod_if)
    moreover have "\<not> bit x (LENGTH('a) - n + k)" using True by (auto dest: bit_imp_le_length)
    ultimately show ?thesis using True k n by (auto simp: bit_simps bit_word_rotl_iff)
  next
    case False
    then show ?thesis using k n by (auto simp: bit_simps bit_word_rotl_iff add.commute)
  qed
qed

lemma byte_split:
  fixes k :: nat
  obtains q r where "k = 8 * q + r" and "r < 8"
  by (rule that [of "k div 8" "k mod 8"]) simp_all

lemma u32_byte_eqI:
  assumes "\<And>q r. q < 4 \<Longrightarrow> r < 8 \<Longrightarrow> bit a (8 * q + r) = bit b (8 * q + r)"
  shows "a = (b :: u32)"
proof (rule bit_word_eqI)
  fix k assume k: "k < LENGTH(32)"
  obtain q r where "k = 8 * q + r" "r < 8" by (rule byte_split)
  with k assms [of q r] show "bit a k = bit b k" by simp
qed

lemma less_4_cases: "(q :: nat) < 4 \<Longrightarrow> q = 0 \<or> q = 1 \<or> q = 2 \<or> q = 3"
  by auto

lemma cpu_to_be32_bit:
  assumes "q < 4" and "r < 8"
  shows "bit (cpu_to_be32 v) (8 * q + r) = bit v (8 * (3 - q) + r)"
proof -
  have m: "(0xff00 :: u32) = push_bit 8 (mask 8)" "(0xff0000 :: u32) = push_bit 16 (mask 8)"
    by (simp_all add: mask_eq_exp_minus_1)
  from less_4_cases [OF assms(1)] show ?thesis using assms(2)
    by (elim disjE; simp add: cpu_to_be32_def m bit_simps; auto dest: bit_imp_le_length simp: add.commute)
qed

definition le32 :: "u8 \<Rightarrow> u8 \<Rightarrow> u8 \<Rightarrow> u8 \<Rightarrow> u32" where
  "le32 b0 b1 b2 b3 = ucast b0 OR push_bit 8 (ucast b1) OR push_bit 16 (ucast b2) OR push_bit 24 (ucast b3)"

lemma le32_bit:
  assumes "q < 4" and "r < 8"
  shows "bit (le32 b0 b1 b2 b3) (8 * q + r) = bit ([b0, b1, b2, b3] ! q) r"
  using less_4_cases [OF assms(1)] assms(2)
  by (elim disjE; simp add: le32_def bit_simps; auto dest: bit_imp_le_length)

lemma cpu_to_be32_le32: "cpu_to_be32 (le32 b0 b1 b2 b3) = le32 b3 b2 b1 b0"
proof (rule u32_byte_eqI)
  fix q r :: nat assume "q < 4" "r < 8"
  then show "bit (cpu_to_be32 (le32 b0 b1 b2 b3)) (8 * q + r) = bit (le32 b3 b2 b1 b0) (8 * q + r)"
    using less_4_cases [of q] by (auto simp: cpu_to_be32_bit le32_bit)
qed

lemma cpu_to_be32_load: "cpu_to_be32 (load32_le b i) = be32 b i"
proof -
  have "load32_le b i = le32 (b ! (4 * i)) (b ! (4 * i + 1)) (b ! (4 * i + 2)) (b ! (4 * i + 3))"
    by (simp add: load32_le_def le32_def)
  then show ?thesis by (simp add: cpu_to_be32_le32 be32_def) (simp add: le32_def ac_simps)
qed

lemma byte_of_cpu_to_be32:
  assumes "q < 4"
  shows "(ucast (drop_bit (8 * q) (cpu_to_be32 v)) :: u8) = ucast (drop_bit (8 * (3 - q)) v)"
proof (rule bit_word_eqI)
  fix n assume "n < LENGTH(8)"
  then show "bit (ucast (drop_bit (8 * q) (cpu_to_be32 v)) :: u8) n = bit (ucast (drop_bit (8 * (3 - q)) v) :: u8) n"
    using cpu_to_be32_bit [OF assms, of n v] by (simp add: bit_simps)
qed

lemma byte_of_unat: "(of_nat (unat (v :: u32) div 2 ^ n) :: u8) = ucast (drop_bit n v)"
  by (simp add: unat_drop_bit_div [symmetric] unsigned_of_nat)

lemma be_bytes_4: "be_bytes 4 x = [of_nat (x div 2 ^ 24), of_nat (x div 2 ^ 16), of_nat (x div 2 ^ 8), of_nat x]"
proof -
  have "[0..<4] = [0, 1, 2, 3 :: nat]" by code_simp
  then show ?thesis by (simp add: be_bytes_def)
qed

lemma store_cpu_to_be32: "store32_le (cpu_to_be32 v) = be_bytes 4 (unat v)"
  unfolding be_bytes_4 byte_of_unat store32_le_def
  using byte_of_cpu_to_be32 [of 0 v] byte_of_cpu_to_be32 [of 1 v] byte_of_cpu_to_be32 [of 2 v]
    byte_of_cpu_to_be32 [of 3 v] byte_of_unat [of v 0]
  by simp

lemma ROTATELEFT_word_rotl: "ROTATELEFT X n = word_rotl (n mod 32) X"
  using rotl_shifts [of "n mod 32" X] by (simp add: ROTATELEFT_def)

lemma Ti_spec:
  assumes "j < 64"
  shows "Ti ! j = word_rotl (j mod 32) (sm3_T j)"
proof -
  have "list_all (\<lambda>j. Ti ! j = ROTATELEFT (sm3_T j) j) [0..<64]" by code_simp
  then have "\<forall>j \<in> set [0..<64]. Ti ! j = ROTATELEFT (sm3_T j) j" unfolding list_all_iff .
  moreover have "j \<in> set [0..<64]" unfolding set_upt using assms by simp
  ultimately have "Ti ! j = ROTATELEFT (sm3_T j) j" by (rule bspec)
  then show ?thesis by (simp only: ROTATELEFT_word_rotl)
qed

section \<open>Compression\<close>

lemma P_spec: "P0 x = sm3_P0 x" "P1 x = sm3_P1 x"
  by (simp_all add: P0_def P1_def sm3_P0_def sm3_P1_def ROTATELEFT_word_rotl)

lemma schedule_step:
  assumes len: "length W = 68" and W: "\<forall>i < j. W ! i = sm3_W b i" and j: "16 \<le> j" "j < 68"
  shows "sm3_W b j = P1 (W ! (j - 16) XOR W ! (j - 9) XOR ROTATELEFT (W ! (j - 3)) 15) XOR
    ROTATELEFT (W ! (j - 13)) 7 XOR W ! (j - 6)"
  using W j by (subst sm3_W.simps) (simp add: P_spec ROTATELEFT_word_rotl)

lemma sm3_schedule_spec:
  assumes "length W = 68"
  shows "sm3_schedule b W = map (sm3_W b) [0..<68]"
proof -
  let ?P = "\<lambda>n W. length W = 68 \<and> (\<forall>i < n. W ! i = sm3_W b i)"
  let ?f = "\<lambda>j (W :: u32 list). W[j := cpu_to_be32 (load32_le b j)]"
  let ?g = "\<lambda>j (W :: u32 list). W[j := P1 (W ! (j - 16) XOR W ! (j - 9) XOR ROTATELEFT (W ! (j - 3)) 15) XOR
    ROTATELEFT (W ! (j - 13)) 7 XOR W ! (j - 6)]"
  have 1: "?P 16 (fold ?f [0..<16] W)"
  proof (rule fold_upt_invar [where P = ?P])
    fix i W assume "i < 16" "?P i W"
    then show "?P (Suc i) (?f i W)"
      by (auto simp: less_Suc_eq nth_list_update cpu_to_be32_load sm3_W.simps [of b i])
  qed (use assms in simp_all)
  have 2: "?P 68 (fold ?g [16..<68] (fold ?f [0..<16] W))"
  proof (rule fold_upt_invar [where P = ?P])
    show "16 \<le> (68 :: nat)" by simp
  next
    show "?P 16 (fold ?f [0..<16] W)" by (rule 1)
  next
    fix i W assume i: "16 \<le> i" "i < 68" "?P i W"
    then have "?g i W = W[i := sm3_W b i]" using schedule_step [of W i b] by simp
    with i show "?P (Suc i) (?g i W)" by (auto simp: less_Suc_eq nth_list_update)
  qed
  obtain V where V: "V = fold ?g [16..<68] (fold ?f [0..<16] W)" by blast
  have "sm3_schedule b W = V"
    by (simp only: sm3_schedule_def Let_def V)
  moreover have "V = map (sm3_W b) [0..<68]"
    by (rule nth_equalityI) (use 2 [folded V] in \<open>simp_all only: length_map length_upt nth_map_upt minus_nat.diff_0 add_0\<close>)
  ultimately show ?thesis by simp
qed

text \<open>A round of the code updates registers in place; the next one sees them renamed.\<close>

definition rot_regs :: "sm3_regs \<Rightarrow> sm3_regs" where
  "rot_regs = (\<lambda>(A, B, C, D, E, F, G, H). (D, A, B, C, H, E, F, G))"

lemma regs_cases:
  obtains A B C D E F G H where "(r :: sm3_regs) = (A, B, C, D, E, F, G, H)"
  by (cases r) auto

lemma ONE_ROUND_16_spec:
  assumes "j < 16" and "W = map w [0..<68]"
  shows "rot_regs (ONE_ROUND_16 W r j) = sm3_round w j r"
  using assms Ti_spec [of j] by (cases r rule: regs_cases)
    (simp add: rot_regs_def ONE_ROUND_16_def sm3_round_def Let_def P_spec ROTATELEFT_word_rotl sm3_FF_def
      sm3_GG_def FF0_def GG0_def del: upt_rec_numeral)

lemma ONE_ROUND_64_spec:
  assumes "16 \<le> j" and "j < 64" and "W = map w [0..<68]"
  shows "rot_regs (ONE_ROUND_64 W r j) = sm3_round w j r"
  using assms Ti_spec [of j] by (cases r rule: regs_cases)
    (simp add: rot_regs_def ONE_ROUND_64_def sm3_round_def Let_def P_spec ROTATELEFT_word_rotl sm3_FF_def
      sm3_GG_def FF1_def GG1_def del: upt_rec_numeral)

lemma ONE_ROUNDS_rot_aux:
  fixes R :: "sm3_regs \<Rightarrow> nat \<Rightarrow> sm3_regs"
  shows "(\<lambda>(A, B, C, D, E, F, G, H).
     let (A, B, C, D, E, F, G, H) = R (A, B, C, D, E, F, G, H) idx;
         (D, A, B, C, H, E, F, G) = R (D, A, B, C, H, E, F, G) (idx + 1);
         (C, D, A, B, G, H, E, F) = R (C, D, A, B, G, H, E, F) (idx + 2);
         (B, C, D, A, F, G, H, E) = R (B, C, D, A, F, G, H, E) (idx + 3)
     in (A, B, C, D, E, F, G, H)) r =
    rot_regs (R (rot_regs (R (rot_regs (R (rot_regs (R r idx)) (idx + 1))) (idx + 2))) (idx + 3))"
proof -
  obtain A B C D E F G H where 0: "r = (A, B, C, D, E, F, G, H)" by (rule regs_cases)
  obtain A1 B1 C1 D1 E1 F1 G1 H1 where 1: "R r idx = (A1, B1, C1, D1, E1, F1, G1, H1)" by (rule regs_cases)
  obtain A2 B2 C2 D2 E2 F2 G2 H2 where
    2: "R (D1, A1, B1, C1, H1, E1, F1, G1) (idx + 1) = (D2, A2, B2, C2, H2, E2, F2, G2)" by (rule regs_cases)
  obtain A3 B3 C3 D3 E3 F3 G3 H3 where
    3: "R (C2, D2, A2, B2, G2, H2, E2, F2) (idx + 2) = (C3, D3, A3, B3, G3, H3, E3, F3)" by (rule regs_cases)
  obtain A4 B4 C4 D4 E4 F4 G4 H4 where
    4: "R (B3, C3, D3, A3, F3, G3, H3, E3) (idx + 3) = (B4, C4, D4, A4, F4, G4, H4, E4)" by (rule regs_cases)
  show ?thesis using 1 [unfolded 0] 2 3 4 by (simp only: 0 rot_regs_def prod.case Let_def)
qed

lemma ONE_ROUNDS_rot:
  "ONE_ROUNDS_16 W idx r = rot_regs (ONE_ROUND_16 W (rot_regs (ONE_ROUND_16 W (rot_regs (ONE_ROUND_16 W
     (rot_regs (ONE_ROUND_16 W r idx)) (idx + 1))) (idx + 2))) (idx + 3))"
  "ONE_ROUNDS_64 W idx r = rot_regs (ONE_ROUND_64 W (rot_regs (ONE_ROUND_64 W (rot_regs (ONE_ROUND_64 W
     (rot_regs (ONE_ROUND_64 W r idx)) (idx + 1))) (idx + 2))) (idx + 3))"
  unfolding ONE_ROUNDS_16_def ONE_ROUNDS_64_def by (rule ONE_ROUNDS_rot_aux)+

lemma ONE_ROUNDS_16_spec:
  assumes "idx + 3 < 16" and W: "W = map w [0..<68]"
  shows "ONE_ROUNDS_16 W idx r = fold (sm3_round w) [idx, idx + 1, idx + 2, idx + 3] r"
  using assms(1) by (simp add: ONE_ROUNDS_rot ONE_ROUND_16_spec [OF _ W])

lemma ONE_ROUNDS_64_spec:
  assumes "16 \<le> idx" and "idx + 3 < 64" and W: "W = map w [0..<68]"
  shows "ONE_ROUNDS_64 W idx r = fold (sm3_round w) [idx, idx + 1, idx + 2, idx + 3] r"
  using assms(1,2) by (simp add: ONE_ROUNDS_rot ONE_ROUND_64_spec [OF _ _ W])

lemma list8:
  assumes "length V = 8"
  obtains a b c d e f g h where "V = [a, b, c, d, e, f, g, h]"
  using assms by (auto simp: numeral_eq_Suc length_Suc_conv)

lemma upt_64: "[0..<64] = concat (map (\<lambda>i. [4 * i, 4 * i + 1, 4 * i + 2, 4 * i + 3]) [0, 1, 2, 3, 4, 5, 6, 7, 8, 9, 10, 11, 12, 13, 14, 15 :: nat])"
  by code_simp

lemma sm3_compress_block_spec:
  assumes "length V = 8" and "length W = 68"
  shows "\<exists>W'. length W' = 68 \<and>
    sm3_compress_block b (V, W, list_regs V) = (sm3_CF V b, W', list_regs (sm3_CF V b))"
proof -
  let ?w = "sm3_W b"
  define W' where "W' = map ?w [0..<68]"
  note r16 = ONE_ROUNDS_16_spec [OF _ W'_def] and r64 = ONE_ROUNDS_64_spec [OF _ _ W'_def]
  obtain A B C D E F G H where
    r: "fold (sm3_round ?w) [0..<64] (list_regs V) = (A, B, C, D, E, F, G, H)" by (rule regs_cases)
  obtain v0 v1 v2 v3 v4 v5 v6 v7 where V: "V = [v0, v1, v2, v3, v4, v5, v6, v7]"
    using assms(1) by (rule list8)
  have "ONE_ROUNDS_64 W' 60 (ONE_ROUNDS_64 W' 56 (ONE_ROUNDS_64 W' 52 (ONE_ROUNDS_64 W' 48
    (ONE_ROUNDS_64 W' 44 (ONE_ROUNDS_64 W' 40 (ONE_ROUNDS_64 W' 36 (ONE_ROUNDS_64 W' 32
    (ONE_ROUNDS_64 W' 28 (ONE_ROUNDS_64 W' 24 (ONE_ROUNDS_64 W' 20 (ONE_ROUNDS_64 W' 16
    (ONE_ROUNDS_16 W' 12 (ONE_ROUNDS_16 W' 8 (ONE_ROUNDS_16 W' 4 (ONE_ROUNDS_16 W' 0
      (list_regs V)))))))))))))))) = fold (sm3_round ?w) [0..<64] (list_regs V)"
    unfolding upt_64 by (simp add: r16 r64)
  note rounds = trans [OF this r]
  have sched: "sm3_schedule b W = W'" unfolding W'_def using assms(2) by (rule sm3_schedule_spec)
  let ?v = "[v0 XOR A, v1 XOR B, v2 XOR C, v3 XOR D, v4 XOR E, v5 XOR F, v6 XOR G, v7 XOR H]"
  have c: "sm3_compress_block b (V, W, list_regs V) = (?v, W', list_regs ?v)"
    by (simp only: sm3_compress_block_def Let_def prod.case sched rounds) (simp add: list_regs_def V)
  have "sm3_CF V b = ?v"
    unfolding sm3_CF_def r by (simp add: regs_list_def V xor.commute)
  moreover have "length W' = 68" by (simp add: W'_def del: upt_rec_numeral)
  ultimately show ?thesis using c by simp
qed

lemma length_regs_list [simp]: "length (regs_list r) = 8"
  by (cases r rule: regs_cases) (simp add: regs_list_def)

lemma length_sm3_CF [simp]: "length V = 8 \<Longrightarrow> length (sm3_CF V b) = 8"
  by (simp add: sm3_CF_def del: upt_rec_numeral)

lemma sm3_compress_spec:
  assumes "length V = 8" and "unat n * 64 \<le> length m"
  shows "sm3_compress V m n = fold (\<lambda>b V. sm3_CF V b) (sm3_blocks (take (unat n * 64) m)) V"
proof -
  let ?f = "\<lambda>i. sm3_compress_block (bslice (i * SM3_BLOCK_SIZE) SM3_BLOCK_SIZE m)"
  let ?V = "\<lambda>k. fold (\<lambda>b V. sm3_CF V b) (map (\<lambda>i. bslice (i * 64) 64 m) [0..<k]) V"
  let ?P = "\<lambda>k (v, w :: u32 list, r). v = ?V k \<and> length v = 8 \<and> length w = 68 \<and> r = list_regs v"
  have "?P (unat n) (fold ?f [0..<unat n] (V, replicate 68 0, list_regs V))"
  proof (rule fold_upt_invar [where P = ?P])
    fix i s assume "?P i s"
    then obtain w where s: "s = (?V i, w, list_regs (?V i))" "length (?V i) = 8" "length w = 68"
      by (cases s) auto
    obtain w' where "length w' = 68"
      "sm3_compress_block (bslice (i * 64) 64 m) s = (sm3_CF (?V i) (bslice (i * 64) 64 m), w',
        list_regs (sm3_CF (?V i) (bslice (i * 64) 64 m)))"
      using sm3_compress_block_spec [OF s(2,3)] unfolding s(1) by blast
    then show "?P (Suc i) (?f i s)" using s(2) by (simp add: SM3_BLOCK_SIZE_def)
  qed (use assms(1) in simp_all)
  then have 1: "sm3_compress V m n = ?V (unat n)"
    by (auto simp: sm3_compress_def list_regs_def split: prod.splits)
  have 2: "map (\<lambda>i. bslice (i * 64) 64 (take (unat n * 64) m)) [0..<unat n] =
    map (\<lambda>i. bslice (i * 64) 64 m) [0..<unat n]"
  proof (rule map_cong)
    fix i assume "i \<in> set [0..<unat n]"
    then have "i * 64 + 64 \<le> unat n * 64" by auto
    then show "bslice (i * 64) 64 (take (unat n * 64) m) = bslice (i * 64) 64 m"
      by (simp add: bslice_def drop_take min_def)
  qed simp
  have 3: "length (take (unat n * 64) m) div 64 = unat n" using assms(2) by (simp add: min_def)
  show ?thesis by (simp only: sm3_blocks_def 1 2 3)
qed

end
