(* ===== verification/Sm3_Stream.thy ===== *)
theory Sm3_Stream
  imports Sm3_Spec
begin

text \<open>
  The streaming interface and HMAC of \<open>sm3.c\<close> compute the standard's hash and RFC 2104's HMAC: a
  context represents the bytes absorbed so far (\<open>sm3_repr\<close>), \<open>sm3_init\<close> represents the empty string,
  \<open>sm3_update\<close> appends and \<open>sm3_final\<close> pads and returns the digest.  Each call must absorb less than
  4 GiB: \<open>sm3_update_blocks_offset\<close> shows what happens beyond.
\<close>

section \<open>The streaming interface\<close>

lemma sm3_blocks_append:
  assumes "64 dvd length a"
  shows "sm3_blocks (a @ b) = sm3_blocks a @ sm3_blocks b"
proof -
  from assms obtain k where k: "length a = 64 * k" by blast
  have "(length a + length b) div 64 = k + length b div 64" using k by simp
  moreover have "[0..<k + length b div 64] = [0..<k] @ map ((+) k) [0..<length b div 64]"
    by (rule nth_equalityI) (auto simp: nth_append)
  moreover have "bslice (i * 64) 64 (a @ b) = bslice (i * 64) 64 a" if "i < k" for i
  proof -
    from that have "i * 64 + 64 \<le> length a" using k by simp
    then show ?thesis by (simp add: bslice_def)
  qed
  moreover have "bslice ((k + i) * 64) 64 (a @ b) = bslice (i * 64) 64 b" for i
    using k by (simp add: bslice_def algebra_simps)
  ultimately show ?thesis
    using k by (simp add: sm3_blocks_def comp_def)
qed

lemma sm3_blocks_one: "length b = 64 \<Longrightarrow> sm3_blocks b = [b]"
  by (simp add: sm3_blocks_def bslice_def)

abbreviation sm3_CFs :: "bytes \<Rightarrow> u32 list \<Rightarrow> u32 list" where
  "sm3_CFs m \<equiv> fold (\<lambda>b V. sm3_CF V b) (sm3_blocks m)"

lemma length_sm3_CFs [simp]: "length V = 8 \<Longrightarrow> length (sm3_CFs m V) = 8"
proof -
  have "length V = 8 \<Longrightarrow> length (fold (\<lambda>b V. sm3_CF V b) bs V) = 8" for bs
    by (induction bs arbitrary: V) simp_all
  then show "length V = 8 \<Longrightarrow> length (sm3_CFs m V) = 8" .
qed

lemma length_sm3_IV [simp]: "length sm3_IV = 8"
  by (simp add: sm3_IV_def)

lemma sm3_compress_one:
  assumes "length V = 8" and "length b = 64"
  shows "sm3_compress V b 1 = sm3_CFs b V"
  using sm3_compress_spec [of V 1 b] assms by simp

text \<open>
  A context that has compressed the blocks of \<open>full\<close> and buffers \<open>rest\<close>; it represents the input
  \<open>full @ rest\<close>.
\<close>

definition sm3_state :: "SM3_CTX \<Rightarrow> bytes \<Rightarrow> bytes \<Rightarrow> bool" where
  "sm3_state ctx full rest \<longleftrightarrow>
     64 dvd length full \<and> length rest < 64 \<and> length (sm3_block ctx) = 64 \<and>
     take (length rest) (sm3_block ctx) = rest \<and> sm3_digest ctx = sm3_CFs full sm3_IV \<and>
     sm3_nblocks ctx = of_nat (length full div 64) \<and> sm3_num ctx = of_nat (length rest)"

definition sm3_repr :: "SM3_CTX \<Rightarrow> bytes \<Rightarrow> bool" where
  "sm3_repr ctx m \<longleftrightarrow> (\<exists>full rest. m = full @ rest \<and> sm3_state ctx full rest)"

lemma sm3_repr_init:
  assumes "length (sm3_block ctx) = 64"
  shows "sm3_repr (sm3_init ctx) []"
proof -
  have "sm3_state (sm3_init ctx) [] []"
    using assms by (simp add: sm3_state_def sm3_init_def sm3_IV_def sm3_blocks_def)
  then show ?thesis by (auto simp: sm3_repr_def)
qed

lemma unat_of_nat_u32: "n < 2 ^ 32 \<Longrightarrow> unat (of_nat n :: u32) = n"
  by (simp add: unsigned_of_nat take_bit_nat_eq_self)

lemma sm3_update_blocks_state:
  assumes st: "sm3_state ctx full []" and len: "length data < 2 ^ 32"
  shows "sm3_state (sm3_update_blocks ctx data) (full @ take (length data - length data mod 64) data)
    (drop (length data - length data mod 64) data)"
proof -
  define k r where "k = length data div 64" and "r = length data mod 64"
  have kr: "length data = 64 * k + r" "r < 64" by (simp_all add: k_def r_def)
  have u: "unat (of_nat k :: u32) = k" "unat (of_nat r :: u32) = r" "unat (of_nat (64 * k) :: u32) = 64 * k"
    using kr len by (intro unat_of_nat_u32; simp)+
  have pos: "(0 < (of_nat k :: u32)) = (0 < k)" using u(1) by (simp add: word_less_nat_alt)
  from st have d: "length (sm3_digest ctx) = 8" by (simp add: sm3_state_def)
  have "sm3_compress (sm3_digest ctx) data (of_nat k) = sm3_CFs (take (64 * k) data) (sm3_digest ctx)"
    using sm3_compress_spec [OF d, of "of_nat k" data] kr u(1) by (simp add: mult.commute)
  moreover have "sm3_CFs (take (64 * 0) data) V = V" for V by (simp add: sm3_blocks_def)
  ultimately have upd: "sm3_update_blocks ctx data =
    ctx\<lparr>sm3_num := of_nat r, sm3_digest := sm3_CFs (take (64 * k) data) (sm3_digest ctx),
        sm3_nblocks := sm3_nblocks ctx + of_nat k,
        sm3_block := memcpy_at (sm3_block ctx) 0 (drop (64 * k) data)\<rparr>"
    using kr u pos by (cases "k = 0")
      (simp_all add: sm3_update_blocks_def Let_def SM3_BLOCK_SIZE_def k_def [symmetric] r_def [symmetric] bslice_def)
  show ?thesis
    using st kr unfolding upd r_def [symmetric]
    by (simp add: sm3_state_def sm3_blocks_append memcpy_at_def div_plus_div_distrib_dvd_left)
qed

lemma sm3_reprI: "sm3_state ctx full rest \<Longrightarrow> m = full @ rest \<Longrightarrow> sm3_repr ctx m"
  by (auto simp: sm3_repr_def)

lemma sm3_update_blocks_repr:
  assumes "sm3_state ctx full []" and "length data < 2 ^ 32"
  shows "sm3_repr (sm3_update_blocks ctx data) (full @ data)"
  by (rule sm3_reprI [OF sm3_update_blocks_state [OF assms]]) simp

lemma sm3_update_repr:
  assumes "sm3_repr ctx m" and len: "length data < 2 ^ 32"
  shows "sm3_repr (sm3_update ctx data) (m @ data)"
proof -
  from assms(1) obtain full rest where m: "m = full @ rest" and st: "sm3_state ctx full rest"
    by (auto simp: sm3_repr_def)
  define n where "n = length rest"
  have n: "n < 64" "sm3_num ctx = of_nat n" "unat (sm3_num ctx) = n"
    using st by (auto simp: sm3_state_def n_def unat_of_nat_u32)
  show ?thesis
  proof (cases "n = 0")
    case True
    then have "sm3_state ctx full []" "rest = []" using st by (simp_all add: n_def)
    with sm3_update_blocks_repr [of ctx full data] len True n m show ?thesis
      by (simp add: sm3_update_def)
  next
    case False
    have left: "unat (of_nat SM3_BLOCK_SIZE - sm3_num ctx) = 64 - n"
      using n by (simp add: SM3_BLOCK_SIZE_def n(2) unat_sub word_le_nat_alt unat_of_nat_u32)
    have num: "sm3_num ctx \<noteq> 0" using False n(3) by auto
    show ?thesis
    proof (cases "length data < 64 - n")
      case True
      have "sm3_state (sm3_update ctx data) full (rest @ data)"
        using st True n num left by (simp add: sm3_update_def sm3_state_def Let_def memcpy_at_def n_def [symmetric])
      with m show ?thesis by (auto simp: sm3_repr_def)
    next
      case False
      define b where "b = rest @ take (64 - n) data"
      have b: "length b = 64" "memcpy_at (sm3_block ctx) n (take (64 - n) data) = b"
        using st False n by (auto simp: b_def memcpy_at_def sm3_state_def n_def)
      define c where "c = ctx\<lparr>sm3_block := b, sm3_digest := sm3_compress (sm3_digest ctx) b 1,
        sm3_nblocks := sm3_nblocks ctx + 1, sm3_num := 0\<rparr>"
      have "sm3_state c (full @ b) []"
        using st b(1) by (simp add: c_def sm3_state_def sm3_blocks_append sm3_compress_one
            div_plus_div_distrib_dvd_left)
      from sm3_update_blocks_repr [OF this, of "drop (64 - n) data"] len
      have "sm3_repr (sm3_update_blocks c (drop (64 - n) data)) ((full @ b) @ drop (64 - n) data)"
        by simp
      moreover have "sm3_update ctx data = sm3_update_blocks c (drop (64 - n) data)"
        using False num left b(2) n(3) by (simp add: sm3_update_def Let_def c_def)
      ultimately show ?thesis by (simp add: m b_def)
    qed
  qed
qed

text \<open>The two length words are the bit length of the input, big-endian.\<close>

lemma be_bytes_8: "be_bytes 8 x = be_bytes 4 (x div 2 ^ 32) @ be_bytes 4 (x mod 2 ^ 32)"
proof -
  have u: "[0..<8] = [0, 1, 2, 3, 4, 5, 6, 7 :: nat]" by code_simp
  have *: "(of_nat (x mod 4294967296 div 2 ^ n) :: u8) = of_nat (x div 2 ^ n)" if n: "n \<le> 24" for n
  proof -
    obtain k where k: "(2 ^ 32 :: nat) = 2 ^ n * (256 * k)"
    proof
      have "32 = n + (8 + (24 - n))" using n by simp
      then have "(2 ^ 32 :: nat) = 2 ^ (n + (8 + (24 - n)))" by (rule arg_cong)
      then show "(2 ^ 32 :: nat) = 2 ^ n * (256 * 2 ^ (24 - n))" by (simp only: power_add) simp
    qed
    have "x mod 2 ^ 32 div 2 ^ n mod 256 = x div 2 ^ n mod 256"
      unfolding k by (simp add: mod_mult2_eq)
    then show ?thesis by (simp add: word_unat_eq_iff unsigned_of_nat take_bit_eq_mod)
  qed
  from * [of 0] * [of 8] * [of 16] * [of 24] show ?thesis
    unfolding be_bytes_4 by (simp add: be_bytes_def u div_mult2_eq [symmetric])
qed

lemma sm3_counts:
  assumes "64 dvd length full" and "n < 64" and "length full + n < 2 ^ 38"
  defines "k \<equiv> of_nat (length full div 64) :: u32"
  shows "unat (drop_bit 23 k) = 8 * (length full + n) div 2 ^ 32"
    and "unat (push_bit 9 k + push_bit 3 (of_nat n)) = 8 * (length full + n) mod 2 ^ 32"
proof -
  obtain q where q: "length full = 64 * q" using assms(1) by blast
  have k: "k = of_nat q" "unat k = q" using q assms(3) by (simp_all add: k_def unat_of_nat_u32)
  have "q div 2 ^ 23 = (512 * q + 8 * n) div 2 ^ 32"
  proof -
    have "(512 * q + 8 * n) div 2 ^ 32 = (512 * q + 8 * n) div 512 div 2 ^ 23"
      by (simp add: div_mult2_eq [symmetric])
    also have "(512 * q + 8 * n) div 512 = q" using assms(2) by simp
    finally show ?thesis ..
  qed
  then show "unat (drop_bit 23 k) = 8 * (length full + n) div 2 ^ 32"
    by (simp add: unat_drop_bit_div k(2) q)
  have "push_bit 9 k + push_bit 3 (of_nat n) = (of_nat (8 * (length full + n)) :: u32)"
    by (simp add: push_bit_eq_mult k(1) q)
  then show "unat (push_bit 9 k + push_bit 3 (of_nat n)) = 8 * (length full + n) mod 2 ^ 32"
    by (simp only: unsigned_of_nat) (simp add: take_bit_eq_mod)
qed

lemma sm3_digest_out: "concat (map (\<lambda>i. store32_le (cpu_to_be32 (V ! i))) [0..<8]) =
    concat (map (\<lambda>w. be_bytes 4 (unat w)) V)" if "length V = 8"
proof -
  have "map (\<lambda>i. store32_le (cpu_to_be32 (V ! i))) [0..<8] = map (\<lambda>w. be_bytes 4 (unat w)) V"
    by (rule nth_equalityI) (use that in \<open>simp_all add: store_cpu_to_be32 del: upt_rec_numeral\<close>)
  then show ?thesis by simp
qed

lemma length_be_bytes [simp]: "length (be_bytes n x) = n"
  by (simp add: be_bytes_def)

lemma write_counts:
  assumes "length blk = 64" and "length c0 = 4" and "length c1 = 4"
  shows "memcpy_at (memcpy_at blk (SM3_BLOCK_SIZE - 8) c0) (SM3_BLOCK_SIZE - 4) c1 = take 56 blk @ c0 @ c1"
  using assms by (simp add: memcpy_at_def SM3_BLOCK_SIZE_def)

lemma length_store32_le [simp]: "length (store32_le v) = 4"
  by (simp add: store32_le_def)

text \<open>The block buffer when \<open>sm3_final\<close> compresses it, if the length fits and if it does not.\<close>

lemma last_block_short:
  assumes "length pre = 64" and "take (Suc n) pre = rest @ [0x80]" and n: "n = length rest" "n + 9 \<le> 64"
  shows "memcpy_at (memcpy_at (memcpy_at pre (n + 1) (replicate (SM3_BLOCK_SIZE - n - 9) 0))
      (SM3_BLOCK_SIZE - 8) (store32_le c0)) (SM3_BLOCK_SIZE - 4) (store32_le c1) =
    rest @ [0x80] @ replicate (55 - n) 0 @ store32_le c0 @ store32_le c1"
proof -
  define X where "X = rest @ [0x80 :: u8] @ replicate (55 - n) 0"
  have X: "length X = 56" using n by (simp add: X_def)
  have "memcpy_at pre (n + 1) (replicate (SM3_BLOCK_SIZE - n - 9) 0) = X @ drop 56 pre"
    unfolding memcpy_at_def SM3_BLOCK_SIZE_def using assms by (simp add: X_def)
  then have "memcpy_at (memcpy_at (memcpy_at pre (n + 1) (replicate (SM3_BLOCK_SIZE - n - 9) 0))
      (SM3_BLOCK_SIZE - 8) (store32_le c0)) (SM3_BLOCK_SIZE - 4) (store32_le c1) =
    take 56 (X @ drop 56 pre) @ store32_le c0 @ store32_le c1"
    using X assms(1) by (simp only:, subst write_counts) simp_all
  also have "take 56 (X @ drop 56 pre) = X" using X by simp
  finally show ?thesis by (simp add: X_def)
qed

lemma last_block_long:
  assumes "length pre = 64" and "take (Suc n) pre = rest @ [0x80]" and n: "n = length rest" "n < 64"
  shows "memcpy_at pre (n + 1) (replicate (SM3_BLOCK_SIZE - n - 1) 0) = rest @ [0x80] @ replicate (63 - n) 0"
  unfolding memcpy_at_def SM3_BLOCK_SIZE_def using assms by simp

lemma last_block_zero:
  assumes "length b = 64"
  shows "memcpy_at (memcpy_at (memcpy_at b 0 (replicate (SM3_BLOCK_SIZE - 8) 0))
      (SM3_BLOCK_SIZE - 8) (store32_le c0)) (SM3_BLOCK_SIZE - 4) (store32_le c1) =
    replicate 56 0 @ store32_le c0 @ store32_le c1"
  using assms by (subst write_counts) (simp_all add: SM3_BLOCK_SIZE_def memcpy_at_def)

lemma sm3_pad_full:
  assumes "64 dvd length full" and "n = length rest" and "n < 64"
  shows "sm3_pad (full @ rest) =
    (if n + 9 \<le> 64 then full @ rest @ [0x80] @ replicate (55 - n) 0 @ be_bytes 8 (8 * (length full + n))
     else full @ (rest @ [0x80] @ replicate (63 - n) 0) @ replicate 56 0 @ be_bytes 8 (8 * (length full + n)))"
proof (cases "n + 9 \<le> 64")
  case True
  then have "119 - n = (55 - n) + 64" by simp
  then have "(119 - n) mod 64 = ((55 - n) + 64) mod 64" by (rule arg_cong)
  also have "\<dots> = (55 - n) mod 64" by (rule mod_add_self2)
  also have "\<dots> = 55 - n" by (rule mod_less) simp
  finally have "(119 - n) mod 64 = 55 - n" .
  moreover have "length (full @ rest) mod 64 = n" using assms by auto
  ultimately show ?thesis using True assms(2) by (simp only: sm3_pad_def if_True) simp
next
  case False
  then have "(119 - n) mod 64 = (63 - n) + 56" using assms(3) by simp
  moreover have "length (full @ rest) mod 64 = n" using assms by auto
  ultimately show ?thesis using False assms(2)
    by (simp only: sm3_pad_def if_False replicate_add) simp
qed

lemma sm3_num_9:
  assumes "n < 64"
  shows "((of_nat n :: u32) + 9 \<le> of_nat SM3_BLOCK_SIZE) = (n + 9 \<le> 64)"
proof -
  have "unat (of_nat (n + 9) :: u32) = n + 9" using assms by (intro unat_of_nat_u32) simp
  then have "unat ((of_nat n :: u32) + 9) = n + 9" by simp
  then show ?thesis by (simp add: word_le_nat_alt SM3_BLOCK_SIZE_def)
qed

lemma sm3_final_state:
  assumes st: "sm3_state ctx full rest" and len: "length full + length rest < 2 ^ 38"
  obtains c where "sm3_final ctx = (c, concat (map (\<lambda>i. store32_le (cpu_to_be32 (sm3_digest c ! i))) [0..<8]))"
    and "length (sm3_block c) = 64" and "sm3_digest c = sm3_CFs (sm3_pad (full @ rest)) sm3_IV"
proof -
  define n where "n = length rest"
  have n: "n < 64" "sm3_num ctx = of_nat n" "unat (sm3_num ctx) = n"
    using st by (auto simp: sm3_state_def n_def unat_of_nat_u32)
  have full: "64 dvd length full" and dg: "sm3_digest ctx = sm3_CFs full sm3_IV"
    using st by (simp_all add: sm3_state_def)
  define B where "B = be_bytes 8 (8 * (length full + n))"
  have cnt: "store32_le (cpu_to_be32 (drop_bit 23 (sm3_nblocks ctx))) @
      store32_le (cpu_to_be32 (push_bit 9 (sm3_nblocks ctx) + push_bit 3 (sm3_num ctx))) = B"
    using sm3_counts [OF full n(1)] len st unfolding n(2) store_cpu_to_be32 be_bytes_8 B_def
    by (simp add: n_def sm3_state_def)
  have lB: "length B = 8" by (simp add: B_def)
  define pre where "pre = (sm3_block ctx)[n := 0x80]"
  have pre: "length pre = 64" "take (Suc n) pre = rest @ [0x80]"
    using st n(1) by (simp_all add: pre_def take_Suc_conv_app_nth sm3_state_def n_def)
  note pad = sm3_pad_full [OF full n_def n(1), folded B_def] and le = sm3_num_9 [OF n(1)]
  show thesis
  proof (cases "n + 9 \<le> 64")
    case True
    let ?last = "rest @ [0x80] @ replicate (55 - n) 0 @ B"
    have "length ?last = 64" using True lB by (simp add: n_def)
    moreover have "sm3_final ctx = (let c = ctx\<lparr>sm3_block := ?last, sm3_digest := sm3_compress (sm3_digest ctx) ?last 1\<rparr>
        in (c, concat (map (\<lambda>i. store32_le (cpu_to_be32 (sm3_digest c ! i))) [0..<8])))"
      using True cnt [unfolded n(2)] last_block_short [OF pre n_def True]
      by (simp add: sm3_final_def Let_def n(2) le n(3) [unfolded n(2)] pre_def [symmetric] del: upt_rec_numeral)
    ultimately show thesis using that True full dg
      by (simp add: Let_def sm3_compress_one pad sm3_blocks_append del: upt_rec_numeral)
  next
    case False
    let ?b1 = "rest @ [0x80] @ replicate (63 - n) 0" and ?last = "replicate 56 0 @ B"
    have l: "length ?b1 = 64" "length ?last = 64" using n(1) lB by (simp_all add: n_def)
    moreover have "sm3_final ctx = (let c = ctx\<lparr>sm3_block := ?last,
        sm3_digest := sm3_compress (sm3_compress (sm3_digest ctx) ?b1 1) ?last 1\<rparr>
        in (c, concat (map (\<lambda>i. store32_le (cpu_to_be32 (sm3_digest c ! i))) [0..<8])))"
      using False cnt [unfolded n(2)] last_block_long [OF pre n_def n(1)] last_block_zero [OF l(1)]
      by (simp add: sm3_final_def Let_def n(2) le n(3) [unfolded n(2)] pre_def [symmetric] del: upt_rec_numeral)
    moreover have "sm3_CFs (sm3_pad (full @ rest)) sm3_IV = sm3_CFs ?last (sm3_CFs ?b1 (sm3_digest ctx))"
      using False full l dg by (simp only: pad if_False sm3_blocks_append fold_append comp_apply dvd_refl)
    moreover have "sm3_compress (sm3_compress (sm3_digest ctx) ?b1 1) ?last 1 = sm3_CFs ?last (sm3_CFs ?b1 (sm3_digest ctx))"
      using l dg by (simp only: sm3_compress_one length_sm3_CFs length_sm3_IV)
    ultimately show thesis using that by (simp add: Let_def del: upt_rec_numeral)
  qed
qed

lemma sm3_final_repr:
  assumes "sm3_repr ctx m" and len: "length m < 2 ^ 38"
  shows "snd (sm3_final ctx) = sm3_hash m" and "length (sm3_block (fst (sm3_final ctx))) = 64"
proof -
  from assms obtain full rest where m: "m = full @ rest" and "sm3_state ctx full rest"
    and "length full + length rest < 2 ^ 38" by (auto simp: sm3_repr_def)
  then obtain c where "sm3_final ctx = (c, concat (map (\<lambda>i. store32_le (cpu_to_be32 (sm3_digest c ! i))) [0..<8]))"
    "length (sm3_block c) = 64" "sm3_digest c = sm3_CFs (sm3_pad m) sm3_IV"
    using sm3_final_state [of ctx full rest] by blast
  then show "snd (sm3_final ctx) = sm3_hash m" "length (sm3_block (fst (sm3_final ctx))) = 64"
    using sm3_digest_out [of "sm3_digest c"] by (simp_all add: sm3_hash_def del: upt_rec_numeral)
qed

lemma sm3_repr_updates:
  assumes "sm3_repr ctx m" and "\<And>c. c \<in> set cs \<Longrightarrow> length c < 2 ^ 32"
  shows "sm3_repr (fold (\<lambda>c ctx. sm3_update ctx c) cs ctx) (m @ concat cs)"
  using assms
proof (induction cs arbitrary: ctx m)
  case (Cons c cs)
  then show ?case using sm3_update_repr [of ctx m c] Cons.IH [of "sm3_update ctx c" "m @ c"] by simp
qed simp

lemma sm3_chunks:
  assumes "length (sm3_block ctx) = 64" and "\<And>c. c \<in> set cs \<Longrightarrow> length c < 2 ^ 32"
    and "length (concat cs) < 2 ^ 38"
  shows "snd (sm3_final (fold (\<lambda>c ctx. sm3_update ctx c) cs (sm3_init ctx))) = sm3_hash (concat cs)"
  using sm3_final_repr(1) [of _ "concat cs"] sm3_repr_updates [OF sm3_repr_init [OF assms(1)], of cs] assms(2,3)
  by simp

lemma sm3_eq_hash:
  assumes "length (sm3_block ctx) = 64" and "length m < 2 ^ 32"
  shows "sm3 ctx m = sm3_hash m"
  using sm3_chunks [OF assms(1), of "[m]"] assms(2) by (simp add: sm3_def case_prod_beta)

lemma length_sm3_hash [simp]: "length (sm3_hash m) = 32"
proof -
  have "length (sm3_CFs (sm3_pad m) sm3_IV) = 8" by simp
  then show ?thesis unfolding sm3_hash_def by (rule list8) simp
qed

text \<open>
  The offset of the bytes left over is a 32-bit variable.  For an input of 4 GiB or more the bytes
  that are buffered at the end come from the wrong place.
\<close>

lemma sm3_compress_cong:
  assumes "\<And>i. i < unat n \<Longrightarrow> bslice (i * 64) 64 a = bslice (i * 64) 64 b"
  shows "sm3_compress V a n = sm3_compress V b n"
proof -
  have "fold (\<lambda>i. sm3_compress_block (bslice (i * 64) 64 a)) [0..<unat n] =
      fold (\<lambda>i. sm3_compress_block (bslice (i * 64) 64 b)) [0..<unat n]"
    by (rule ext) (rule fold_cong; use assms in simp)
  then show ?thesis by (simp add: sm3_compress_def SM3_BLOCK_SIZE_def)
qed

lemma sm3_update_blocks_offset:
  assumes "length m = 2 ^ 32"
  shows "sm3_update_blocks ctx (m @ [x]) = sm3_update_blocks ctx (m @ [y])"
proof -
  have len: "length (m @ [z]) = 4294967297" for z using assms by simp
  have "bslice (i * 64) 64 (m @ [x]) = bslice (i * 64) 64 (m @ [y])" if "i < unat (67108864 :: u32)" for i
  proof -
    have "i * 64 + 64 \<le> length m" using that assms by simp
    then show ?thesis by (simp add: bslice_def)
  qed
  then have *: "sm3_compress V (m @ [x]) 67108864 = sm3_compress V (m @ [y]) 67108864" for V
    by (rule sm3_compress_cong)
  have "m \<noteq> []" using assms by auto
  then have "take 1 (m @ [x]) = take 1 (m @ [y])" by (cases m) simp_all
  then show ?thesis
    unfolding sm3_update_blocks_def len SM3_BLOCK_SIZE_def Let_def
    by (simp add: bslice_def *)
qed

section \<open>HMAC\<close>

text \<open>HMAC as RFC 2104 defines it, with block size 64.\<close>

definition hmac_block :: "bytes \<Rightarrow> bytes" where
  "hmac_block k = (let k' = (if length k \<le> 64 then k else sm3_hash k) in k' @ replicate (64 - length k') 0)"

definition hmac_spec :: "bytes \<Rightarrow> bytes \<Rightarrow> bytes" where
  "hmac_spec k m = sm3_hash (map (\<lambda>b. b XOR OPAD) (hmac_block k) @ sm3_hash (map (\<lambda>b. b XOR IPAD) (hmac_block k) @ m))"

lemma length_hmac_block [simp]: "length (hmac_block k) = 64"
  by (simp add: hmac_block_def Let_def)

lemma sm3_length_block [simp]:
  "length (sm3_block ctx) = 64 \<Longrightarrow> length (sm3_block (sm3_init ctx)) = 64"
  by (simp add: sm3_init_def)

lemma sm3_repr_length: "sm3_repr ctx m \<Longrightarrow> length (sm3_block ctx) = 64"
  by (auto simp: sm3_repr_def sm3_state_def)

lemma sm3_hmac_init_repr:
  assumes "length (sm3_block (sm3_ctx ctx)) = 64" and "length (hmac_key ctx) = 64" and "length k < 2 ^ 32"
  shows "hmac_key (sm3_hmac_init ctx k) = map (\<lambda>b. b XOR IPAD) (hmac_block k)"
    and "sm3_repr (sm3_ctx (sm3_hmac_init ctx k)) (map (\<lambda>b. b XOR IPAD) (hmac_block k))"
proof -
  have "hmac_key (sm3_hmac_init ctx k) = map (\<lambda>b. b XOR IPAD) (hmac_block k) \<and>
    sm3_repr (sm3_ctx (sm3_hmac_init ctx k)) (map (\<lambda>b. b XOR IPAD) (hmac_block k))"
  proof (cases "length k \<le> 64")
    case True
    have "memcpy_at (memcpy_at (hmac_key ctx) 0 k) (length k) (replicate (64 - length k) 0) = hmac_block k"
      using True assms(2) by (simp add: memcpy_at_def hmac_block_def)
    then show ?thesis
      using True sm3_update_repr [OF sm3_repr_init [OF assms(1)], of "map (\<lambda>b. b XOR IPAD) (hmac_block k)"]
      by (simp add: sm3_hmac_init_def Let_def SM3_BLOCK_SIZE_def)
  next
    case False
    define c where "c = sm3_update (sm3_init (sm3_ctx ctx)) k"
    obtain c' d where f: "sm3_final c = (c', d)" by fastforce
    have "sm3_repr c k"
      using sm3_update_repr [OF sm3_repr_init [OF assms(1)] assms(3)] by (simp add: c_def)
    then have d: "d = sm3_hash k" "length (sm3_block c') = 64"
      using sm3_final_repr [of c k] assms(3) f by simp_all
    then have "memcpy_at (memcpy_at (hmac_key ctx) 0 d) SM3_DIGEST_LENGTH
        (replicate (SM3_BLOCK_SIZE - SM3_DIGEST_LENGTH) 0) = hmac_block k"
      using False assms(2) by (simp add: memcpy_at_def hmac_block_def SM3_DIGEST_LENGTH_def SM3_BLOCK_SIZE_def)
    then show ?thesis
      using False sm3_update_repr [OF sm3_repr_init [OF d(2)], of "map (\<lambda>b. b XOR IPAD) (hmac_block k)"]
      by (simp add: sm3_hmac_init_def Let_def SM3_BLOCK_SIZE_def c_def [symmetric] f)
  qed
  then show "hmac_key (sm3_hmac_init ctx k) = map (\<lambda>b. b XOR IPAD) (hmac_block k)"
    and "sm3_repr (sm3_ctx (sm3_hmac_init ctx k)) (map (\<lambda>b. b XOR IPAD) (hmac_block k))" by simp_all
qed

lemma sm3_hmac_final_repr:
  assumes k: "hmac_key ctx = map (\<lambda>b. b XOR IPAD) k" "length k = 64"
    and m: "sm3_repr (sm3_ctx ctx) m" "length m < 2 ^ 38"
  shows "snd (sm3_hmac_final ctx) = sm3_hash (map (\<lambda>b. b XOR OPAD) k @ sm3_hash m)"
proof -
  obtain c d where f: "sm3_final (sm3_ctx ctx) = (c, d)" by fastforce
  have d: "d = sm3_hash m" "length (sm3_block c) = 64" using sm3_final_repr [OF m] f by simp_all
  have o: "map (\<lambda>b. b XOR (IPAD XOR OPAD)) (hmac_key ctx) = map (\<lambda>b. b XOR OPAD) k"
  proof -
    have "(b XOR IPAD) XOR (IPAD XOR OPAD) = b XOR OPAD" for b
      by (metis xor.assoc xor_self_eq xor.left_neutral)
    then show ?thesis by (simp add: k(1))
  qed
  have "sm3_repr (sm3_update (sm3_update (sm3_init c) (map (\<lambda>b. b XOR OPAD) k)) d) (map (\<lambda>b. b XOR OPAD) k @ d)"
    using sm3_update_repr [OF sm3_update_repr [OF sm3_repr_init [OF d(2)], of "map (\<lambda>b. b XOR OPAD) k"], of d]
      k(2) d(1) by simp
  from sm3_final_repr(1) [OF this] show ?thesis
    using k(2) d(1) by (simp add: sm3_hmac_final_def Let_def f o case_prod_beta)
qed

lemma sm3_hmac_spec:
  assumes "length (sm3_block (sm3_ctx ctx)) = 64" and "length (hmac_key ctx) = 64"
    and "length k < 2 ^ 32" and "length m < 2 ^ 32"
  shows "sm3_hmac ctx m k = hmac_spec k m"
proof -
  note i = sm3_hmac_init_repr [OF assms(1-3)]
  from sm3_update_repr [OF i(2) assms(4)]
  have "snd (sm3_hmac_final (sm3_hmac_update (sm3_hmac_init ctx k) m)) = hmac_spec k m"
    using sm3_hmac_final_repr [of "sm3_hmac_update (sm3_hmac_init ctx k) m" "hmac_block k"
        "map (\<lambda>b. b XOR IPAD) (hmac_block k) @ m"] i(1) assms(4)
    by (simp add: sm3_hmac_update_def hmac_spec_def)
  then show ?thesis by (simp add: sm3_hmac_def case_prod_beta)
qed

end
