(* ===== verification/Sm3_Mgf.thy ===== *)
theory Sm3_Mgf
  imports Sm3_Stream
begin

text \<open>
  Extendable output from SM3: \<open>mgf1_sm3\<close> (\<open>pqmagic/hash/sm3/mgf_sm3.c\<close>) and \<open>sm3_extended\<close>
  (\<open>sm3_extended.c\<close>).  Both are prefixes of a counter-mode stream.  \<open>mgf1_sm3\<close> counts with 32-bit
  integers, and its loop ends exactly when fewer than \<open>2^32 - 32\<close> bytes are asked for.
\<close>

section \<open>The code\<close>

text \<open>
  The contents of a local \<open>SM3_CTX\<close> before \<open>sm3_init\<close>; they do not matter (\<open>sm3_local_eq\<close>).
\<close>

definition sm3_local :: SM3_CTX where
  "sm3_local = \<lparr>sm3_digest = replicate 8 0, sm3_nblocks = 0, sm3_block = replicate 64 0, sm3_num = 0\<rparr>"

definition mgf_u32_to_bytes :: "u32 \<Rightarrow> bytes" where
  "mgf_u32_to_bytes x = [ucast (drop_bit 24 x), ucast (drop_bit 16 x), ucast (drop_bit 8 x), ucast x]"

text \<open>
  The counter \<open>i\<close> and the product \<open>(i+1)*SM3_DIGEST_LENGTH\<close> are 32-bit; for large \<open>outlen\<close> the loop
  does not end.
\<close>

partial_function (option) mgf1_sm3_loop :: "nat \<Rightarrow> bytes \<Rightarrow> u32 \<Rightarrow> bytes \<Rightarrow> (bytes \<times> u32) option" where
  "mgf1_sm3_loop outlen inp i out =
     (if unat ((i + 1) * of_nat SM3_DIGEST_LENGTH) \<le> outlen
      then mgf1_sm3_loop outlen inp (i + 1) (out @ sm3 sm3_local (inp @ mgf_u32_to_bytes i))
      else Some (out, i))"

declare mgf1_sm3_loop.simps [code]

definition mgf1_sm3 :: "nat \<Rightarrow> bytes \<Rightarrow> bytes option" where
  "mgf1_sm3 outlen inp =
     (case mgf1_sm3_loop outlen inp 0 [] of
        None \<Rightarrow> None
      | Some (out, i) \<Rightarrow>
          if outlen > unat (i * of_nat SM3_DIGEST_LENGTH)
          then let outbuf = sm3 sm3_local (inp @ mgf_u32_to_bytes i)
               in Some (out @ take (outlen - unat (i * of_nat SM3_DIGEST_LENGTH)) outbuf)
          else Some out)"

definition add_nonce :: "u32 \<Rightarrow> bytes" where
  "add_nonce nonce = [ucast (drop_bit 24 nonce) AND 0xff, ucast (drop_bit 16 nonce) AND 0xff,
     ucast (drop_bit 8 nonce) AND 0xff, ucast nonce AND 0xff]"

function sm3_extended_loop :: "bytes \<Rightarrow> int \<Rightarrow> u32 \<Rightarrow> bytes \<Rightarrow> bytes" where
  "sm3_extended_loop inp running_outlen nonce running_res =
     (if running_outlen > 0
      then sm3_extended_loop inp (running_outlen - int SM3_DIGEST_LENGTH) (nonce + 1)
             (running_res @ sm3 sm3_local (add_nonce nonce @ inp))
      else running_res)"
  by pat_completeness auto
termination
  by (relation "measure (\<lambda>(inp, n, nonce, res). nat n)") (auto simp: SM3_DIGEST_LENGTH_def)

declare sm3_extended_loop.simps [simp del]

definition sm3_extended :: "nat \<Rightarrow> bytes \<Rightarrow> bytes" where
  "sm3_extended outlen inp = take outlen (sm3_extended_loop inp (int outlen) 0 [])"

section \<open>Counter mode\<close>

lemma sm3_local_eq: "length m < 2 ^ 32 \<Longrightarrow> length (sm3_block ctx) = 64 \<Longrightarrow> sm3 ctx m = sm3 sm3_local m"
  by (simp add: sm3_eq_hash sm3_local_def)

text \<open>The stream both functions cut off: the hashes of the input with a big-endian counter.\<close>

definition ctr_stream :: "(nat \<Rightarrow> bytes) \<Rightarrow> nat \<Rightarrow> bytes" where
  "ctr_stream blk n = take n (concat (map blk [0..<(n + 31) div 32]))"

lemma mgf_counter: "n < 2 ^ 32 \<Longrightarrow> mgf_u32_to_bytes (of_nat n) = be_bytes 4 n"
  using byte_of_unat [of "of_nat n" 24] byte_of_unat [of "of_nat n" 16] byte_of_unat [of "of_nat n" 8]
    byte_of_unat [of "of_nat n" 0]
  by (simp add: mgf_u32_to_bytes_def be_bytes_4 unat_of_nat_u32)

lemma add_nonce_counter: "add_nonce x = mgf_u32_to_bytes x"
proof -
  have "(0xff :: u8) = -1" by simp
  then show ?thesis by (simp only: add_nonce_def mgf_u32_to_bytes_def and.right_neutral)
qed

lemma length_mgf_u32_to_bytes [simp]: "length (mgf_u32_to_bytes x) = 4"
  by (simp add: mgf_u32_to_bytes_def)

lemma sm3_local_hash: "length m < 2 ^ 32 \<Longrightarrow> sm3 sm3_local m = sm3_hash m"
  by (simp add: sm3_eq_hash sm3_local_def)

text \<open>The loop stops exactly when the output is a little shorter than 4 GiB.\<close>

lemma mgf1_step_no_wrap:
  assumes "32 * (k + 1) < 2 ^ 32"
  shows "unat ((of_nat k + 1) * of_nat SM3_DIGEST_LENGTH :: u32) = 32 * (k + 1)"
proof -
  have "(of_nat k + 1) * of_nat SM3_DIGEST_LENGTH = (of_nat (32 * (k + 1)) :: u32)"
    by (simp add: SM3_DIGEST_LENGTH_def algebra_simps)
  then show ?thesis using assms by (simp only: unat_of_nat_u32)
qed

lemma mgf1_sm3_loop_terminates:
  assumes "outlen < 2 ^ 32 - 32" and "k \<le> outlen div 32"
  shows "mgf1_sm3_loop outlen inp (of_nat k) out =
    Some (out @ concat (map (\<lambda>i. sm3 sm3_local (inp @ mgf_u32_to_bytes (of_nat i))) [k..<outlen div 32]),
      of_nat (outlen div 32))"
  using assms(2)
proof (induction "outlen div 32 - k" arbitrary: k out)
  case 0
  then have k: "k = outlen div 32" by simp
  have "outlen < 32 * (k + 1)" "32 * (k + 1) < 2 ^ 32" using assms(1) unfolding k by simp_all
  then show ?case using mgf1_step_no_wrap [of k] by (subst mgf1_sm3_loop.simps) (simp add: k)
next
  case (Suc d)
  then have lt: "k < outlen div 32" by simp
  then have "32 * (k + 1) \<le> outlen" "32 * (k + 1) < 2 ^ 32" using assms(1) by simp_all
  moreover have "[k..<outlen div 32] = k # [Suc k..<outlen div 32]" using lt by (simp add: upt_conv_Cons)
  moreover have "of_nat k + 1 = (of_nat (Suc k) :: u32)" by simp
  ultimately show ?case
    using mgf1_step_no_wrap [of k] Suc.hyps(1) [of "Suc k"] Suc.hyps(2) lt
    by (subst mgf1_sm3_loop.simps) (simp del: of_nat_Suc)
qed

lemma mgf1_sm3_loop_returns:
  assumes "mgf1_sm3_loop outlen inp i out = Some y"
  shows "outlen < 2 ^ 32 - 32"
proof (rule mgf1_sm3_loop.raw_induct [of "\<lambda>outlen inp i out y. outlen < 2 ^ 32 - 32", OF _ assms])
  fix loop :: "nat \<Rightarrow> bytes \<Rightarrow> u32 \<Rightarrow> bytes \<Rightarrow> (bytes \<times> u32) option" and outlen inp i out y
  assume IH: "\<And>outlen inp i out y. loop outlen inp i out = Some y \<Longrightarrow> outlen < 2 ^ 32 - 32"
    and eq: "(if unat ((i + 1) * of_nat SM3_DIGEST_LENGTH) \<le> outlen
      then loop outlen inp (i + 1) (out @ sm3 sm3_local (inp @ mgf_u32_to_bytes i))
      else Some (out, i)) = Some y"
  show "outlen < 2 ^ 32 - 32"
  proof (cases "unat ((i + 1) * of_nat SM3_DIGEST_LENGTH) \<le> outlen")
    case True
    with eq have "loop outlen inp (i + 1) (out @ sm3 sm3_local (inp @ mgf_u32_to_bytes i)) = Some y" by simp
    then show ?thesis by (rule IH)
  next
    case False
    define v w where "v = i + 1" and "w = unat v"
    have "unat ((i + 1) * of_nat SM3_DIGEST_LENGTH) = (w * 32) mod 2 ^ 32"
      unfolding v_def [symmetric] w_def by (simp add: SM3_DIGEST_LENGTH_def unat_word_ariths)
    also have "\<dots> = 32 * (w mod 2 ^ 27)"
      using mod_mult_mult2 [of w 32 "2 ^ 27"] by simp
    finally have "unat ((i + 1) * of_nat SM3_DIGEST_LENGTH) = 32 * (w mod 2 ^ 27)" .
    moreover have "w mod 2 ^ 27 < 2 ^ 27" by (rule mod_less_divisor) simp
    ultimately show ?thesis using False by simp
  qed
qed

lemma mgf1_sm3_returns_iff: "(\<exists>out. mgf1_sm3 outlen inp = Some out) \<longleftrightarrow> outlen < 2 ^ 32 - 32"
proof
  assume "\<exists>out. mgf1_sm3 outlen inp = Some out"
  then obtain y where "mgf1_sm3_loop outlen inp 0 [] = Some y"
    by (auto simp: mgf1_sm3_def split: option.splits)
  then show "outlen < 2 ^ 32 - 32" by (rule mgf1_sm3_loop_returns)
next
  assume "outlen < 2 ^ 32 - 32"
  from mgf1_sm3_loop_terminates [OF this, of 0 inp "[]"]
  show "\<exists>out. mgf1_sm3 outlen inp = Some out" by (simp add: mgf1_sm3_def)
qed

lemma length_concat_32:
  "(\<And>i. length (blk i) = 32) \<Longrightarrow> length (concat (map blk [0..<k])) = 32 * k"
  by (induction k) simp_all

text \<open>A full number of blocks and the remainder are a prefix of the stream.\<close>

lemma ctr_stream_split:
  assumes "\<And>i. length (blk i) = 32"
  shows "ctr_stream blk n = concat (map blk [0..<n div 32]) @ (if n mod 32 = 0 then [] else take (n mod 32) (blk (n div 32)))"
proof -
  define q r where "q = n div 32" and "r = n mod 32"
  have n: "n = 32 * q + r" "r < 32" by (simp_all add: q_def r_def)
  have "(n + 31) div 32 = (if r = 0 then q else Suc q)" using n by auto
  then show ?thesis
    using n assms length_concat_32 [where blk = blk and k = q] unfolding q_def [symmetric] r_def [symmetric]
    by (auto simp: ctr_stream_def)
qed

lemma mgf1_sm3_stream:
  assumes "outlen < 2 ^ 32 - 32" and "length inp + 4 < 2 ^ 32"
  shows "mgf1_sm3 outlen inp = Some (ctr_stream (\<lambda>i. sm3_hash (inp @ be_bytes 4 i)) outlen)"
proof -
  let ?q = "outlen div 32" and ?h = "\<lambda>i. sm3_hash (inp @ be_bytes 4 i)"
  have h: "sm3 sm3_local (inp @ mgf_u32_to_bytes (of_nat i)) = ?h i" if "i \<le> ?q" for i
  proof -
    have "i < 2 ^ 32" using that assms(1) by simp
    then show ?thesis using assms(2) by (simp add: sm3_local_hash mgf_counter)
  qed
  then have "map (\<lambda>i. sm3 sm3_local (inp @ mgf_u32_to_bytes (of_nat i))) [0..<?q] = map ?h [0..<?q]"
    by simp
  with mgf1_sm3_loop_terminates [OF assms(1), of 0 inp "[]"]
  have l: "mgf1_sm3_loop outlen inp 0 [] = Some (concat (map ?h [0..<?q]), of_nat ?q)" by simp
  have u: "unat (of_nat ?q * of_nat SM3_DIGEST_LENGTH :: u32) = 32 * ?q"
  proof -
    have "of_nat ?q * of_nat SM3_DIGEST_LENGTH = (of_nat (32 * ?q) :: u32)"
      by (simp add: SM3_DIGEST_LENGTH_def mult.commute)
    moreover have "32 * ?q < 2 ^ 32" using assms(1) by simp
    ultimately show ?thesis by (simp only: unat_of_nat_u32)
  qed
  have r: "outlen - 32 * ?q = outlen mod 32" by (simp add: minus_mult_div_eq_mod)
  have "(32 * ?q < outlen) = (outlen mod 32 \<noteq> 0)" using r by linarith
  then show ?thesis
    by (simp add: mgf1_sm3_def l u h r ctr_stream_split del: mod_mod_trivial)
qed

lemma sm3_extended_loop_stream:
  assumes "length inp + 4 < 2 ^ 32" and "b = nat ((n + 31) div 32)" and "k + b \<le> 2 ^ 32"
  shows "sm3_extended_loop inp n (of_nat k) out = out @ concat (map (\<lambda>i. sm3_hash (be_bytes 4 i @ inp)) [k..<k + b])"
  using assms(2,3)
proof (induction b arbitrary: n k out)
  case 0
  then have "n \<le> 0" by simp
  then show ?case by (simp add: sm3_extended_loop.simps)
next
  case (Suc b)
  then have n: "n > 0" by simp
  have "(n + 31) div 32 = (n - int SM3_DIGEST_LENGTH + 31) div 32 + 1"
    by (simp add: SM3_DIGEST_LENGTH_def)
  then have b: "b = nat ((n - int SM3_DIGEST_LENGTH + 31) div 32)" using Suc.prems(1) by simp
  have "k < 2 ^ 32" using Suc.prems(2) by simp
  then have "sm3 sm3_local (add_nonce (of_nat k) @ inp) = sm3_hash (be_bytes 4 k @ inp)"
    using assms(1) by (simp add: sm3_local_hash add_nonce_counter mgf_counter)
  moreover have "[k..<k + Suc b] = k # [Suc k..<Suc k + b]" by (simp add: upt_conv_Cons)
  moreover have "of_nat k + 1 = (of_nat (Suc k) :: u32)" by simp
  ultimately show ?case using n Suc.IH [OF b, of "Suc k"] Suc.prems(2)
    by (subst sm3_extended_loop.simps) (simp del: of_nat_Suc upt_Suc)
qed

lemma sm3_extended_stream:
  assumes "length inp + 4 < 2 ^ 32" and "outlen \<le> 2 ^ 37"
  shows "sm3_extended outlen inp = ctr_stream (\<lambda>i. sm3_hash (be_bytes 4 i @ inp)) outlen"
proof -
  have "nat ((int outlen + 31) div 32) = (outlen + 31) div 32"
    by (simp add: nat_div_distrib)
  moreover have "(outlen + 31) div 32 \<le> 2 ^ 32" using assms(2) by simp
  ultimately show ?thesis
    using sm3_extended_loop_stream [OF assms(1) refl, where n = "int outlen" and k = 0 and out = "[]"]
    by (simp add: sm3_extended_def ctr_stream_def)
qed

lemma length_ctr_stream:
  assumes "\<And>i. length (blk i) = 32"
  shows "length (ctr_stream blk n) = n"
  using length_concat_32 [where blk = blk and k = "(n + 31) div 32"] assms by (simp add: ctr_stream_def)

lemma length_sm3_final [simp]: "length (snd (sm3_final ctx)) = 32"
proof -
  have "length (concat (map (\<lambda>i. store32_le (f i)) [0..<8])) = 32" for f
    by (subst length_concat_blocks [where n = 4]) auto
  then show ?thesis by (simp add: sm3_final_def Let_def del: upt_rec_numeral)
qed

lemma length_sm3 [simp]: "length (sm3 ctx m) = 32"
  by (simp add: sm3_def case_prod_beta)

end
