(* ===== verification/SLH_Sm3.thy ===== *)
theory SLH_Sm3
  imports SLH_Shake Sm3_Mgf
begin

text \<open>
  The SM3 instance of the hash functions of SLH-DSA (\<open>pqmagic/sig/slh_dsa/std/hash_sm3.c\<close>,
  \<open>thash_sm3_simple.c\<close>, \<open>thash_sm3_robust.c\<close>), and the interpretation of the interface of
  \<open>SLH_Interface\<close> by it, for the parameter sets \<open>sm3-128f\<close> and \<open>sm3-128s\<close>.
\<close>

section \<open>The code\<close>

definition SPX_SM3_ADDR_BYTES :: nat where "SPX_SM3_ADDR_BYTES = 22"
definition SPX_SM3_OUTPUT_BYTES :: nat where "SPX_SM3_OUTPUT_BYTES = 32"

definition hmac_local :: SM3_HMAC_CTX where
  "hmac_local = \<lparr>sm3_ctx = sm3_local, hmac_key = replicate 64 0\<rparr>"

definition sm3_initialize_hash_function :: "spx_ctx \<Rightarrow> spx_ctx" where
  "sm3_initialize_hash_function ctx = ctx"

definition sm3_prf_addr :: "spx_params \<Rightarrow> spx_ctx \<Rightarrow> bytes \<Rightarrow> bytes" where
  "sm3_prf_addr p ctx addr =
     (let buf = take (SPX_N p) (pub_seed ctx) @ take SPX_SM3_ADDR_BYTES addr @ take (SPX_N p) (sk_seed ctx);
          outbuf = sm3 sm3_local buf
      in take (SPX_N p) outbuf)"

definition sm3_gen_message_random :: "spx_params \<Rightarrow> bytes \<Rightarrow> bytes \<Rightarrow> bytes \<Rightarrow> spx_ctx \<Rightarrow> bytes" where
  "sm3_gen_message_random p sk_prf optrand m ctx =
     (let buf = take (SPX_N p) optrand @ m;
          outbuf = sm3_hmac hmac_local buf (take (SPX_N p) sk_prf)
      in take (SPX_N p) outbuf)"

definition sm3_hash_message :: "spx_params \<Rightarrow> bytes \<Rightarrow> bytes \<Rightarrow> bytes \<Rightarrow> spx_ctx \<Rightarrow> bytes \<times> u64 \<times> u32" where
  "sm3_hash_message p R pk m ctx =
     (let r_pk_m = take (SPX_N p) R @ take (SPX_PK_BYTES p) pk @ m;
          dgst = sm3 sm3_local r_pk_m;
          seed = take (SPX_N p) R @ take (SPX_N p) pk @ dgst;
          buf = the (mgf1_sm3 (SPX_DGST_BYTES p) seed)
      in split_digest p buf)"

definition sm3_thash_simple :: "spx_params \<Rightarrow> bytes \<Rightarrow> nat \<Rightarrow> spx_ctx \<Rightarrow> bytes \<Rightarrow> bytes" where
  "sm3_thash_simple p inp inblocks ctx addr =
     (let buf = take (SPX_N p) (pub_seed ctx) @ take SPX_SM3_ADDR_BYTES addr @ take (inblocks * SPX_N p) inp;
          outbuf = sm3 sm3_local buf
      in take (SPX_N p) outbuf)"

definition sm3_thash_robust :: "spx_params \<Rightarrow> bytes \<Rightarrow> nat \<Rightarrow> spx_ctx \<Rightarrow> bytes \<Rightarrow> bytes" where
  "sm3_thash_robust p inp inblocks ctx addr =
     (let buf = take (SPX_N p) (pub_seed ctx) @ take SPX_SM3_ADDR_BYTES addr;
          bitmask = the (mgf1_sm3 (inblocks * SPX_N p) buf);
          buf = buf @ map (\<lambda>i. inp ! i XOR bitmask ! i) [0..<inblocks * SPX_N p];
          outbuf = sm3 sm3_local buf
      in take (SPX_N p) outbuf)"

definition sm3_hash_fns :: "spx_params \<Rightarrow> spx_hash" where
  "sm3_hash_fns p =
     \<lparr>initialize_hash_function = sm3_initialize_hash_function, prf_addr = sm3_prf_addr p,
      gen_message_random = sm3_gen_message_random p, hash_message = sm3_hash_message p,
      thash = sm3_thash_simple p\<rparr>"

definition sm3_robust_hash_fns :: "spx_params \<Rightarrow> spx_hash" where
  "sm3_robust_hash_fns p = (sm3_hash_fns p)\<lparr>thash := sm3_thash_robust p\<rparr>"

section \<open>The interface\<close>

lemma length_sm3_hmac [simp]: "length (sm3_hmac ctx m k) = 32"
  by (simp add: sm3_hmac_def sm3_hmac_final_def case_prod_beta Let_def)

text \<open>What the preprocessor checks (\<open>spx_sm3.h\<close>): one digest is enough for a node; and MGF1 returns.\<close>

definition sm3_fits :: "spx_params \<Rightarrow> bool" where
  "sm3_fits p \<longleftrightarrow> SPX_N p \<le> SPX_SM3_OUTPUT_BYTES \<and> SPX_DGST_BYTES p < 2 ^ 32 - 32"

lemma sm3_hash_message_range:
  assumes p: "wf_params p" and fits: "sm3_fits p" and h: "sm3_hash_message p R pk m c = (mhash, tree, idx)"
  shows "length mhash = SPX_FORS_MSG_BYTES p \<and> unat tree < 2 ^ (SPX_TREE_HEIGHT p * (SPX_D p - 1)) \<and>
    unat idx < 2 ^ SPX_TREE_HEIGHT p"
proof -
  define seed where "seed = take (SPX_N p) R @ take (SPX_N p) pk @
    sm3 sm3_local (take (SPX_N p) R @ take (SPX_PK_BYTES p) pk @ m)"
  have "length seed + 4 < 2 ^ 32"
    using fits by (auto simp: seed_def sm3_fits_def SPX_SM3_OUTPUT_BYTES_def min_def)
  then obtain buf where "mgf1_sm3 (SPX_DGST_BYTES p) seed = Some buf" and buf: "length buf = SPX_DGST_BYTES p"
    using mgf1_sm3_stream [of "SPX_DGST_BYTES p" seed] fits by (simp add: sm3_fits_def length_ctr_stream)
  with h have "split_digest p buf = (mhash, tree, idx)"
    by (simp add: sm3_hash_message_def seed_def)
  with split_digest_range [OF p buf] show ?thesis by blast
qed

lemma sm3_hash_laws:
  assumes p: "wf_params p" and fits: "sm3_fits p"
  shows "spx_hash_laws p (sm3_hash_fns p)" and "spx_hash_laws p (sm3_robust_hash_fns p)"
proof -
  note defs = sm3_hash_fns_def sm3_robust_hash_fns_def sm3_thash_simple_def sm3_thash_robust_def sm3_prf_addr_def
    sm3_initialize_hash_function_def sm3_gen_message_random_def Let_def
  have N: "SPX_N p \<le> 32" using fits by (simp add: sm3_fits_def SPX_SM3_OUTPUT_BYTES_def)
  have th: "spx_thash p (sm3_hash_fns p)" "spx_thash p (sm3_robust_hash_fns p)"
    by (unfold_locales; use p N in \<open>simp add: defs\<close>)+
  have ctx: "sm3_hash_message p R pk m c = sm3_hash_message p R pk m c'" for R pk m c c'
    by (simp only: sm3_hash_message_def)
  show "spx_hash_laws p (sm3_hash_fns p)"
    by (intro spx_hash_laws.intro spx_hash_laws_axioms.intro th)
      (use N ctx sm3_hash_message_range [OF p fits] in \<open>simp_all add: defs\<close>)
  show "spx_hash_laws p (sm3_robust_hash_fns p)"
    by (intro spx_hash_laws.intro spx_hash_laws_axioms.intro th)
      (use N ctx sm3_hash_message_range [OF p fits] in \<open>simp_all add: defs\<close>)
qed

lemma wf_sm3_params [simp]:
  "wf_params slh_dsa_sm3_128f" "wf_params slh_dsa_sm3_128s" "sm3_fits slh_dsa_sm3_128f" "sm3_fits slh_dsa_sm3_128s"
  by (simp_all add: wf_params_def wf_offsets_def SPX_ADDR_BYTES_def SPX_TREE_HEIGHT_def sm3_params_def
      slh_dsa_sm3_128f_def slh_dsa_sm3_128s_def sm3_fits_def SPX_SM3_OUTPUT_BYTES_def SPX_DGST_BYTES_def
      SPX_FORS_MSG_BYTES_def SPX_TREE_BYTES_def SPX_TREE_BITS_def SPX_LEAF_BYTES_def SPX_LEAF_BITS_def)

interpretation sm3_128f: spx_hash_laws slh_dsa_sm3_128f "sm3_hash_fns slh_dsa_sm3_128f"
  by (rule sm3_hash_laws) simp_all

interpretation sm3_128s: spx_hash_laws slh_dsa_sm3_128s "sm3_hash_fns slh_dsa_sm3_128s"
  by (rule sm3_hash_laws) simp_all

end
