(* ===== verification/Ntt_Algebra.thy ===== *)
theory Ntt_Algebra
  imports Main
begin

text \<open>
  The algebra behind the number-theoretic transforms of ML-KEM and ML-DSA, over an arbitrary
  commutative ring.  A polynomial is the function of its coefficients.  \<open>residue n A m c\<close> is the
  remainder of the polynomial \<open>A\<close> of degree less than \<open>n\<close> modulo \<open>X^m - c\<close>; one layer of
  butterflies refines remainders (\<open>residue_split\<close>), and taking remainders is multiplicative for the
  product modulo \<open>X^n + 1\<close> (\<open>residue_conv\<close>).
\<close>

definition residue :: "nat \<Rightarrow> (nat \<Rightarrow> 'a::comm_ring_1) \<Rightarrow> nat \<Rightarrow> 'a \<Rightarrow> nat \<Rightarrow> 'a" where
  "residue n A m c j = (\<Sum>i<n div m. A (j + m * i) * c ^ i)"

definition negacyclic :: "nat \<Rightarrow> (nat \<Rightarrow> 'a::comm_ring_1) \<Rightarrow> (nat \<Rightarrow> 'a) \<Rightarrow> nat \<Rightarrow> 'a" where
  "negacyclic n A B k = (\<Sum>i<n. \<Sum>j<n. if i + j = k then A i * B j else if i + j = k + n then - (A i * B j) else 0)"

lemma sum_even_odd: "(\<Sum>i<2 * (t :: nat). f i) = (\<Sum>i<t. f (2 * i)) + (\<Sum>i<t. f (2 * i + 1) :: 'a::comm_monoid_add)"
  by (induction t) (simp_all add: ac_simps)

lemma residue_split:
  assumes "2 * l dvd n" and "0 < l"
  shows "residue n A l z j = residue n A (2 * l) (z ^ 2) j + z * residue n A (2 * l) (z ^ 2) (j + l)"
proof -
  define t where "t = n div (2 * l)"
  have n: "n = 2 * l * t" using assms by (simp add: t_def)
  have l: "n div l = 2 * t" using assms(2) by (simp add: n)
  have z: "z ^ (2 * i + 1) = z * (z ^ 2) ^ i" "z ^ (2 * i) = (z ^ 2) ^ i" for i
    by (simp_all add: power_mult)
  have j: "j + l * (2 * i + 1) = j + l + 2 * l * i" "j + l * (2 * i) = j + 2 * l * i" for i
    by (simp_all add: algebra_simps)
  have "residue n A l z j = (\<Sum>i<t. A (j + l * (2 * i)) * z ^ (2 * i)) + (\<Sum>i<t. A (j + l * (2 * i + 1)) * z ^ (2 * i + 1))"
    unfolding residue_def l by (rule sum_even_odd)
  then show ?thesis
    unfolding j z residue_def t_def [symmetric] by (simp only: sum_distrib_left mult.left_commute)
qed

lemma residue_top: "0 < n \<Longrightarrow> residue n A n c j = A j"
  by (simp add: residue_def)

text \<open>A layer of the inverse transform.\<close>

lemma residue_join:
  assumes "2 * l dvd n" and "0 < l" and "z * z' = 1"
  shows "residue n A l z j + residue n A l (- z) j = 2 * residue n A (2 * l) (z ^ 2) j"
    and "z' * (residue n A l z j - residue n A l (- z) j) = 2 * residue n A (2 * l) (z ^ 2) (j + l)"
proof -
  have m: "residue n A l (- z) j = residue n A (2 * l) (z ^ 2) j - z * residue n A (2 * l) (z ^ 2) (j + l)"
    using residue_split [OF assms(1,2), of A "- z" j] by simp
  note p = residue_split [OF assms(1,2), of A z j]
  show "residue n A l z j + residue n A l (- z) j = 2 * residue n A (2 * l) (z ^ 2) j"
    unfolding m p by simp
  have "z' * (residue n A l z j - residue n A l (- z) j) = 2 * ((z * z') * residue n A (2 * l) (z ^ 2) (j + l))"
    unfolding m p by (simp add: algebra_simps)
  then show "z' * (residue n A l z j - residue n A l (- z) j) = 2 * residue n A (2 * l) (z ^ 2) (j + l)"
    by (simp add: assms(3))
qed

text \<open>Every monomial \<open>X^k\<close> has one remainder, \<open>c ^ (k div m) X^(k mod m)\<close>.\<close>

definition monom :: "nat \<Rightarrow> 'a::comm_ring_1 \<Rightarrow> nat \<Rightarrow> nat \<Rightarrow> 'a" where
  "monom m c k j = (if k mod m = j then c ^ (k div m) else 0)"

lemma sum_lessThan_mult: "(\<Sum>k<m * (t :: nat). f k) = (\<Sum>i<t. \<Sum>j<m. f (j + m * i) :: 'a::comm_monoid_add)"
proof (induction t)
  case (Suc t)
  have "{..<m * Suc t} = {..<m * t} \<union> {m * t..<m * t + m}" by auto
  then have "(\<Sum>k<m * Suc t. f k) = (\<Sum>k<m * t. f k) + (\<Sum>k\<in>{m * t..<m * t + m}. f k)"
    by (simp add: sum.union_disjoint ivl_disj_int)
  also have "(\<Sum>k\<in>{m * t..<m * t + m}. f k) = (\<Sum>j<m. f (j + m * t))"
    using sum.shift_bounds_nat_ivl [of f 0 "m * t" m] by (simp add: lessThan_atLeast0 add.commute)
  finally show ?case using Suc by simp
qed simp

lemma residue_monom:
  assumes "m dvd n" and "j < m"
  shows "residue n A m c j = (\<Sum>k<n. A k * monom m c k j)"
proof -
  obtain t where n: "n = m * t" using assms(1) by blast
  have m: "0 < m" using assms(2) by simp
  have "(\<Sum>j'<m. A (j' + m * i) * monom m c (j' + m * i) j) = A (j + m * i) * c ^ i" for i
  proof -
    have "(\<Sum>j'<m. A (j' + m * i) * monom m c (j' + m * i) j) = (\<Sum>j'<m. if j' = j then A (j + m * i) * c ^ i else 0)"
      using m by (intro sum.cong) (auto simp: monom_def)
    then show ?thesis using assms(2) by (simp add: sum.delta)
  qed
  then show ?thesis using m by (simp add: residue_def n sum_lessThan_mult)
qed

lemma monom_wrap:
  assumes "m dvd n" and "0 < m" and "c ^ (n div m) = - 1"
  shows "monom m c (k + n) j = - monom m c k j"
proof -
  obtain t where n: "n = m * t" using assms(1) by blast
  then have "c ^ t = - 1" using assms(2,3) by simp
  then show ?thesis using assms(2) by (simp add: monom_def n power_add)
qed

lemma sum_negacyclic_monom:
  assumes "m dvd n" and "0 < m" and "c ^ (n div m) = - 1" and "i < n" and "i' < n"
  shows "(\<Sum>k<n. (if i + i' = k then x else if i + i' = k + n then - x else 0) * monom m c k j) = x * monom m c (i + i') j"
proof (cases "i + i' < n")
  case True
  then have "(\<Sum>k<n. (if i + i' = k then x else if i + i' = k + n then - x else 0) * monom m c k j) =
      (\<Sum>k<n. if i + i' = k then x * monom m c (i + i') j else 0)"
    by (intro sum.cong) auto
  then show ?thesis using True by (simp add: sum.delta)
next
  case False
  define s where "s = i + i' - n"
  have s: "i + i' = s + n" "s < n" using False assms(4,5) by (simp_all add: s_def)
  have "(\<Sum>k<n. (if i + i' = k then x else if i + i' = k + n then - x else 0) * monom m c k j) =
      (\<Sum>k<n. if s = k then - x * monom m c s j else 0)"
    using s by (intro sum.cong) auto
  then show ?thesis using s monom_wrap [OF assms(1-3), of s j] by (simp add: sum.delta)
qed

lemma residue_negacyclic_monom:
  assumes "m dvd n" and "j < m" and "c ^ (n div m) = - 1"
  shows "residue n (negacyclic n A B) m c j = (\<Sum>i<n. \<Sum>i'<n. A i * B i' * monom m c (i + i') j)"
proof -
  have m: "0 < m" using assms(2) by simp
  have "residue n (negacyclic n A B) m c j = (\<Sum>k<n. \<Sum>i<n. \<Sum>i'<n.
      (if i + i' = k then A i * B i' else if i + i' = k + n then - (A i * B i') else 0) * monom m c k j)"
    by (simp add: residue_monom [OF assms(1,2)] negacyclic_def sum_distrib_right)
  also have "\<dots> = (\<Sum>i<n. \<Sum>i'<n. \<Sum>k<n.
      (if i + i' = k then A i * B i' else if i + i' = k + n then - (A i * B i') else 0) * monom m c k j)"
    by (subst sum.swap, rule sum.cong [OF refl], rule sum.swap)
  also have "\<dots> = (\<Sum>i<n. \<Sum>i'<n. A i * B i' * monom m c (i + i') j)"
    by (intro sum.cong refl) (simp only: sum_negacyclic_monom [OF assms(1) m assms(3)] lessThan_iff)
  finally show ?thesis .
qed

text \<open>The product modulo \<open>X^m - c\<close> of two remainders.\<close>

definition mul_mod :: "nat \<Rightarrow> 'a::comm_ring_1 \<Rightarrow> (nat \<Rightarrow> 'a) \<Rightarrow> (nat \<Rightarrow> 'a) \<Rightarrow> nat \<Rightarrow> 'a" where
  "mul_mod m c R S j = (\<Sum>a<m. R a * (if a \<le> j then S (j - a) else c * S (j + m - a)))"

lemma monom_add:
  assumes "j < m"
  shows "monom m c (i + i') j =
    c ^ (i div m) * (if i mod m \<le> j then monom m c i' (j - i mod m) else c * monom m c i' (j + m - i mod m))"
proof -
  define a b p q where "a = i mod m" and "b = i' mod m" and "p = i div m" and "q = i' div m"
  have ab: "a < m" "b < m" using assms by (simp_all add: a_def b_def)
  have i: "i = m * p + a" "i' = m * q + b" by (simp_all add: a_def b_def p_def q_def)
  have s: "(i + i') mod m = (if a + b < m then a + b else a + b - m)"
    "(i + i') div m = (if a + b < m then p + q else p + q + 1)"
  proof -
    have "i + i' = (a + b) + m * (p + q)" by (simp add: i algebra_simps)
    then have "(i + i') mod m = (a + b) mod m" "(i + i') div m = (a + b) div m + (p + q)"
      using assms by simp_all
    moreover have "(a + b) mod m = (if a + b < m then a + b else a + b - m)" "(a + b) div m = (if a + b < m then 0 else 1)"
      using ab by (auto simp: mod_if div_if)
    ultimately show "(i + i') mod m = (if a + b < m then a + b else a + b - m)"
      "(i + i') div m = (if a + b < m then p + q else p + q + 1)" by simp_all
  qed
  show ?thesis
    unfolding monom_def s a_def [symmetric] b_def [symmetric] p_def [symmetric] q_def [symmetric]
    using ab assms by (auto simp: power_add)
qed

lemma residue_conv:
  assumes "m dvd n" and "j < m" and "c ^ (n div m) = - 1"
  shows "residue n (negacyclic n A B) m c j = mul_mod m c (residue n A m c) (residue n B m c) j"
proof -
  let ?S = "\<lambda>a. if a \<le> j then residue n B m c (j - a) else c * residue n B m c (j + m - a)"
  have inner: "(\<Sum>i'<n. A i * B i' * monom m c (i + i') j) = A i * c ^ (i div m) * ?S (i mod m)" for i
  proof -
    have "i mod m < m" using assms(2) by simp
    then have "?S (i mod m) = (\<Sum>i'<n. B i' * (if i mod m \<le> j then monom m c i' (j - i mod m)
        else c * monom m c i' (j + m - i mod m)))"
      using assms(1,2) by (auto simp: residue_monom sum_distrib_left algebra_simps intro!: sum.cong)
    then show ?thesis by (simp only: monom_add [OF assms(2), where i = i] sum_distrib_left mult.assoc mult.left_commute)
  qed
  have "mul_mod m c (residue n A m c) (residue n B m c) j = (\<Sum>a<m. \<Sum>i<n. A i * monom m c i a * ?S a)"
    by (simp add: mul_mod_def residue_monom [OF assms(1)] sum_distrib_right)
  also have "\<dots> = (\<Sum>i<n. \<Sum>a<m. A i * monom m c i a * ?S a)" by (rule sum.swap)
  also have "\<dots> = (\<Sum>i<n. A i * c ^ (i div m) * ?S (i mod m))"
  proof (rule sum.cong [OF refl])
    fix i
    have "(\<Sum>a<m. A i * monom m c i a * ?S a) = (\<Sum>a<m. if a = i mod m then A i * c ^ (i div m) * ?S (i mod m) else 0)"
      by (intro sum.cong) (auto simp: monom_def)
    then show "(\<Sum>a<m. A i * monom m c i a * ?S a) = A i * c ^ (i div m) * ?S (i mod m)"
      using assms(2) by (simp add: sum.delta)
  qed
  finally show ?thesis by (simp only: residue_negacyclic_monom [OF assms] inner)
qed

section \<open>Chinese remainders\<close>

text \<open>
  When 2 is invertible, the remainders modulo the factors of one depth determine the polynomial, and
  every choice of remainders occurs.
\<close>

lemma residue_unique:
  fixes c z z' :: "nat \<Rightarrow> 'a::comm_ring_1"
  assumes half: "2 * h = (1 :: 'a)" and n: "0 < n"
    and tree: "\<And>k. 1 \<le> k \<Longrightarrow> k < 2 ^ i \<Longrightarrow> c (2 * k) = z k \<and> c (2 * k + 1) = - z k \<and> (z k) ^ 2 = c k \<and> z k * z' k = 1"
    and eq: "\<And>k j. 2 ^ i \<le> k \<Longrightarrow> k < 2 ^ Suc i \<Longrightarrow> j < m \<Longrightarrow> residue n A m (c k) j = residue n B m (c k) j"
    and nm: "n = 2 ^ i * m" and j: "j < n"
  shows "A j = B j"
  using tree eq nm
proof (induction i arbitrary: m)
  case 0
  then show ?case using residue_top [OF n, of _ "c 1" j] 0(2) [of 1 j] j by simp
next
  case (Suc i)
  have "n = 2 * m * 2 ^ i" using Suc.prems(3) by simp
  then have d: "2 * m dvd n" "0 < m" using n by (simp_all only: dvd_triv_left) (cases m, simp_all)
  have two: "x = y" if "2 * x = 2 * y" for x y :: 'a
    using arg_cong [OF that, of "(*) h"] half by (simp add: mult.assoc [symmetric] mult.commute [of h])
  have up: "residue n A (2 * m) (c k) j = residue n B (2 * m) (c k) j" if "2 ^ i \<le> k" "k < 2 ^ Suc i" "j < 2 * m" for k j
  proof -
    have "1 \<le> k" using that(1) by (metis one_le_numeral one_le_power order_trans)
    then have t: "c (2 * k) = z k" "c (2 * k + 1) = - z k" "(z k) ^ 2 = c k" "z k * z' k = 1"
      using Suc.prems(1) that(2) by simp_all
    have e: "residue n A m (z k) l = residue n B m (z k) l" "residue n A m (- z k) l = residue n B m (- z k) l" if "l < m" for l
      using Suc.prems(2) [of "2 * k" l] Suc.prems(2) [of "2 * k + 1" l] \<open>2 ^ i \<le> k\<close> \<open>k < 2 ^ Suc i\<close> that unfolding t by simp_all
    note J = residue_join [OF d t(4), unfolded t(3)]
    show ?thesis
    proof (cases "j < m")
      case True
      show ?thesis by (rule two) (simp only: J(1) [symmetric] e [OF True])
    next
      case False
      then have l: "j - m < m" "j - m + m = j" using that(3) by simp_all
      show ?thesis
        by (rule two) (simp only: J(2) [of _ "j - m", unfolded l(2), symmetric] e [OF l(1)])
    qed
  qed
  show ?case by (rule Suc.IH [OF _ up]) (use Suc.prems in \<open>simp_all add: mult.assoc\<close>)
qed

lemma residue_surj:
  fixes c z z' :: "nat \<Rightarrow> 'a::comm_ring_1"
  assumes half: "2 * h = (1 :: 'a)" and n: "0 < n"
    and tree: "\<And>k. 1 \<le> k \<Longrightarrow> k < 2 ^ i \<Longrightarrow> c (2 * k) = z k \<and> c (2 * k + 1) = - z k \<and> (z k) ^ 2 = c k \<and> z k * z' k = 1"
    and nm: "n = 2 ^ i * m"
  shows "\<exists>A. \<forall>k j. 2 ^ i \<le> k \<longrightarrow> k < 2 ^ Suc i \<longrightarrow> j < m \<longrightarrow> residue n A m (c k) j = f k j"
  using tree nm
proof (induction i arbitrary: m f)
  case 0
  then have "m = n" by simp
  then have "residue n (f 1) m (c k) j = f k j" if "1 \<le> k" "k < 2" for k j
    using residue_top [OF n, of "f 1" "c k" j] that by (cases "k = 1") simp_all
  then show ?case by (intro exI [of _ "f 1"]) simp
next
  case (Suc i)
  have "n = 2 * m * 2 ^ i" using Suc.prems(2) by simp
  then have d: "2 * m dvd n" "0 < m" using n by (simp_all only: dvd_triv_left) (cases m, simp_all)
  have hh: "h + h = 1" using half unfolding mult_2 .
  define f' where "f' k j = (if j < m then h * (f (2 * k) j + f (2 * k + 1) j)
      else h * (z' k * (f (2 * k) (j - m) - f (2 * k + 1) (j - m))))" for k j
  have "\<exists>A. \<forall>k j. 2 ^ i \<le> k \<longrightarrow> k < 2 ^ Suc i \<longrightarrow> j < 2 * m \<longrightarrow> residue n A (2 * m) (c k) j = f' k j"
    by (rule Suc.IH) (use Suc.prems in \<open>simp_all add: mult.assoc\<close>)
  then obtain A where A: "\<And>k j. 2 ^ i \<le> k \<Longrightarrow> k < 2 ^ Suc i \<Longrightarrow> j < 2 * m \<Longrightarrow> residue n A (2 * m) (c k) j = f' k j"
    by blast
  have "residue n A m (c k') j = f k' j" if "2 ^ Suc i \<le> k'" "k' < 2 ^ Suc (Suc i)" "j < m" for k' j
  proof -
    define k where "k = k' div 2"
    have k: "2 ^ i \<le> k" "k < 2 ^ Suc i" using that(1,2) unfolding k_def power_Suc by linarith+
    have "1 \<le> k" using k(1) by (metis one_le_numeral one_le_power order_trans)
    then have t: "c (2 * k) = z k" "c (2 * k + 1) = - z k" "(z k) ^ 2 = c k" "z k * z' k = 1"
      using Suc.prems(1) k(2) by simp_all
    have r: "residue n A (2 * m) (c k) j = h * (f (2 * k) j + f (2 * k + 1) j)"
      "residue n A (2 * m) (c k) (j + m) = h * (z' k * (f (2 * k) j - f (2 * k + 1) j))"
      by (subst A [OF k], use that(3) in simp, use that(3) in \<open>simp add: f'_def\<close>)+
    have zz: "z k * (h * (z' k * x)) = h * x" for x
    proof -
      have "z k * (h * (z' k * x)) = (z k * z' k) * (h * x)" by (simp only: ac_simps)
      then show ?thesis by (simp only: t(4) mult_1_left)
    qed
    have hx: "h * (x + y) + h * (x - y) = x" "h * (x + y) - h * (x - y) = y" for x y
    proof -
      have "h * (x + y) + h * (x - y) = (h + h) * x" "h * (x + y) - h * (x - y) = (h + h) * y"
        by (simp_all add: algebra_simps)
      then show "h * (x + y) + h * (x - y) = x" "h * (x + y) - h * (x - y) = y" by (simp_all add: hh)
    qed
    show ?thesis
    proof (cases "even k'")
      case True
      then have "k' = 2 * k" by (simp add: k_def)
      then show ?thesis by (simp only: t residue_split [OF d, of A "z k" j] r zz hx)
    next
      case False
      then have k': "k' = 2 * k + 1" by (simp add: k_def)
      show ?thesis
        by (simp only: k' t(2) residue_split [OF d, of A "- z k" j] power2_minus t(3) r mult_minus_left zz hx add_uminus_conv_diff)
    qed
  qed
  then show ?case by blast
qed

end
