(* ===== verification/Cint.thy ===== *)
theory Cint
  imports Prelude
begin

text \<open>
  C integers of fixed width as mathematical integers, for code that computes with signed values: the
  C expression is evaluated over \<open>int\<close> and \<open>i16\<close>, \<open>i32\<close>, \<open>i64\<close>, \<open>u8i\<close>, \<open>u16i\<close>, \<open>u32i\<close> mark every conversion
  to a type that may truncate.  \<open>>>\<close> on a signed value is the division by a power of two that rounds
  towards minus infinity (an arithmetic shift).
\<close>

named_theorems cint_simps \<open>conversions that do not truncate\<close>

definition i16 :: "int \<Rightarrow> int" where "i16 x = (x + 2 ^ 15) mod 2 ^ 16 - 2 ^ 15"
definition i32 :: "int \<Rightarrow> int" where "i32 x = (x + 2 ^ 31) mod 2 ^ 32 - 2 ^ 31"
definition i64 :: "int \<Rightarrow> int" where "i64 x = (x + 2 ^ 63) mod 2 ^ 64 - 2 ^ 63"
definition u8i :: "int \<Rightarrow> int" where "u8i x = x mod 2 ^ 8"
definition u16i :: "int \<Rightarrow> int" where "u16i x = x mod 2 ^ 16"
definition u32i :: "int \<Rightarrow> int" where "u32i x = x mod 2 ^ 32"

lemma i16_id [cint_simps]: "- (2 ^ 15) \<le> x \<Longrightarrow> x < 2 ^ 15 \<Longrightarrow> i16 x = x"
  by (simp add: i16_def)

lemma i32_id [cint_simps]: "- (2 ^ 31) \<le> x \<Longrightarrow> x < 2 ^ 31 \<Longrightarrow> i32 x = x"
  by (simp add: i32_def)

lemma i64_id [cint_simps]: "- (2 ^ 63) \<le> x \<Longrightarrow> x < 2 ^ 63 \<Longrightarrow> i64 x = x"
  by (simp add: i64_def)

lemma u8i_id [cint_simps]: "0 \<le> x \<Longrightarrow> x < 2 ^ 8 \<Longrightarrow> u8i x = x"
  by (simp add: u8i_def)

lemma u16i_id [cint_simps]: "0 \<le> x \<Longrightarrow> x < 2 ^ 16 \<Longrightarrow> u16i x = x"
  by (simp add: u16i_def)

lemma u32i_id [cint_simps]: "0 \<le> x \<Longrightarrow> x < 2 ^ 32 \<Longrightarrow> u32i x = x"
  by (simp add: u32i_def)

lemma i16_range: "- (2 ^ 15) \<le> i16 x" "i16 x < 2 ^ 15"
  by (simp_all add: i16_def)

lemma i32_range: "- (2 ^ 31) \<le> i32 x" "i32 x < 2 ^ 31"
  by (simp_all add: i32_def)

lemma i16_dvd: "2 ^ 16 dvd x - i16 x"
proof -
  have "x - i16 x = (x + 2 ^ 15) - (x + 2 ^ 15) mod 2 ^ 16" by (simp add: i16_def)
  then show ?thesis by (simp only: dvd_minus_mod)
qed

lemma i32_dvd: "2 ^ 32 dvd x - i32 x"
proof -
  have "x - i32 x = (x + 2 ^ 31) - (x + 2 ^ 31) mod 2 ^ 32" by (simp add: i32_def)
  then show ?thesis by (simp only: dvd_minus_mod)
qed

text \<open>The sign mask, as in \<open>(x >> 15) & m\<close>.\<close>

lemma sign_shift:
  fixes x :: int
  assumes "- (2 ^ n) \<le> x" and "x < 2 ^ n"
  shows "x div 2 ^ n = (if x < 0 then - 1 else 0)"
proof (cases "x < 0")
  case True
  have "(x + 2 ^ n) div 2 ^ n = x div 2 ^ n + 1" by (rule div_add_self2) simp
  moreover have "(x + 2 ^ n) div 2 ^ n = 0" using True assms by (intro div_pos_pos_trivial) simp_all
  ultimately show ?thesis using True by simp
next
  case False
  then show ?thesis using assms by (simp add: div_pos_pos_trivial)
qed

lemma sign_mask:
  fixes x :: int
  assumes "- (2 ^ n) \<le> x" and "x < 2 ^ n"
  shows "(x div 2 ^ n) AND m = (if x < 0 then m else 0)"
  by (simp add: sign_shift [OF assms])

text \<open>Remainders modulo \<open>m\<close> are equal exactly when \<open>m\<close> divides the difference.\<close>

lemma mod_eq_dvd: "(a mod m = b mod m) = (m dvd a - b)" for m :: int
  by (rule mod_eq_dvd_iff)

end
