(* ===== verification/Ntt_Loops.thy ===== *)
theory Ntt_Loops
  imports Ntt_Algebra Cint "HOL-Library.Numeral_Type"
begin

text \<open>
  The in-place butterfly loops shared by the number-theoretic transforms: what a fold of butterflies
  over a block and over the blocks of a layer computes, and how a layer of the forward (inverse)
  transform turns the remainders of a polynomial into remainders modulo the factors (products).
  The nodes of the tree of factors are numbered as in a heap, which is the order of the tables of
  twiddle factors: node \<open>k\<close> splits into \<open>2 * k\<close> and \<open>2 * k + 1\<close>.
\<close>

section \<open>Butterfly loops\<close>

definition pair_step :: "(int \<Rightarrow> int \<Rightarrow> int) \<Rightarrow> (int \<Rightarrow> int \<Rightarrow> int) \<Rightarrow> nat \<Rightarrow> nat \<Rightarrow> int list \<Rightarrow> int list" where
  "pair_step g f len j r = r[j := g (r ! j) (r ! (j + len)), j + len := f (r ! j) (r ! (j + len))]"

lemma fold_pair_steps:
  fixes g f :: "int \<Rightarrow> int \<Rightarrow> int"
  assumes "start + 2 * len \<le> length r"
  defines "r' \<equiv> fold (pair_step g f len) [start..<start + len] r"
  shows "length r' = length r"
    and "x < length r \<Longrightarrow> r' ! x =
      (if start \<le> x \<and> x < start + len then g (r ! x) (r ! (x + len))
       else if start + len \<le> x \<and> x < start + 2 * len then f (r ! (x - len)) (r ! x) else r ! x)"
proof -
  let ?P = "\<lambda>i s. length s = length r \<and> (\<forall>x < length r. s ! x =
      (if start \<le> x \<and> x < i then g (r ! x) (r ! (x + len))
       else if start + len \<le> x \<and> x < i + len then f (r ! (x - len)) (r ! x) else r ! x))"
  have "?P (start + len) r'"
    unfolding r'_def
  proof (rule fold_upt_invar [where P = ?P])
    fix i s assume i: "start \<le> i" "i < start + len" and s: "?P i s"
    have "s ! i = r ! i" "s ! (i + len) = r ! (i + len)" using i s assms(1) by auto
    then have "pair_step g f len i s = s[i := g (r ! i) (r ! (i + len)), i + len := f (r ! i) (r ! (i + len))]"
      by (simp add: pair_step_def)
    with i s assms(1) show "?P (Suc i) (pair_step g f len i s)"
      by (auto simp: nth_list_update less_Suc_eq)
  qed (auto simp: assms)
  then show "length r' = length r"
    and "x < length r \<Longrightarrow> r' ! x =
      (if start \<le> x \<and> x < start + len then g (r ! x) (r ! (x + len))
       else if start + len \<le> x \<and> x < start + 2 * len then f (r ! (x - len)) (r ! x) else r ! x)"
    by (auto simp: mult_2)
qed

definition layer_step ::
  "(nat \<Rightarrow> int \<Rightarrow> int \<Rightarrow> int) \<Rightarrow> (nat \<Rightarrow> int \<Rightarrow> int \<Rightarrow> int) \<Rightarrow> nat \<Rightarrow> nat \<Rightarrow> int list \<Rightarrow> int list" where
  "layer_step g f len i = fold (pair_step (g i) (f i) len) [i * (2 * len)..<i * (2 * len) + len]"

text \<open>A counter that runs along with the blocks, up or down.\<close>

lemma fold_count_up:
  "fold (\<lambda>i (k, r). (k + 1, F k i r)) [0..<n] (k, r) = (k + n, fold (\<lambda>i. F (k + i) i) [0..<n] (r :: 'b))"
  for k :: nat
  by (induction n) simp_all

lemma fold_count_down:
  "n \<le> k \<Longrightarrow> fold (\<lambda>i (k, r). (k - 1, F (k - 1) i r)) [0..<n] (k, r) =
    (k - n, fold (\<lambda>i. F (k - 1 - i) i) [0..<n] (r :: 'b))"
  for k :: nat
  by (induction n) simp_all

lemma block_index:
  fixes x n len :: nat
  assumes "x < n * (2 * len)" and "0 < len"
  obtains b j where "b < n" and "j < len" and "x = b * (2 * len) + j \<or> x = b * (2 * len) + len + j"
proof -
  define b y where "b = x div (2 * len)" and "y = x mod (2 * len)"
  have x: "x = b * (2 * len) + y" "y < 2 * len" using assms(2) by (simp_all add: b_def y_def div_mult_mod_eq)
  have "b < n" using assms by (simp add: b_def less_mult_imp_div_less)
  then show thesis using x that [of b y] that [of b "y - len"] by (cases "y < len") auto
qed

lemma fold_layer_steps:
  fixes g f :: "nat \<Rightarrow> int \<Rightarrow> int \<Rightarrow> int"
  assumes len: "n * (2 * len) \<le> length r" and pos: "0 < len"
  defines "r' \<equiv> fold (layer_step g f len) [0..<n] r"
  shows "length r' = length r"
    and "\<And>b j. b < n \<Longrightarrow> j < len \<Longrightarrow>
      r' ! (b * (2 * len) + j) = g b (r ! (b * (2 * len) + j)) (r ! (b * (2 * len) + len + j))"
    and "\<And>b j. b < n \<Longrightarrow> j < len \<Longrightarrow>
      r' ! (b * (2 * len) + len + j) = f b (r ! (b * (2 * len) + j)) (r ! (b * (2 * len) + len + j))"
proof -
  let ?G = "\<lambda>s b j. s ! (b * (2 * len) + j) = g b (r ! (b * (2 * len) + j)) (r ! (b * (2 * len) + len + j))"
  let ?F = "\<lambda>s b j. s ! (b * (2 * len) + len + j) = f b (r ! (b * (2 * len) + j)) (r ! (b * (2 * len) + len + j))"
  let ?P = "\<lambda>i s. length s = length r \<and> (\<forall>b < i. \<forall>j < len. ?G s b j \<and> ?F s b j) \<and>
    (\<forall>x < length r. i * (2 * len) \<le> x \<longrightarrow> s ! x = r ! x)"
  have "?P n r'"
    unfolding r'_def
  proof (rule fold_upt_invar [where P = ?P])
    fix i s assume i: "i < n" and P: "?P i s"
    then have ls: "length s = length r"
      and old: "\<And>b j. b < i \<Longrightarrow> j < len \<Longrightarrow> ?G s b j \<and> ?F s b j"
      and rest: "\<And>x. x < length r \<Longrightarrow> i * (2 * len) \<le> x \<Longrightarrow> s ! x = r ! x"
      by auto
    define o' where "o' = i * (2 * len)"
    have "Suc i * (2 * len) \<le> n * (2 * len)" using i by (intro mult_le_mono1) simp
    then have bnd: "o' + 2 * len \<le> length s" using len ls by (simp add: o'_def)
    define s' where "s' = fold (pair_step (g i) (f i) len) [o'..<o' + len] s"
    note S = fold_pair_steps [OF bnd, where g = "g i" and f = "f i", folded s'_def]
    have below: "b * (2 * len) + len + j < o'" if "b < i" "j < len" for b j
    proof -
      have "Suc b * (2 * len) \<le> i * (2 * len)" using that(1) by (intro mult_le_mono1) simp
      then show ?thesis using that(2) by (simp add: o'_def)
    qed
    have "?G s' b j \<and> ?F s' b j" if "b < Suc i" "j < len" for b j
    proof (cases "b = i")
      case True
      have "s ! (o' + j) = r ! (o' + j)" "s ! (o' + len + j) = r ! (o' + len + j)"
        using rest bnd ls that(2) by (simp_all add: o'_def)
      then show ?thesis
        using S(2) [of "o' + j"] S(2) [of "o' + len + j"] that(2) bnd True
        by (simp add: o'_def [symmetric] add.commute add.left_commute)
    next
      case False
      then have b: "b < i" using that(1) by simp
      from below [OF b that(2)] have "s' ! (b * (2 * len) + j) = s ! (b * (2 * len) + j)"
        "s' ! (b * (2 * len) + len + j) = s ! (b * (2 * len) + len + j)"
        using S(2) bnd by simp_all
      with old [OF b that(2)] show ?thesis by simp
    qed
    moreover have "s' ! x = r ! x" if "x < length r" "Suc i * (2 * len) \<le> x" for x
      using S(2) [of x] rest [of x] that ls by (simp add: o'_def)
    ultimately show "?P (Suc i) (layer_step g f len i s)"
      using S(1) ls by (simp add: layer_step_def s'_def o'_def)
  qed (auto simp: len)
  then show "length r' = length r"
    and "\<And>b j. b < n \<Longrightarrow> j < len \<Longrightarrow>
      r' ! (b * (2 * len) + j) = g b (r ! (b * (2 * len) + j)) (r ! (b * (2 * len) + len + j))"
    and "\<And>b j. b < n \<Longrightarrow> j < len \<Longrightarrow>
      r' ! (b * (2 * len) + len + j) = f b (r ! (b * (2 * len) + j)) (r ! (b * (2 * len) + len + j))"
    by auto
qed

section \<open>Layers of the transforms\<close>

text \<open>
  The array holds, up to the factor \<open>s\<close>, the remainders of \<open>A\<close> modulo \<open>X^m - c k\<close> for the nodes
  \<open>k\<close> of one depth; \<open>h\<close> maps the machine integers into the ring.
\<close>

definition level ::
  "(int \<Rightarrow> 'a::comm_ring_1) \<Rightarrow> (nat \<Rightarrow> 'a) \<Rightarrow> 'a \<Rightarrow> (nat \<Rightarrow> 'a) \<Rightarrow> nat \<Rightarrow> int list \<Rightarrow> bool" where
  "level h A s c m r \<longleftrightarrow> m dvd length r \<and>
     (\<forall>b < length r div m. \<forall>j < m.
        h (r ! (b * m + j)) = s * residue (length r) A m (c (length r div m + b)) j)"

lemma levelD:
  "level h A s c m r \<Longrightarrow> b < length r div m \<Longrightarrow> j < m \<Longrightarrow>
   h (r ! (b * m + j)) = s * residue (length r) A m (c (length r div m + b)) j"
  by (simp add: level_def)

lemma level_blocks:
  fixes r :: "int list"
  assumes "length r = n * (2 * len)" and "0 < len"
  shows "length r div (2 * len) = n" and "length r div len = 2 * n" and "2 * len dvd length r" and "len dvd length r"
proof -
  have "length r = 2 * n * len" using assms(1) by simp
  then show "length r div (2 * len) = n" "length r div len = 2 * n" "2 * len dvd length r" "len dvd length r"
    using assms by simp_all
qed

lemma level_halfI:
  fixes h :: "int \<Rightarrow> 'a::comm_ring_1"
  assumes r: "length r = n * (2 * len)" and len: "0 < len"
    and even: "\<And>b j. b < n \<Longrightarrow> j < len \<Longrightarrow>
      h (r ! (b * (2 * len) + j)) = s * residue (length r) A len (c (2 * (n + b))) j"
    and odd: "\<And>b j. b < n \<Longrightarrow> j < len \<Longrightarrow>
      h (r ! (b * (2 * len) + len + j)) = s * residue (length r) A len (c (2 * (n + b) + 1)) j"
  shows "level h A s c len r"
  unfolding level_def
proof (intro conjI allI impI)
  note L = level_blocks [OF r len]
  show "len dvd length r" by (rule L)
  fix d j assume d: "d < length r div len" and j: "j < len"
  define b where "b = d div 2"
  have b: "b < n" using d L(2) by (simp add: b_def)
  show "h (r ! (d * len + j)) = s * residue (length r) A len (c (length r div len + d)) j"
  proof (cases "even d")
    case True
    then have d': "d = 2 * b" by (simp add: b_def)
    have "d * len + j = b * (2 * len) + j" "length r div len + d = 2 * (n + b)"
      unfolding L(2) d' by simp_all
    then show ?thesis using even [OF b j] by metis
  next
    case False
    then have d': "d = 2 * b + 1" by (simp add: b_def)
    have "d * len + j = b * (2 * len) + len + j" "length r div len + d = 2 * (n + b) + 1"
      unfolding L(2) d' by simp_all
    then show ?thesis using odd [OF b j] by metis
  qed
qed

lemma level_halfD:
  fixes h :: "int \<Rightarrow> 'a::comm_ring_1"
  assumes lv: "level h A s c len r" and r: "length r = n * (2 * len)" and len: "0 < len" and "b < n" and "j < len"
  shows "h (r ! (b * (2 * len) + j)) = s * residue (length r) A len (c (2 * (n + b))) j"
    and "h (r ! (b * (2 * len) + len + j)) = s * residue (length r) A len (c (2 * (n + b) + 1)) j"
proof -
  note L = level_blocks [OF r len]
  have "2 * b < length r div len" "2 * b + 1 < length r div len" unfolding L(2) using assms(4) by simp_all
  note * = levelD [OF lv this(1) \<open>j < len\<close>] levelD [OF lv this(2) \<open>j < len\<close>]
  show "h (r ! (b * (2 * len) + j)) = s * residue (length r) A len (c (2 * (n + b))) j"
    using *(1) unfolding L(2) by (simp add: mult.commute mult.left_commute)
  show "h (r ! (b * (2 * len) + len + j)) = s * residue (length r) A len (c (2 * (n + b) + 1)) j"
    using *(2) unfolding L(2) by (simp add: algebra_simps)
qed

lemma list_all_blocksI:
  assumes "length r = n * (2 * len)" and "0 < len"
    and "\<And>b j. b < n \<Longrightarrow> j < len \<Longrightarrow> P (r ! (b * (2 * len) + j)) \<and> P (r ! (b * (2 * len) + len + j))"
  shows "list_all P r"
  unfolding list_all_length
proof (intro allI impI)
  fix x assume "x < length r"
  then have "x < n * (2 * len)" using assms(1) by simp
  then obtain b j where "b < n" "j < len" "x = b * (2 * len) + j \<or> x = b * (2 * len) + len + j"
    using assms(2) by (rule block_index)
  with assms(3) show "P (r ! x)" by blast
qed

lemma list_all_blocksD:
  fixes n len :: nat
  assumes "list_all P r" and "length r = n * (2 * len)" and "b < n" and "j < len"
  shows "P (r ! (b * (2 * len) + j))" and "P (r ! (b * (2 * len) + len + j))"
proof -
  have "Suc b * (2 * len) \<le> n * (2 * len)" using assms(3) by (intro mult_le_mono1) simp
  then have "b * (2 * len) + len + j < length r" using assms(2,4) by simp
  then show "P (r ! (b * (2 * len) + j))" "P (r ! (b * (2 * len) + len + j))"
    using assms(1) by (simp_all add: list_all_length)
qed

text \<open>A layer of the forward transform halves the size of the blocks, one of the inverse doubles it.\<close>

lemma forward_layer:
  fixes h :: "int \<Rightarrow> 'a::comm_ring_1" and n len :: nat
  assumes lv: "level h A 1 c (2 * len) r" and P: "list_all P r" and r: "length r = n * (2 * len)" and len: "0 < len"
    and step: "\<And>b x y. b < n \<Longrightarrow> P x \<Longrightarrow> P y \<Longrightarrow>
      h (g b x y) = h x + z (n + b) * h y \<and> h (f b x y) = h x - z (n + b) * h y \<and> Q (g b x y) \<and> Q (f b x y)"
    and tree: "\<And>k. n \<le> k \<Longrightarrow> k < 2 * n \<Longrightarrow> c (2 * k) = z k \<and> c (2 * k + 1) = - z k \<and> (z k) ^ 2 = c k"
  defines "r' \<equiv> fold (layer_step g f len) [0..<n] r"
  shows "length r' = length r" and "level h A 1 c len r'" and "list_all Q r'"
proof -
  have le: "n * (2 * len) \<le> length r" using r by simp
  note G = fold_layer_steps [OF le len, where g = g and f = f, folded r'_def]
  note L = level_blocks [OF r len]
  show l: "length r' = length r" by (rule G)
  have *: "h (r' ! (b * (2 * len) + j)) = residue (length r) A len (c (2 * (n + b))) j \<and>
      h (r' ! (b * (2 * len) + len + j)) = residue (length r) A len (c (2 * (n + b) + 1)) j \<and>
      Q (r' ! (b * (2 * len) + j)) \<and> Q (r' ! (b * (2 * len) + len + j))" if "b < n" "j < len" for b j
  proof -
    let ?R = "residue (length r) A (2 * len) ((z (n + b)) ^ 2)"
    have k: "n \<le> n + b" "n + b < 2 * n" using that(1) by simp_all
    have "b < length r div (2 * len)" "j < 2 * len" "len + j < 2 * len" using that L(1) by simp_all
    note lv1 = levelD [OF lv this(1,2)] levelD [OF lv this(1,3)]
    have x: "h (r ! (b * (2 * len) + j)) = ?R j" "h (r ! (b * (2 * len) + len + j)) = ?R (j + len)"
      using lv1 tree [OF k] L(1) by (simp_all add: add.assoc add.commute [of j])
    note s = step [OF that(1) list_all_blocksD [OF P r that]]
    have "residue (length r) A len (z (n + b)) j = ?R j + z (n + b) * ?R (j + len)"
      "residue (length r) A len (- z (n + b)) j = ?R j - z (n + b) * ?R (j + len)"
      using residue_split [OF L(3) len, of A "z (n + b)" j] residue_split [OF L(3) len, of A "- z (n + b)" j] by simp_all
    with s x tree [OF k] G(2,3) [OF that] show ?thesis by simp
  qed
  show "level h A 1 c len r'"
    by (rule level_halfI [where n = n]) (use * l r len in simp_all)
  show "list_all Q r'"
    by (rule list_all_blocksI [where n = n and len = len]) (use * l r len in simp_all)
qed

lemma inverse_layer:
  fixes h :: "int \<Rightarrow> 'a::comm_ring_1" and n len :: nat
  assumes lv: "level h A s c len r" and P: "list_all P r" and r: "length r = n * (2 * len)" and len: "0 < len"
    and step: "\<And>b x y. b < n \<Longrightarrow> P x \<Longrightarrow> P y \<Longrightarrow>
      h (g b x y) = h x + h y \<and> h (f b x y) = z' (n + b) * (h x - h y) \<and> Q (g b x y) \<and> Q (f b x y)"
    and tree: "\<And>k. n \<le> k \<Longrightarrow> k < 2 * n \<Longrightarrow>
      c (2 * k) = z k \<and> c (2 * k + 1) = - z k \<and> (z k) ^ 2 = c k \<and> z k * z' k = 1"
  defines "r' \<equiv> fold (layer_step g f len) [0..<n] r"
  shows "length r' = length r" and "level h A (2 * s) c (2 * len) r'" and "list_all Q r'"
proof -
  have le: "n * (2 * len) \<le> length r" using r by simp
  note G = fold_layer_steps [OF le len, where g = g and f = f, folded r'_def]
  note L = level_blocks [OF r len]
  show l: "length r' = length r" by (rule G)
  have *: "h (r' ! (b * (2 * len) + j)) = 2 * s * residue (length r) A (2 * len) (c (n + b)) j \<and>
      h (r' ! (b * (2 * len) + len + j)) = 2 * s * residue (length r) A (2 * len) (c (n + b)) (len + j) \<and>
      Q (r' ! (b * (2 * len) + j)) \<and> Q (r' ! (b * (2 * len) + len + j))" if "b < n" "j < len" for b j
  proof -
    have k: "n \<le> n + b" "n + b < 2 * n" using that(1) by simp_all
    let ?z = "z (n + b)" and ?z' = "z' (n + b)"
    have t: "c (2 * (n + b)) = ?z" "c (2 * (n + b) + 1) = - ?z" "?z ^ 2 = c (n + b)" "?z * ?z' = 1"
      using tree [OF k] by simp_all
    note x = level_halfD [OF lv r len that, unfolded t]
    note st = step [OF that(1) list_all_blocksD [OF P r that]]
    note j = residue_join [OF L(3) len t(4), of A j, unfolded t(3)]
    have "h (r' ! (b * (2 * len) + j)) = s * (residue (length r) A len ?z j + residue (length r) A len (- ?z) j)"
      unfolding G(2) [OF that] using st x by (simp add: algebra_simps)
    moreover have "h (r' ! (b * (2 * len) + len + j)) =
        s * (?z' * (residue (length r) A len ?z j - residue (length r) A len (- ?z) j))"
      unfolding G(3) [OF that] using st x by (simp add: algebra_simps)
    ultimately show ?thesis
      using st G(2,3) [OF that] unfolding j by (simp add: algebra_simps)
  qed
  show "level h A (2 * s) c (2 * len) r'"
    unfolding level_def l L(1)
  proof (intro conjI allI impI)
    fix b j assume "b < n" "j < 2 * len"
    then show "h (r' ! (b * (2 * len) + j)) = 2 * s * residue (length r) A (2 * len) (c (n + b)) j"
      using * [of b j] * [of b "j - len"] by (cases "j < len") (simp_all add: add.assoc)
  qed (rule L(3))
  show "list_all Q r'"
    by (rule list_all_blocksI [where n = n and len = len]) (use * l r len in simp_all)
qed

section \<open>Roots of unity\<close>

text \<open>
  The modulus of node \<open>k\<close> is \<open>X^m - root ^ node_exp N k\<close>, where \<open>root\<close> is a primitive \<open>N\<close>-th root of
  unity: \<open>node_exp\<close> is the bit reversal behind the order of the tables.
\<close>

fun node_exp :: "nat \<Rightarrow> nat \<Rightarrow> nat" where
  "node_exp N k =
     (if k \<le> 1 then N div 2 else node_exp N (k div 2) div 2 + (if odd k then N div 2 else 0))"

declare node_exp.simps [simp del]

lemma node_exp_children:
  assumes "1 \<le> k"
  shows "node_exp N (2 * k) = node_exp N k div 2" and "node_exp N (2 * k + 1) = node_exp N (2 * k) + N div 2"
  using assms by (simp_all add: node_exp.simps [of N "2 * k"] node_exp.simps [of N "Suc (2 * k)"])

lemma node_exp_numeral [simp]:
  "node_exp N (numeral (num.Bit0 w)) = node_exp N (numeral w) div 2"
  "node_exp N (numeral (num.Bit1 w)) = node_exp N (numeral w) div 2 + N div 2"
  "node_exp N 1 = N div 2" "node_exp N (Suc 0) = N div 2"
  "node_exp N (Suc (Suc 0)) = N div 2 div 2"
proof -
  have "numeral (num.Bit0 w) = 2 * (numeral w :: nat)" "numeral (num.Bit1 w) = 2 * (numeral w :: nat) + 1"
    "1 \<le> (numeral w :: nat)" by simp_all
  then show "node_exp N (numeral (num.Bit0 w)) = node_exp N (numeral w) div 2"
    "node_exp N (numeral (num.Bit1 w)) = node_exp N (numeral w) div 2 + N div 2"
    by (simp_all only: node_exp_children)
qed (simp_all add: node_exp.simps)

lemma node_roots:
  fixes root :: "'a::comm_ring_1"
  assumes "root ^ (N div 2) = - 1" and "1 \<le> k" and "even (node_exp N k)"
  shows "root ^ node_exp N (2 * k + 1) = - (root ^ node_exp N (2 * k))"
    and "(root ^ node_exp N (2 * k)) ^ 2 = root ^ node_exp N k"
proof -
  show "root ^ node_exp N (2 * k + 1) = - (root ^ node_exp N (2 * k))"
    unfolding node_exp_children(2) [OF assms(2)] power_add assms(1) by simp
  have "node_exp N (2 * k) * 2 = node_exp N k" using assms(2,3) by (simp add: node_exp_children(1))
  then show "(root ^ node_exp N (2 * k)) ^ 2 = root ^ node_exp N k" by (simp flip: power_mult)
qed

text \<open>To check a table, evaluate a predicate on a range of integers.\<close>

lemma list_all_range:
  assumes "list_all (\<lambda>k. P (nat k)) [int a..int b]" and "a \<le> k" and "k \<le> b"
  shows "P k"
proof -
  have "int k \<in> set [int a..int b]" using assms(2,3) by simp
  with assms(1) have "P (nat (int k))" unfolding list_all_iff by blast
  then show ?thesis by simp
qed

text \<open>Powers modulo \<open>m\<close>, by squaring.\<close>

definition powmod :: "int \<Rightarrow> nat \<Rightarrow> int \<Rightarrow> int" where
  "powmod x e m = x ^ e mod m"

lemma powmod_simps [simp]:
  "powmod x (numeral (num.Bit0 w)) m = powmod (x * x mod m) (numeral w) m"
  "powmod x (numeral (num.Bit1 w)) m = x * powmod (x * x mod m) (numeral w) m mod m"
  "powmod x 1 m = x mod m" "powmod x (Suc 0) m = x mod m" "powmod x 0 m = 1 mod m"
proof -
  have "numeral (num.Bit0 w) = 2 * (numeral w :: nat)" "numeral (num.Bit1 w) = Suc (2 * (numeral w :: nat))"
    by simp_all
  then have "x ^ numeral (num.Bit0 w) = (x * x) ^ numeral w" "x ^ numeral (num.Bit1 w) = x * (x * x) ^ numeral w"
    by (simp_all only: power_Suc power_mult power2_eq_square)
  then show "powmod x (numeral (num.Bit0 w)) m = powmod (x * x mod m) (numeral w) m"
    "powmod x (numeral (num.Bit1 w)) m = x * powmod (x * x mod m) (numeral w) m mod m"
    by (simp_all only: powmod_def power_mod mod_mult_right_eq)
qed (simp_all add: powmod_def)

text \<open>Integers modulo an odd number, as a type.\<close>

lemma of_int_bit1_eq_iff:
  "((of_int a :: 'a::finite bit1) = of_int b) = (int CARD('a bit1) dvd a - b)"
proof -
  have "Rep_bit1 (of_int z :: 'a bit1) = z mod int CARD('a bit1)" for z
    using bit1.Rep_Abs_mod by (simp add: bit1.of_int_eq)
  then have "((of_int a :: 'a bit1) = of_int b) = (a mod int CARD('a bit1) = b mod int CARD('a bit1))"
    by (metis bit1.Rep_inject_sym)
  then show ?thesis by (simp add: mod_eq_dvd)
qed

end
