(* ===== verification/MLKEM_Ntt.thy ===== *)
theory MLKEM_Ntt
  imports Ntt_Loops
begin

text \<open>
  Arithmetic modulo \<open>q = 3329\<close> and the number-theoretic transform of ML-KEM
  (\<open>pqmagic/kem/ml_kem/std/reduce.c\<close>, \<open>ntt.c\<close>).  The reductions are shown correct with their ranges;
  \<open>kem_ntt\<close> computes the remainders of a polynomial modulo the 128 quadratic factors of
  \<open>X^256 + 1\<close>, \<open>kem_invntt\<close> recovers the polynomial up to the factor \<open>2^16\<close>, and no 16-bit value
  overflows on the way.
\<close>

section \<open>The code\<close>

definition ML_KEM_N :: nat where "ML_KEM_N = 256"
definition ML_KEM_Q :: int where "ML_KEM_Q = 3329"
definition MONT :: int where "MONT = 2285"
definition QINV :: int where "QINV = 62209"

definition kem_montgomery_reduce :: "int \<Rightarrow> int" where
  "kem_montgomery_reduce a =
     (let u = i16 (i32 (a * QINV));
          t = i32 (u * ML_KEM_Q);
          t = i32 (a - t);
          t = t div 2 ^ 16
      in i16 t)"

definition kem_barrett_reduce :: "int \<Rightarrow> int" where
  "kem_barrett_reduce a =
     (let v = i16 ((2 ^ 26 + ML_KEM_Q div 2) div ML_KEM_Q);
          t = i16 (i32 (v * a + 2 ^ 25) div 2 ^ 26);
          t = i16 (t * ML_KEM_Q)
      in i16 (a - t))"

definition kem_csubq :: "int \<Rightarrow> int" where
  "kem_csubq a =
     (let a = i16 (a - ML_KEM_Q);
          a = i16 (a + ((a div 2 ^ 15) AND ML_KEM_Q))
      in a)"

definition kem_zetas :: "int list" where
  "kem_zetas =
    [2285, 2571, 2970, 1812, 1493, 1422, 287, 202, 3158, 622, 1577, 182, 962, 2127, 1855, 1468, 573, 2004,
    264, 383, 2500, 1458, 1727, 3199, 2648, 1017, 732, 608, 1787, 411, 3124, 1758, 1223, 652, 2777,
    1015, 2036, 1491, 3047, 1785, 516, 3321, 3009, 2663, 1711, 2167, 126, 1469, 2476, 3239, 3058, 830,
    107, 1908, 3082, 2378, 2931, 961, 1821, 2604, 448, 2264, 677, 2054, 2226, 430, 555, 843, 2078, 871,
    1550, 105, 422, 587, 177, 3094, 3038, 2869, 1574, 1653, 3083, 778, 1159, 3182, 2552, 1483, 2727,
    1119, 1739, 644, 2457, 349, 418, 329, 3173, 3254, 817, 1097, 603, 610, 1322, 2044, 1864, 384, 2114,
    3193, 1218, 1994, 2455, 220, 2142, 1670, 2144, 1799, 2051, 794, 1819, 2475, 2459, 478, 3221, 3021,
    996, 991, 958, 1869, 1522, 1628]"

definition kem_zetas_inv :: "int list" where
  "kem_zetas_inv =
    [1701, 1807, 1460, 2371, 2338, 2333, 308, 108, 2851, 870, 854, 1510, 2535, 1278, 1530, 1185, 1659,
    1187, 3109, 874, 1335, 2111, 136, 1215, 2945, 1465, 1285, 2007, 2719, 2726, 2232, 2512, 75, 156,
    3000, 2911, 2980, 872, 2685, 1590, 2210, 602, 1846, 777, 147, 2170, 2551, 246, 1676, 1755, 460, 291,
    235, 3152, 2742, 2907, 3224, 1779, 2458, 1251, 2486, 2774, 2899, 1103, 1275, 2652, 1065, 2881, 725,
    1508, 2368, 398, 951, 247, 1421, 3222, 2499, 271, 90, 853, 1860, 3203, 1162, 1618, 666, 320, 8,
    2813, 1544, 282, 1838, 1293, 2314, 552, 2677, 2106, 1571, 205, 2918, 1542, 2721, 2597, 2312, 681,
    130, 1602, 1871, 829, 2946, 3065, 1325, 2756, 1861, 1474, 1202, 2367, 3147, 1752, 2707, 171, 3127,
    3042, 1907, 1836, 1517, 359, 758, 1441]"

definition kem_fqmul :: "int \<Rightarrow> int \<Rightarrow> int" where
  "kem_fqmul a b = kem_montgomery_reduce (i32 (a * b))"

definition kem_ntt_butterfly :: "int \<Rightarrow> nat \<Rightarrow> nat \<Rightarrow> int list \<Rightarrow> int list" where
  "kem_ntt_butterfly zeta len j r =
     (let t = kem_fqmul zeta (r ! (j + len));
          r = r[j + len := i16 (r ! j - t)];
          r = r[j := i16 (r ! j + t)]
      in r)"

definition kem_ntt_layer :: "nat \<Rightarrow> nat \<times> int list \<Rightarrow> nat \<times> int list" where
  "kem_ntt_layer len =
     fold (\<lambda>i (k, r).
       (k + 1, fold (kem_ntt_butterfly (kem_zetas ! k) len) [i * (2 * len)..<i * (2 * len) + len] r))
       [0..<256 div (2 * len)]"

definition kem_ntt :: "int list \<Rightarrow> int list" where
  "kem_ntt r = snd (fold kem_ntt_layer [128, 64, 32, 16, 8, 4, 2] (1, r))"

definition kem_invntt_butterfly :: "int \<Rightarrow> nat \<Rightarrow> nat \<Rightarrow> int list \<Rightarrow> int list" where
  "kem_invntt_butterfly zeta len j r =
     (let t = r ! j;
          r = r[j := kem_barrett_reduce (i16 (t + r ! (j + len)))];
          r = r[j + len := i16 (t - r ! (j + len))];
          r = r[j + len := kem_fqmul zeta (r ! (j + len))]
      in r)"

definition kem_invntt_layer :: "nat \<Rightarrow> nat \<times> int list \<Rightarrow> nat \<times> int list" where
  "kem_invntt_layer len =
     fold (\<lambda>i (k, r).
       (k + 1, fold (kem_invntt_butterfly (kem_zetas_inv ! k) len) [i * (2 * len)..<i * (2 * len) + len] r))
       [0..<256 div (2 * len)]"

definition kem_invntt :: "int list \<Rightarrow> int list" where
  "kem_invntt r =
     (let r = snd (fold kem_invntt_layer [2, 4, 8, 16, 32, 64, 128] (0, r))
      in fold (\<lambda>j r. r[j := kem_fqmul (r ! j) (kem_zetas_inv ! 127)]) [0..<256] r)"

definition kem_basemul :: "int list \<Rightarrow> int list \<Rightarrow> int \<Rightarrow> int list" where
  "kem_basemul a b zeta =
     (let r0 = kem_fqmul (a ! 1) (b ! 1);
          r0 = kem_fqmul r0 zeta;
          r0 = i16 (r0 + kem_fqmul (a ! 0) (b ! 0));
          r1 = kem_fqmul (a ! 0) (b ! 1);
          r1 = i16 (r1 + kem_fqmul (a ! 1) (b ! 0))
      in [r0, r1])"

section \<open>Reductions\<close>

text \<open>Montgomery reduction divides by \<open>2^16\<close> modulo \<open>q\<close>.\<close>

lemma kem_montgomery_reduce_correct:
  assumes "- (ML_KEM_Q * 2 ^ 15) \<le> a" and "a < ML_KEM_Q * 2 ^ 15"
  shows "ML_KEM_Q dvd kem_montgomery_reduce a * 2 ^ 16 - a" and "\<bar>kem_montgomery_reduce a\<bar> < ML_KEM_Q"
proof -
  define u where "u = i16 (i32 (a * QINV))"
  have u: "- (2 ^ 15) \<le> u" "u < 2 ^ 15" by (simp_all only: u_def i16_range)
  have t: "i32 (u * ML_KEM_Q) = u * ML_KEM_Q" using u by (intro i32_id) (simp_all add: ML_KEM_Q_def)
  have t': "i32 (a - u * ML_KEM_Q) = a - u * ML_KEM_Q"
    using u assms by (intro i32_id) (simp_all add: ML_KEM_Q_def)
  have "2 ^ 16 dvd a * QINV - u"
  proof -
    have "(2 :: int) ^ 16 dvd 2 ^ 32" by (simp add: le_imp_power_dvd)
    then have "2 ^ 16 dvd a * QINV - i32 (a * QINV)" using i32_dvd by (rule dvd_trans)
    moreover have "2 ^ 16 dvd i32 (a * QINV) - u" unfolding u_def by (rule i16_dvd)
    ultimately have "2 ^ 16 dvd (a * QINV - i32 (a * QINV)) + (i32 (a * QINV) - u)" by (rule dvd_add)
    then show ?thesis by simp
  qed
  then have "2 ^ 16 dvd (a * QINV - u) * ML_KEM_Q" by (rule dvd_mult2)
  moreover have "(a * QINV - u) * ML_KEM_Q = 2 ^ 16 * (a * 3160) + (a - u * ML_KEM_Q)"
    by (simp add: QINV_def ML_KEM_Q_def algebra_simps)
  ultimately have d: "2 ^ 16 dvd a - u * ML_KEM_Q" by (simp only: dvd_add_right_iff dvd_triv_left)
  then obtain r where r: "a - u * ML_KEM_Q = 2 ^ 16 * r" by blast
  then have rng: "\<bar>r\<bar> < ML_KEM_Q" using u assms by (simp add: ML_KEM_Q_def)
  have "kem_montgomery_reduce a = i16 r"
    unfolding kem_montgomery_reduce_def Let_def u_def [symmetric] t r t' [unfolded r] by simp
  also have "\<dots> = r" using rng by (intro i16_id) (simp_all add: ML_KEM_Q_def)
  finally have k: "kem_montgomery_reduce a = r" .
  then show "\<bar>kem_montgomery_reduce a\<bar> < ML_KEM_Q" using rng by simp
  have "kem_montgomery_reduce a * 2 ^ 16 - a = ML_KEM_Q * (- u)" using r k by (simp add: algebra_simps)
  then show "ML_KEM_Q dvd kem_montgomery_reduce a * 2 ^ 16 - a" by simp
qed

text \<open>
  Barrett reduction of any 16-bit integer gives the representative of least absolute value; the
  product \<open>t * q\<close> may wrap, the difference is right nevertheless.
\<close>

lemma i16_diff: "i16 (a - i16 x) = i16 (a - x)"
proof -
  have "(a - i16 x + 2 ^ 15) mod 2 ^ 16 = (a - x + 2 ^ 15) mod 2 ^ 16"
    using i16_dvd [of x] by (simp add: mod_eq_dvd)
  then show ?thesis by (simp add: i16_def)
qed

lemma kem_barrett_reduce_correct:
  assumes "- (2 ^ 15) \<le> a" and "a < 2 ^ 15"
  shows "ML_KEM_Q dvd kem_barrett_reduce a - a" and "\<bar>kem_barrett_reduce a\<bar> \<le> 1664"
proof -
  define t where "t = (20159 * a + 2 ^ 25) div 2 ^ 26"
  define s where "s = (20159 * a + 2 ^ 25) mod 2 ^ 26"
  have s: "0 \<le> s" "s < 2 ^ 26" by (simp_all add: s_def)
  have ts: "20159 * a + 2 ^ 25 = 2 ^ 26 * t + s" by (simp add: t_def s_def)
  have tb: "\<bar>t\<bar> \<le> 10" using assms s ts by auto
  have v: "i16 ((2 ^ 26 + ML_KEM_Q div 2) div ML_KEM_Q) = 20159" by (simp add: ML_KEM_Q_def i16_def)
  have i: "i32 (20159 * a + 2 ^ 25) = 20159 * a + 2 ^ 25" using assms by (intro i32_id) simp_all
  have tt: "i16 t = t" using tb by (intro i16_id) simp_all
  have r: "- 1664 \<le> a - t * ML_KEM_Q" "a - t * ML_KEM_Q \<le> 1664"
    using s ts assms by (simp_all add: ML_KEM_Q_def)
  have "kem_barrett_reduce a = i16 (a - t * ML_KEM_Q)"
    unfolding kem_barrett_reduce_def Let_def v i t_def [symmetric] tt by (rule i16_diff)
  also have "\<dots> = a - t * ML_KEM_Q" using r by (intro i16_id) simp_all
  finally have k: "kem_barrett_reduce a = a - t * ML_KEM_Q" .
  then show "\<bar>kem_barrett_reduce a\<bar> \<le> 1664" using r by simp
  from k show "ML_KEM_Q dvd kem_barrett_reduce a - a" by simp
qed

lemma kem_csubq_correct:
  assumes "- (2 ^ 15) + ML_KEM_Q \<le> a" and "a < 2 ^ 15"
  shows "kem_csubq a = (if a \<ge> ML_KEM_Q then a - ML_KEM_Q else a)"
proof -
  have a: "i16 (a - ML_KEM_Q) = a - ML_KEM_Q" using assms by (intro i16_id) (simp_all add: ML_KEM_Q_def)
  have m: "((a - ML_KEM_Q) div 2 ^ 15) AND ML_KEM_Q = (if a - ML_KEM_Q < 0 then ML_KEM_Q else 0)"
    using assms by (intro sign_mask) (simp_all add: ML_KEM_Q_def)
  show ?thesis
    unfolding kem_csubq_def Let_def a m using assms by (auto simp: ML_KEM_Q_def i16_id)
qed

section \<open>The ring of integers modulo \<open>q\<close>\<close>

type_synonym zq = 3329

abbreviation zq :: "int \<Rightarrow> zq" where "zq \<equiv> of_int"

lemma zq_eq_iff: "(zq a = zq b) = (ML_KEM_Q dvd a - b)"
  unfolding of_int_bit1_eq_iff by (simp add: ML_KEM_Q_def)

text \<open>\<open>zeta = 17\<close> is a primitive 256th root of unity; \<open>169\<close> is the inverse of \<open>2^16\<close>.\<close>

definition kem_zeta :: zq where "kem_zeta = 17"
definition kem_R :: zq where "kem_R = 65536"
definition kem_Rinv :: zq where "kem_Rinv = 169"

lemma kem_zeta_128: "kem_zeta ^ 128 = - 1"
proof -
  have "zq (17 ^ 128) = zq (- 1)" unfolding zq_eq_iff by (simp add: ML_KEM_Q_def)
  then show ?thesis by (simp only: kem_zeta_def of_int_power of_int_numeral of_int_minus of_int_1)
qed

lemma kem_R_inv: "kem_R * kem_Rinv = 1"
proof -
  have "zq (65536 * 169) = zq 1" unfolding zq_eq_iff by (simp add: ML_KEM_Q_def)
  then show ?thesis by (simp only: kem_R_def kem_Rinv_def of_int_mult of_int_numeral of_int_1)
qed

text \<open>A product whose first factor is reduced never leaves the range of the reduction.\<close>

lemma kem_fqmul_correct:
  assumes "\<bar>a\<bar> < ML_KEM_Q" and "\<bar>b\<bar> \<le> 2 ^ 15"
  shows "zq (kem_fqmul a b) = zq a * zq b * kem_Rinv" and "\<bar>kem_fqmul a b\<bar> < ML_KEM_Q"
proof -
  have ab: "\<bar>a * b\<bar> \<le> (ML_KEM_Q - 1) * 2 ^ 15"
    unfolding abs_mult by (rule mult_mono) (use assms in simp_all)
  then have rng: "- (ML_KEM_Q * 2 ^ 15) \<le> a * b" "a * b < ML_KEM_Q * 2 ^ 15" by (simp_all add: ML_KEM_Q_def)
  have i: "i32 (a * b) = a * b" using ab by (intro i32_id) (simp_all add: ML_KEM_Q_def)
  note m = kem_montgomery_reduce_correct [OF rng]
  show "\<bar>kem_fqmul a b\<bar> < ML_KEM_Q" using m(2) by (simp add: kem_fqmul_def i)
  have "zq (kem_montgomery_reduce (a * b) * 2 ^ 16) = zq (a * b)" unfolding zq_eq_iff by (rule m(1))
  then have "zq (kem_montgomery_reduce (a * b)) * kem_R = zq a * zq b" by (simp add: kem_R_def)
  then have "zq (kem_montgomery_reduce (a * b)) * (kem_R * kem_Rinv) = zq a * zq b * kem_Rinv"
    by (simp only: mult.assoc [symmetric])
  then show "zq (kem_fqmul a b) = zq a * zq b * kem_Rinv" by (simp add: kem_fqmul_def i kem_R_inv)
qed

lemma kem_barrett_zq: "- (2 ^ 15) \<le> a \<Longrightarrow> a < 2 ^ 15 \<Longrightarrow> zq (kem_barrett_reduce a) = zq a"
  unfolding zq_eq_iff by (rule kem_barrett_reduce_correct)

section \<open>The transforms\<close>

abbreviation kem_c :: "nat \<Rightarrow> zq" where "kem_c k \<equiv> kem_zeta ^ node_exp 256 k"
abbreviation kem_z :: "nat \<Rightarrow> zq" where "kem_z k \<equiv> kem_zeta ^ node_exp 256 (2 * k)"
abbreviation kem_z' :: "nat \<Rightarrow> zq" where "kem_z' k \<equiv> kem_zeta ^ (256 - node_exp 256 (2 * k))"

lemma node_exp_256:
  assumes "1 \<le> k" and "k < 128"
  shows "even (node_exp 256 k) \<and> node_exp 256 (2 * k) \<le> 256"
proof -
  have "list_all (\<lambda>k. even (node_exp 256 (nat k)) \<and> node_exp 256 (2 * nat k) \<le> 256) [int 1..int 127]"
    by (simp add: upto.simps)
  then show ?thesis by (rule list_all_range) (use assms in simp_all)
qed

lemma kem_tree:
  assumes "1 \<le> k" and "k < 128"
  shows "kem_c (2 * k) = kem_z k \<and> kem_c (2 * k + 1) = - kem_z k \<and> (kem_z k) ^ 2 = kem_c k \<and> kem_z k * kem_z' k = 1"
proof -
  have root: "kem_zeta ^ (256 div 2) = - 1" using kem_zeta_128 by simp
  note e = node_exp_256 [OF assms]
  have "kem_z k * kem_z' k = kem_zeta ^ (128 * 2)"
    using e by (simp flip: power_add)
  also have "\<dots> = 1" unfolding power_mult kem_zeta_128 by simp
  finally show ?thesis using node_roots [OF root assms(1)] e by simp
qed

text \<open>The tables hold the roots in Montgomery form.\<close>

lemma kem_zetas_powers:
  "tl kem_zetas = map (\<lambda>k. powmod 17 (node_exp 256 (2 * nat k)) 3329 * 65536 mod 3329) [1..127]"
  by (simp add: upto.simps kem_zetas_def)

lemma kem_zetas_inv_powers:
  "butlast kem_zetas_inv = map (\<lambda>k. powmod 17 (256 - node_exp 256 (2 * nat k)) 3329 * 65536 mod 3329)
     ([64..127] @ [32..63] @ [16..31] @ [8..15] @ [4..7] @ [2..3] @ [1])"
  by (simp add: upto.simps kem_zetas_inv_def)

lemma kem_zetas_table:
  assumes "1 \<le> k" and "k < 128"
  shows "zq (kem_zetas ! k) = kem_z k * kem_R" and "0 \<le> kem_zetas ! k" and "kem_zetas ! k < ML_KEM_Q"
proof -
  have "kem_zetas ! k = tl kem_zetas ! (k - 1)"
    using assms by (cases kem_zetas) (simp_all add: kem_zetas_def)
  also have "\<dots> = 17 ^ node_exp 256 (2 * k) mod 3329 * 65536 mod 3329"
    using assms nth_upto [of 1 "k - 1" 127] unfolding kem_zetas_powers by (simp add: powmod_def of_nat_diff)
  finally have z: "kem_zetas ! k = 17 ^ node_exp 256 (2 * k) * 65536 mod 3329"
    by (simp only: mod_mult_left_eq)
  then have "zq (kem_zetas ! k) = zq (17 ^ node_exp 256 (2 * k) * 65536)"
    unfolding zq_eq_iff ML_KEM_Q_def by (simp only: z mod_eq_dvd [symmetric] mod_mod_trivial)
  then show "zq (kem_zetas ! k) = kem_z k * kem_R"
    by (simp only: kem_zeta_def kem_R_def of_int_mult of_int_power of_int_numeral)
  show "0 \<le> kem_zetas ! k" "kem_zetas ! k < ML_KEM_Q" unfolding z ML_KEM_Q_def by simp_all
qed

text \<open>Block \<open>b\<close> of the inverse layer with \<open>n\<close> blocks uses entry \<open>128 - 2 * n + b\<close>.\<close>

lemma kem_inv_nodes:
  assumes "n \<in> {1, 2, 4, 8, 16, 32, 64}" and "b < n"
  shows "([64..127] @ [32..63] @ [16..31] @ [8..15] @ [4..7] @ [2..3] @ [1]) ! (128 - 2 * n + b) = int (n + b)"
    and "128 - 2 * n + b < 127"
  using assms by (auto simp: nth_append nth_upto simp del: upto_rec_numeral)

lemma kem_zetas_inv_table:
  assumes "n \<in> {1, 2, 4, 8, 16, 32, 64}" and "b < n"
  defines "i \<equiv> 128 - 2 * n + b"
  shows "zq (kem_zetas_inv ! i) = kem_z' (n + b) * kem_R" and "0 \<le> kem_zetas_inv ! i" and "kem_zetas_inv ! i < ML_KEM_Q"
proof -
  note nodes = kem_inv_nodes [OF assms(1,2), folded i_def]
  have len: "length kem_zetas_inv = 128" by (simp add: kem_zetas_inv_def)
  then have "kem_zetas_inv ! i = butlast kem_zetas_inv ! i" using nodes(2) by (simp add: nth_butlast)
  also have "\<dots> = powmod 17 (256 - node_exp 256 (2 * (n + b))) 3329 * 65536 mod 3329"
    unfolding kem_zetas_inv_powers using nodes
    by (subst nth_map) (simp_all del: upto_rec_numeral of_nat_add add: length_upto)
  finally have z: "kem_zetas_inv ! i = 17 ^ (256 - node_exp 256 (2 * (n + b))) * 65536 mod 3329"
    by (simp only: powmod_def mod_mult_left_eq)
  then have "zq (kem_zetas_inv ! i) = zq (17 ^ (256 - node_exp 256 (2 * (n + b))) * 65536)"
    unfolding zq_eq_iff ML_KEM_Q_def by (simp only: z mod_eq_dvd [symmetric] mod_mod_trivial)
  then show "zq (kem_zetas_inv ! i) = kem_z' (n + b) * kem_R"
    by (simp only: kem_zeta_def kem_R_def of_int_mult of_int_power of_int_numeral)
  show "0 \<le> kem_zetas_inv ! i" "kem_zetas_inv ! i < ML_KEM_Q" unfolding z ML_KEM_Q_def by simp_all
qed

text \<open>The last entry of the inverse table is \<open>2^32 / 128\<close>.\<close>

lemma kem_zetas_inv_127: "zq (kem_zetas_inv ! 127) * 128 = kem_R * kem_R" "\<bar>kem_zetas_inv ! 127\<bar> < ML_KEM_Q"
proof -
  have z: "kem_zetas_inv ! 127 = 1441" by (simp add: kem_zetas_inv_def)
  have "zq (1441 * 128) = zq (65536 * 65536)" unfolding zq_eq_iff by (simp add: ML_KEM_Q_def)
  then show "zq (kem_zetas_inv ! 127) * 128 = kem_R * kem_R"
    unfolding z kem_R_def by (simp only: of_int_mult of_int_numeral)
  show "\<bar>kem_zetas_inv ! 127\<bar> < ML_KEM_Q" by (simp add: z ML_KEM_Q_def)
qed

text \<open>The loops are the butterfly loops of \<open>Ntt_Loops\<close>.\<close>

lemma kem_ntt_butterfly_pair:
  "0 < len \<Longrightarrow> kem_ntt_butterfly zeta len =
    pair_step (\<lambda>x y. i16 (x + kem_fqmul zeta y)) (\<lambda>x y. i16 (x - kem_fqmul zeta y)) len"
  by (intro ext) (simp add: kem_ntt_butterfly_def pair_step_def Let_def list_update_swap)

lemma kem_ntt_layer_steps:
  assumes "0 < len"
  shows "kem_ntt_layer len (k, r) = (k + 256 div (2 * len),
    fold (layer_step (\<lambda>b x y. i16 (x + kem_fqmul (kem_zetas ! (k + b)) y))
      (\<lambda>b x y. i16 (x - kem_fqmul (kem_zetas ! (k + b)) y)) len) [0..<256 div (2 * len)] r)"
  unfolding kem_ntt_layer_def kem_ntt_butterfly_pair [OF assms] layer_step_def
  by (rule fold_count_up)

definition small :: "int \<Rightarrow> int \<Rightarrow> bool" where
  "small B x \<longleftrightarrow> \<bar>x\<bar> \<le> B"

text \<open>One layer adds at most \<open>q - 1\<close> to the absolute values.\<close>

lemma kem_ntt_layer_level:
  assumes lv: "level zq A 1 kem_c (2 * len) r" and B: "list_all (small B) r" "B + (ML_KEM_Q - 1) < 2 ^ 15"
    and r: "length r = 256" and len: "256 = n * (2 * len)" and n: "1 \<le> n" "n \<le> 64"
  obtains r' where "kem_ntt_layer len (n, r) = (2 * n, r')" and "length r' = 256"
    and "level zq A 1 kem_c len r'" and "list_all (small (B + (ML_KEM_Q - 1))) r'"
proof -
  have pos: "0 < len" using len by (cases len) simp_all
  have r': "length r = n * (2 * len)" using r len by simp
  have step: "zq (i16 (x + kem_fqmul (kem_zetas ! (n + b)) y)) = zq x + kem_z (n + b) * zq y \<and>
      zq (i16 (x - kem_fqmul (kem_zetas ! (n + b)) y)) = zq x - kem_z (n + b) * zq y \<and>
      small (B + (ML_KEM_Q - 1)) (i16 (x + kem_fqmul (kem_zetas ! (n + b)) y)) \<and>
      small (B + (ML_KEM_Q - 1)) (i16 (x - kem_fqmul (kem_zetas ! (n + b)) y))"
    if "b < n" "small B x" "small B y" for b x y
  proof -
    have k: "1 \<le> n + b" "n + b < 128" using that(1) n by simp_all
    define t where "t = kem_fqmul (kem_zetas ! (n + b)) y"
    have "\<bar>kem_zetas ! (n + b)\<bar> < ML_KEM_Q" using kem_zetas_table(2,3) [OF k] by simp
    moreover have "\<bar>y\<bar> \<le> 2 ^ 15" using that(3) B(2) by (simp add: small_def ML_KEM_Q_def)
    ultimately have t: "zq t = zq (kem_zetas ! (n + b)) * zq y * kem_Rinv" "\<bar>t\<bar> < ML_KEM_Q"
      unfolding t_def by (rule kem_fqmul_correct)+
    have "zq t = kem_z (n + b) * zq y * (kem_R * kem_Rinv)"
      unfolding t(1) kem_zetas_table(1) [OF k] by (simp only: mult.assoc mult.commute mult.left_commute)
    then have "zq t = kem_z (n + b) * zq y" by (simp add: kem_R_inv)
    moreover have "i16 (x + t) = x + t" "i16 (x - t) = x - t"
      using that(2) t(2) B(2) by (auto intro!: i16_id simp: small_def ML_KEM_Q_def)
    ultimately show ?thesis unfolding t_def [symmetric] using that(2) t(2) by (simp add: small_def) arith
  qed
  have tree: "kem_c (2 * k) = kem_z k \<and> kem_c (2 * k + 1) = - kem_z k \<and> (kem_z k) ^ 2 = kem_c k"
    if "n \<le> k" "k < 2 * n" for k
    using kem_tree [of k] that n by simp
  note F = forward_layer [OF lv B(1) r' pos step tree]
  have d: "256 div (2 * len) = n" using len pos by (metis div_mult_self_is_m nat_0_less_mult_iff zero_less_numeral)
  have "kem_ntt_layer len (n, r) = (2 * n, fold (layer_step (\<lambda>b x y. i16 (x + kem_fqmul (kem_zetas ! (n + b)) y))
      (\<lambda>b x y. i16 (x - kem_fqmul (kem_zetas ! (n + b)) y)) len) [0..<n] r)"
    by (simp add: kem_ntt_layer_steps [OF pos] d)
  then show thesis by (rule that) (use F r in simp_all)
qed

lemma level_top: "length r = 256 \<Longrightarrow> level zq (\<lambda>j. zq (r ! j)) 1 c 256 r"
  by (simp add: level_def residue_top)

lemma pow2_split: "i < 7 \<Longrightarrow> (256 :: nat) = 2 ^ i * (2 * 2 ^ (7 - i))" "i < 7 \<Longrightarrow> (2 :: nat) ^ (8 - i) = 2 * 2 ^ (7 - i)"
proof -
  assume i: "i < 7"
  have "(2 :: nat) ^ i * (2 * 2 ^ (7 - i)) = 2 ^ (i + 1 + (7 - i))" by (simp only: power_add) simp
  also have "i + 1 + (7 - i) = 8" using i by simp
  finally show "(256 :: nat) = 2 ^ i * (2 * 2 ^ (7 - i))" by simp
  have "8 - i = Suc (7 - i)" using i by simp
  then show "(2 :: nat) ^ (8 - i) = 2 * 2 ^ (7 - i)" by simp
qed

lemma kem_ntt_layers:
  assumes a: "length a = 256" and B: "list_all (small B) a" "B \<le> 9471" and i: "i \<le> 7"
  shows "\<exists>r. fold kem_ntt_layer (map (\<lambda>j. 2 ^ (7 - j)) [0..<i]) (1, a) = (2 ^ i, r) \<and> length r = 256 \<and>
    level zq (\<lambda>j. zq (a ! j)) 1 kem_c (2 ^ (8 - i)) r \<and> list_all (small (B + int i * (ML_KEM_Q - 1))) r"
  using i
proof (induction i)
  case 0
  then show ?case using level_top [OF a, of kem_c] a B by simp
next
  case (Suc i)
  then obtain r where r: "fold kem_ntt_layer (map (\<lambda>j. 2 ^ (7 - j)) [0..<i]) (1, a) = (2 ^ i, r)" "length r = 256"
    "level zq (\<lambda>j. zq (a ! j)) 1 kem_c (2 ^ (8 - i)) r" "list_all (small (B + int i * (ML_KEM_Q - 1))) r"
    by auto
  have i: "i < 7" using Suc.prems by simp
  have "int i * (ML_KEM_Q - 1) \<le> 6 * (ML_KEM_Q - 1)"
    using i by (intro mult_right_mono) (simp_all add: ML_KEM_Q_def)
  then have "B + int i * (ML_KEM_Q - 1) + (ML_KEM_Q - 1) < 2 ^ 15" using B(2) by (simp add: ML_KEM_Q_def)
  moreover have "(2 :: nat) ^ i \<le> 2 ^ 6" using i by (intro power_increasing) simp_all
  ultimately obtain r' where "kem_ntt_layer (2 ^ (7 - i)) (2 ^ i, r) = (2 * 2 ^ i, r')" "length r' = 256"
    "level zq (\<lambda>j. zq (a ! j)) 1 kem_c (2 ^ (7 - i)) r'"
    "list_all (small (B + int i * (ML_KEM_Q - 1) + (ML_KEM_Q - 1))) r'"
    using kem_ntt_layer_level [OF r(3) [unfolded pow2_split(2) [OF i]] r(4) _ r(2) pow2_split(1) [OF i]] by auto
  then show ?case using r(1) by (simp add: algebra_simps)
qed

text \<open>
  The transform of a polynomial with coefficients of absolute value at most 9471 is the list of its
  remainders modulo the factors \<open>X^2 - kem_c k\<close>, for \<open>k = 128, \<dots>, 255\<close>; no value overflows.
\<close>

lemma kem_ntt_level:
  assumes a: "length a = 256" and B: "list_all (small B) a" "B \<le> 9471"
  shows "length (kem_ntt a) = 256" and "level zq (\<lambda>j. zq (a ! j)) 1 kem_c 2 (kem_ntt a)"
    and "list_all (small (B + 7 * (ML_KEM_Q - 1))) (kem_ntt a)"
proof -
  have "map (\<lambda>j. 2 ^ (7 - j)) [0..<7] = [128, 64, 32, 16, 8, 4, 2 :: nat]" by code_simp
  then show "length (kem_ntt a) = 256" "level zq (\<lambda>j. zq (a ! j)) 1 kem_c 2 (kem_ntt a)"
    "list_all (small (B + 7 * (ML_KEM_Q - 1))) (kem_ntt a)"
    using kem_ntt_layers [OF a B, of 7] by (auto simp: kem_ntt_def)
qed

lemma kem_invntt_butterfly_pair:
  "0 < len \<Longrightarrow> kem_invntt_butterfly zeta len =
    pair_step (\<lambda>x y. kem_barrett_reduce (i16 (x + y))) (\<lambda>x y. kem_fqmul zeta (i16 (x - y))) len"
proof (intro ext)
  fix j r assume "0 < len"
  then show "kem_invntt_butterfly zeta len j r =
    pair_step (\<lambda>x y. kem_barrett_reduce (i16 (x + y))) (\<lambda>x y. kem_fqmul zeta (i16 (x - y))) len j r"
    by (cases "j + len < length r") (simp_all add: kem_invntt_butterfly_def pair_step_def Let_def list_update_beyond)
qed

lemma kem_invntt_layer_steps:
  assumes "0 < len"
  shows "kem_invntt_layer len (k, r) = (k + 256 div (2 * len),
    fold (layer_step (\<lambda>b x y. kem_barrett_reduce (i16 (x + y)))
      (\<lambda>b x y. kem_fqmul (kem_zetas_inv ! (k + b)) (i16 (x - y))) len) [0..<256 div (2 * len)] r)"
  unfolding kem_invntt_layer_def kem_invntt_butterfly_pair [OF assms] layer_step_def
  by (rule fold_count_up)

text \<open>The butterflies of the inverse keep every value below \<open>2^14\<close>.\<close>

lemma kem_invntt_step:
  assumes n: "n \<in> {1, 2, 4, 8, 16, 32, 64}" "b < n" and xy: "small 16383 x" "small 16383 y"
  defines "z \<equiv> kem_zetas_inv ! (128 - 2 * n + b)"
  shows "zq (kem_barrett_reduce (i16 (x + y))) = zq x + zq y \<and>
      zq (kem_fqmul z (i16 (x - y))) = kem_z' (n + b) * (zq x - zq y) \<and>
      small 16383 (kem_barrett_reduce (i16 (x + y))) \<and> small 16383 (kem_fqmul z (i16 (x - y)))"
proof -
  have i: "i16 (x + y) = x + y" "i16 (x - y) = x - y"
    using xy by (auto intro!: i16_id simp: small_def)
  have rng: "- (2 ^ 15) \<le> x + y" "x + y < 2 ^ 15" "\<bar>x - y\<bar> \<le> 2 ^ 15" using xy by (simp_all add: small_def)
  note Z = kem_zetas_inv_table [OF n, folded z_def]
  have "\<bar>z\<bar> < ML_KEM_Q" using Z by simp
  note F = kem_fqmul_correct [OF this rng(3)]
  have "zq (kem_fqmul z (x - y)) = kem_z' (n + b) * (zq x - zq y) * (kem_R * kem_Rinv)"
    unfolding F(1) Z(1) by (simp only: of_int_diff mult.assoc mult.commute mult.left_commute)
  then have "zq (kem_fqmul z (x - y)) = kem_z' (n + b) * (zq x - zq y)" by (simp add: kem_R_inv)
  then show ?thesis
    using F(2) kem_barrett_zq [OF rng(1,2)] kem_barrett_reduce_correct(2) [OF rng(1,2)] unfolding i
    by (simp add: small_def ML_KEM_Q_def)
qed

lemma kem_invntt_layer_level:
  assumes lv: "level zq A s kem_c len r" and P: "list_all (small 16383) r"
    and r: "length r = 256" and len: "256 = n * (2 * len)" and n: "n \<in> {1, 2, 4, 8, 16, 32, 64}"
  obtains r' where "kem_invntt_layer len (128 - 2 * n, r) = (128 - n, r')" and "length r' = 256"
    and "level zq A (2 * s) kem_c (2 * len) r'" and "list_all (small 16383) r'"
proof -
  have pos: "0 < len" using len by (cases len) simp_all
  have r': "length r = n * (2 * len)" using r len by simp
  have tree: "kem_c (2 * k) = kem_z k \<and> kem_c (2 * k + 1) = - kem_z k \<and> (kem_z k) ^ 2 = kem_c k \<and> kem_z k * kem_z' k = 1"
    if "n \<le> k" "k < 2 * n" for k
    by (rule kem_tree) (use that n in auto)
  note F = inverse_layer [OF lv P r' pos kem_invntt_step [OF n] tree]
  have d: "256 div (2 * len) = n" using len pos by (metis div_mult_self_is_m nat_0_less_mult_iff zero_less_numeral)
  have "128 - 2 * n + n = 128 - n" using n by auto
  then have "kem_invntt_layer len (128 - 2 * n, r) = (128 - n, fold (layer_step (\<lambda>b x y. kem_barrett_reduce (i16 (x + y)))
      (\<lambda>b x y. kem_fqmul (kem_zetas_inv ! (128 - 2 * n + b)) (i16 (x - y))) len) [0..<n] r)"
    by (simp add: kem_invntt_layer_steps [OF pos] d)
  then show thesis by (rule that) (use F r in simp_all)
qed

lemma pow2_split': "i < 7 \<Longrightarrow> (256 :: nat) = 2 ^ (6 - i) * (2 * 2 ^ (i + 1))"
  "i < 7 \<Longrightarrow> (2 :: nat) ^ (7 - i) = 2 * 2 ^ (6 - i)"
proof -
  assume i: "i < 7"
  have "7 - i = Suc (6 - i)" using i by simp
  then show "(2 :: nat) ^ (7 - i) = 2 * 2 ^ (6 - i)" by simp
  have "6 - i < 7" "7 - (6 - i) = i + 1" using i by simp_all
  then show "(256 :: nat) = 2 ^ (6 - i) * (2 * 2 ^ (i + 1))" using pow2_split(1) [of "6 - i"] by metis
qed

lemma pow2_below: "i < 7 \<Longrightarrow> (2 :: nat) ^ (6 - i) \<in> {1, 2, 4, 8, 16, 32, 64}"
proof -
  assume "i < 7"
  then have "6 - i \<in> {0, 1, 2, 3, 4, 5, 6}" by auto
  then show ?thesis by auto
qed

lemma kem_invntt_layers:
  assumes lv: "level zq A s kem_c 2 r" and P: "list_all (small 16383) r" and r: "length r = 256" and i: "i \<le> 7"
  shows "\<exists>r'. fold kem_invntt_layer (map (\<lambda>j. 2 ^ (j + 1)) [0..<i]) (0, r) = (128 - 2 ^ (7 - i), r') \<and> length r' = 256 \<and>
    level zq A (2 ^ i * s) kem_c (2 ^ (i + 1)) r' \<and> list_all (small 16383) r'"
  using i
proof (induction i)
  case 0
  then show ?case using assms by simp
next
  case (Suc i)
  then obtain r' where r': "fold kem_invntt_layer (map (\<lambda>j. 2 ^ (j + 1)) [0..<i]) (0, r) = (128 - 2 ^ (7 - i), r')"
    "length r' = 256" "level zq A (2 ^ i * s) kem_c (2 ^ (i + 1)) r'" "list_all (small 16383) r'"
    by auto
  have i: "i < 7" using Suc.prems by simp
  obtain r'' where "kem_invntt_layer (2 ^ (i + 1)) (128 - 2 * 2 ^ (6 - i), r') = (128 - 2 ^ (6 - i), r'')" "length r'' = 256"
    "level zq A (2 * (2 ^ i * s)) kem_c (2 * 2 ^ (i + 1)) r''" "list_all (small 16383) r''"
    by (rule kem_invntt_layer_level [OF r'(3,4,2) pow2_split'(1) [OF i] pow2_below [OF i]])
  then show ?case using r'(1) i by (simp add: pow2_split'(2) [OF i] mult.assoc)
qed

lemma fold_map_upt:
  assumes "n \<le> length r"
  shows "fold (\<lambda>j r. r[j := f (r ! j)]) [0..<n] r = map f (take n r) @ drop n r"
  using assms
proof (induction n)
  case (Suc n)
  then have "(map f (take n r) @ drop n r) ! n = r ! n" by (simp add: nth_append)
  moreover have "drop n r = r ! n # drop (Suc n) r" using Suc.prems by (simp add: Cons_nth_drop_Suc)
  ultimately show ?case using Suc by (simp add: list_update_append take_Suc_conv_app_nth)
qed simp

text \<open>The inverse recovers the polynomial, multiplied by \<open>2^16\<close>.\<close>

lemma kem_invntt_level:
  assumes lv: "level zq A s kem_c 2 r" and P: "list_all (small 16383) r" and r: "length r = 256"
  shows "length (kem_invntt r) = 256" and "j < 256 \<Longrightarrow> zq (kem_invntt r ! j) = s * kem_R * A j"
    and "list_all (small (ML_KEM_Q - 1)) (kem_invntt r)"
proof -
  have "map (\<lambda>j. 2 ^ (j + 1)) [0..<7] = [2, 4, 8, 16, 32, 64, 128 :: nat]" by code_simp
  then obtain r' where r': "fold kem_invntt_layer [2, 4, 8, 16, 32, 64, 128] (0, r) = (127, r')" "length r' = 256"
    "level zq A (128 * s) kem_c 256 r'" "list_all (small 16383) r'"
    using kem_invntt_layers [OF assms, of 7] by auto
  have k: "kem_invntt r = map (\<lambda>x. kem_fqmul x (kem_zetas_inv ! 127)) r'"
    by (simp only: kem_invntt_def Let_def r'(1) snd_conv) (use fold_map_upt [of 256 r' "\<lambda>x. kem_fqmul x (kem_zetas_inv ! 127)"] r'(2) in simp)
  show "length (kem_invntt r) = 256" by (simp add: k r')
  have comm: "kem_fqmul x y = kem_fqmul y x" for x y by (simp add: kem_fqmul_def mult.commute)
  have x: "zq (kem_invntt r ! j) = zq (kem_zetas_inv ! 127) * zq (r' ! j) * kem_Rinv \<and> \<bar>kem_invntt r ! j\<bar> < ML_KEM_Q"
    if "j < 256" for j
  proof -
    have "\<bar>r' ! j\<bar> \<le> 2 ^ 15" using r'(2,4) that by (auto simp: list_all_length small_def)
    from kem_fqmul_correct [OF kem_zetas_inv_127(2) this] show ?thesis
      using that r'(2) by (simp add: k comm [of "r' ! j"])
  qed
  then show "list_all (small (ML_KEM_Q - 1)) (kem_invntt r)"
    using r'(2) by (auto simp: list_all_length small_def k)
  assume j: "j < 256"
  have "zq (r' ! j) = 128 * s * A j" using levelD [OF r'(3), of 0 j] j r'(2) by (simp add: residue_top)
  then have "zq (kem_invntt r ! j) = zq (kem_zetas_inv ! 127) * 128 * s * A j * kem_Rinv"
    using x [OF j] by (simp only: mult.assoc)
  also have "\<dots> = s * kem_R * A j * (kem_R * kem_Rinv)"
    unfolding kem_zetas_inv_127(1) by (simp only: mult.assoc mult.commute mult.left_commute)
  finally show "zq (kem_invntt r ! j) = s * kem_R * A j" by (simp only: kem_R_inv mult_1_right)
qed

end
