(* ===== verification/MLKEM_Poly.thy ===== *)
theory MLKEM_Poly
  imports MLKEM_Ntt
begin

text \<open>
  Polynomials and vectors of polynomials of ML-KEM (\<open>pqmagic/kem/ml_kem/std/poly.c\<close>,
  \<open>polyvec.c\<close>, \<open>cbd.c\<close>, \<open>verify.c\<close>, \<open>params.h\<close>).  A polynomial is the list of its 256 coefficients
  (\<open>int16_t coeffs[256]\<close>), a vector the list of its \<open>ML_KEM_K\<close> polynomials.  An output buffer that a
  loop fills front to back is the concatenation of what its rounds write.
\<close>

type_synonym poly = "int list"
type_synonym polyvec = "poly list"

section \<open>Parameters\<close>

text \<open>The three parameter sets differ in \<open>ML_KEM_K\<close>, 2, 3 or 4, which is the argument \<open>K\<close>.\<close>

definition ML_KEM_K :: "nat \<Rightarrow> nat option" where
  "ML_KEM_K ML_KEM_MODE =
     (if ML_KEM_MODE = 512 then Some 2 else if ML_KEM_MODE = 768 then Some 3
      else if ML_KEM_MODE = 1024 then Some 4 else None)"

definition ML_KEM_SYMBYTES :: nat where "ML_KEM_SYMBYTES = 32"
definition ML_KEM_SSBYTES :: nat where "ML_KEM_SSBYTES = 32"
definition ML_KEM_POLYBYTES :: nat where "ML_KEM_POLYBYTES = 384"
definition ML_KEM_POLYVECBYTES :: "nat \<Rightarrow> nat" where "ML_KEM_POLYVECBYTES K = K * ML_KEM_POLYBYTES"
definition ML_KEM_ETA1 :: "nat \<Rightarrow> nat" where "ML_KEM_ETA1 K = (if K = 2 then 3 else 2)"
definition ML_KEM_POLYCOMPRESSEDBYTES :: "nat \<Rightarrow> nat" where
  "ML_KEM_POLYCOMPRESSEDBYTES K = (if K = 4 then 160 else 128)"
definition ML_KEM_POLYVECCOMPRESSEDBYTES :: "nat \<Rightarrow> nat" where
  "ML_KEM_POLYVECCOMPRESSEDBYTES K = (if K = 4 then K * 352 else K * 320)"
definition ML_KEM_ETA2 :: nat where "ML_KEM_ETA2 = 2"
definition ML_KEM_INDCPA_MSGBYTES :: nat where "ML_KEM_INDCPA_MSGBYTES = ML_KEM_SYMBYTES"
definition ML_KEM_INDCPA_PUBLICKEYBYTES :: "nat \<Rightarrow> nat" where
  "ML_KEM_INDCPA_PUBLICKEYBYTES K = ML_KEM_POLYVECBYTES K + ML_KEM_SYMBYTES"
definition ML_KEM_INDCPA_SECRETKEYBYTES :: "nat \<Rightarrow> nat" where
  "ML_KEM_INDCPA_SECRETKEYBYTES K = ML_KEM_POLYVECBYTES K"
definition ML_KEM_INDCPA_BYTES :: "nat \<Rightarrow> nat" where
  "ML_KEM_INDCPA_BYTES K = ML_KEM_POLYVECCOMPRESSEDBYTES K + ML_KEM_POLYCOMPRESSEDBYTES K"
definition ML_KEM_PUBLICKEYBYTES :: "nat \<Rightarrow> nat" where
  "ML_KEM_PUBLICKEYBYTES K = ML_KEM_INDCPA_PUBLICKEYBYTES K"
definition ML_KEM_SECRETKEYBYTES :: "nat \<Rightarrow> nat" where
  "ML_KEM_SECRETKEYBYTES K =
     ML_KEM_INDCPA_SECRETKEYBYTES K + ML_KEM_INDCPA_PUBLICKEYBYTES K + 2 * ML_KEM_SYMBYTES"
definition ML_KEM_CIPHERTEXTBYTES :: "nat \<Rightarrow> nat" where
  "ML_KEM_CIPHERTEXTBYTES K = ML_KEM_INDCPA_BYTES K"

section \<open>The code\<close>

subsection \<open>\<open>poly.c\<close>\<close>

definition kem_compress_d4 :: "int \<Rightarrow> u8" where
  "kem_compress_d4 tmp =
     (let tmp = i16 (tmp + ((tmp div 2 ^ 15) AND ML_KEM_Q))
      in word_of_int (((u16i tmp * 2 ^ 4 + ML_KEM_Q div 2) div ML_KEM_Q) AND 15))"

definition kem_poly_compress128 :: "poly \<Rightarrow> bytes" where
  "kem_poly_compress128 a =
     concat (map (\<lambda>i.
       let t = map (\<lambda>j. kem_compress_d4 (a ! (8 * i + j))) [0..<8]
       in [t ! 0 OR push_bit 4 (t ! 1), t ! 2 OR push_bit 4 (t ! 3),
           t ! 4 OR push_bit 4 (t ! 5), t ! 6 OR push_bit 4 (t ! 7)]) [0..<ML_KEM_N div 8])"

definition kem_compress_d5 :: "int \<Rightarrow> u8" where
  "kem_compress_d5 tmp =
     (let tmp = i16 (tmp + ((tmp div 2 ^ 15) AND ML_KEM_Q))
      in word_of_int ((u32i (u32i (u32i tmp * 2 ^ 5) + ML_KEM_Q div 2) div ML_KEM_Q) AND 31))"

definition kem_poly_compress160 :: "poly \<Rightarrow> bytes" where
  "kem_poly_compress160 a =
     concat (map (\<lambda>i.
       let t = map (\<lambda>j. kem_compress_d5 (a ! (8 * i + j))) [0..<8]
       in [t ! 0 OR push_bit 5 (t ! 1),
           drop_bit 3 (t ! 1) OR push_bit 2 (t ! 2) OR push_bit 7 (t ! 3),
           drop_bit 1 (t ! 3) OR push_bit 4 (t ! 4),
           drop_bit 4 (t ! 4) OR push_bit 1 (t ! 5) OR push_bit 6 (t ! 6),
           drop_bit 2 (t ! 6) OR push_bit 3 (t ! 7)]) [0..<ML_KEM_N div 8])"

definition kem_poly_compress :: "nat \<Rightarrow> poly \<Rightarrow> bytes" where
  "kem_poly_compress K a =
     (if ML_KEM_POLYCOMPRESSEDBYTES K = 128 then kem_poly_compress128 a else kem_poly_compress160 a)"

definition kem_poly_decompress128 :: "bytes \<Rightarrow> poly" where
  "kem_poly_decompress128 a =
     concat (map (\<lambda>i.
       [i16 ((uint (a ! i AND 15) * ML_KEM_Q + 8) div 2 ^ 4),
        i16 ((uint (drop_bit 4 (a ! i)) * ML_KEM_Q + 8) div 2 ^ 4)]) [0..<ML_KEM_N div 2])"

definition kem_unpack5 :: "bytes \<Rightarrow> u8 list" where
  "kem_unpack5 a =
     [a ! 0,
      drop_bit 5 (a ! 0) OR push_bit 3 (a ! 1),
      drop_bit 2 (a ! 1),
      drop_bit 7 (a ! 1) OR push_bit 1 (a ! 2),
      drop_bit 4 (a ! 2) OR push_bit 4 (a ! 3),
      drop_bit 1 (a ! 3),
      drop_bit 6 (a ! 3) OR push_bit 2 (a ! 4),
      drop_bit 3 (a ! 4)]"

definition kem_poly_decompress160 :: "bytes \<Rightarrow> poly" where
  "kem_poly_decompress160 a =
     concat (map (\<lambda>i.
       let t = kem_unpack5 (bslice (5 * i) 5 a)
       in map (\<lambda>j. i16 (u32i (uint (t ! j AND 31) * ML_KEM_Q + 16) div 2 ^ 5)) [0..<8]) [0..<ML_KEM_N div 8])"

definition kem_poly_decompress :: "nat \<Rightarrow> bytes \<Rightarrow> poly" where
  "kem_poly_decompress K a =
     (if ML_KEM_POLYCOMPRESSEDBYTES K = 128 then kem_poly_decompress128 a else kem_poly_decompress160 a)"

definition kem_poly_tobytes :: "poly \<Rightarrow> bytes" where
  "kem_poly_tobytes a =
     concat (map (\<lambda>i.
       let t0 = word_of_int (a ! (2 * i)) :: u16;
           t0 = t0 + (signed_drop_bit 15 t0 AND word_of_int ML_KEM_Q);
           t1 = word_of_int (a ! (2 * i + 1)) :: u16;
           t1 = t1 + (signed_drop_bit 15 t1 AND word_of_int ML_KEM_Q)
       in [ucast t0, ucast (drop_bit 8 t0) OR ucast (push_bit 4 t1), ucast (drop_bit 4 t1)])
       [0..<ML_KEM_N div 2])"

definition kem_poly_frombytes :: "bytes \<Rightarrow> poly" where
  "kem_poly_frombytes a =
     concat (map (\<lambda>i.
       [sint ((ucast (a ! (3 * i)) OR push_bit 8 (ucast (a ! (3 * i + 1)))) AND 0xFFF :: u16),
        sint ((ucast (drop_bit 4 (a ! (3 * i + 1))) OR push_bit 4 (ucast (a ! (3 * i + 2)))) AND 0xFFF :: u16)])
       [0..<ML_KEM_N div 2])"

definition kem_poly_frommsg :: "bytes \<Rightarrow> poly" where
  "kem_poly_frommsg msg =
     concat (map (\<lambda>i. map (\<lambda>j.
       let mask = i16 (- uint (drop_bit j (msg ! i) AND 1))
       in mask AND ((ML_KEM_Q + 1) div 2)) [0..<8]) [0..<ML_KEM_N div 8])"

definition kem_poly_tomsg :: "poly \<Rightarrow> bytes" where
  "kem_poly_tomsg a =
     map (\<lambda>i. fold (\<lambda>j m.
       let t = u16i (a ! (8 * i + j));
           t = u16i (t + ((i16 t div 2 ^ 15) AND ML_KEM_Q));
           t = u16i (((t * 2 + ML_KEM_Q div 2) div ML_KEM_Q) AND 1)
       in m OR word_of_int (t * 2 ^ j)) [0..<8] (0 :: u8)) [0..<ML_KEM_N div 8]"

definition kem_poly_reduce :: "poly \<Rightarrow> poly" where
  "kem_poly_reduce r = map kem_barrett_reduce r"

definition kem_poly_ntt :: "poly \<Rightarrow> poly" where
  "kem_poly_ntt r = kem_poly_reduce (kem_ntt r)"

definition kem_poly_invntt_tomont :: "poly \<Rightarrow> poly" where
  "kem_poly_invntt_tomont r = kem_invntt r"

definition kem_poly_basemul_montgomery :: "poly \<Rightarrow> poly \<Rightarrow> poly" where
  "kem_poly_basemul_montgomery a b =
     concat (map (\<lambda>i.
       kem_basemul (bslice (4 * i) 2 a) (bslice (4 * i) 2 b) (kem_zetas ! (64 + i)) @
       kem_basemul (bslice (4 * i + 2) 2 a) (bslice (4 * i + 2) 2 b) (i16 (- (kem_zetas ! (64 + i)))))
       [0..<ML_KEM_N div 4])"

definition kem_poly_tomont :: "poly \<Rightarrow> poly" where
  "kem_poly_tomont r =
     (let f = i16 (2 ^ 32 mod ML_KEM_Q) in map (\<lambda>x. kem_montgomery_reduce (i32 (x * f))) r)"

definition kem_poly_add :: "poly \<Rightarrow> poly \<Rightarrow> poly" where
  "kem_poly_add a b = map2 (\<lambda>x y. i16 (x + y)) a b"

definition kem_poly_sub :: "poly \<Rightarrow> poly \<Rightarrow> poly" where
  "kem_poly_sub a b = map2 (\<lambda>x y. i16 (x - y)) a b"

subsection \<open>\<open>cbd.c\<close>\<close>

definition kem_load32_littleendian :: "bytes \<Rightarrow> u32" where
  "kem_load32_littleendian x =
     (let r = ucast (x ! 0);
          r = r OR push_bit 8 (ucast (x ! 1));
          r = r OR push_bit 16 (ucast (x ! 2));
          r = r OR push_bit 24 (ucast (x ! 3))
      in r)"

definition kem_load24_littleendian :: "bytes \<Rightarrow> u32" where
  "kem_load24_littleendian x =
     (let r = ucast (x ! 0);
          r = r OR push_bit 8 (ucast (x ! 1));
          r = r OR push_bit 16 (ucast (x ! 2))
      in r)"

definition kem_cbd2 :: "bytes \<Rightarrow> poly" where
  "kem_cbd2 buf =
     concat (map (\<lambda>i.
       let t = kem_load32_littleendian (drop (4 * i) buf);
           d = t AND 0x55555555;
           d = d + (drop_bit 1 t AND 0x55555555)
       in map (\<lambda>j.
            let a = uint (drop_bit (4 * j) d AND 0x3);
                b = uint (drop_bit (4 * j + 2) d AND 0x3)
            in i16 (a - b)) [0..<8]) [0..<ML_KEM_N div 8])"

definition kem_cbd3 :: "bytes \<Rightarrow> poly" where
  "kem_cbd3 buf =
     concat (map (\<lambda>i.
       let t = kem_load24_littleendian (drop (3 * i) buf);
           d = t AND 0x00249249;
           d = d + (drop_bit 1 t AND 0x00249249);
           d = d + (drop_bit 2 t AND 0x00249249)
       in map (\<lambda>j.
            let a = uint (drop_bit (6 * j) d AND 0x7);
                b = uint (drop_bit (6 * j + 3) d AND 0x7)
            in i16 (a - b)) [0..<4]) [0..<ML_KEM_N div 4])"

definition kem_cbd_eta1 :: "nat \<Rightarrow> bytes \<Rightarrow> poly" where
  "kem_cbd_eta1 K buf = (if ML_KEM_ETA1 K = 2 then kem_cbd2 buf else kem_cbd3 buf)"

definition kem_cbd_eta2 :: "bytes \<Rightarrow> poly" where
  "kem_cbd_eta2 buf = kem_cbd2 buf"

subsection \<open>\<open>verify.c\<close>\<close>

definition kem_verify :: "bytes \<Rightarrow> bytes \<Rightarrow> nat \<Rightarrow> int" where
  "kem_verify a b len =
     (let r = fold (\<lambda>i r. r OR (a ! i XOR b ! i)) [0..<len] (0 :: u8)
      in sint (ucast (drop_bit 63 (- ucast r :: u64)) :: u32))"

definition kem_cmov :: "bytes \<Rightarrow> bytes \<Rightarrow> nat \<Rightarrow> u8 \<Rightarrow> bytes" where
  "kem_cmov r x len b =
     (let b = - b in fold (\<lambda>i r. r[i := r ! i XOR (b AND (r ! i XOR x ! i))]) [0..<len] r)"

subsection \<open>\<open>polyvec.c\<close>\<close>

definition kem_compress_d11 :: "int \<Rightarrow> u16" where
  "kem_compress_d11 c =
     (let t = word_of_int c :: u16;
          t = t + (signed_drop_bit 15 t AND word_of_int ML_KEM_Q)
      in ucast (((push_bit 11 (ucast t) + word_of_int (ML_KEM_Q div 2)) div word_of_int ML_KEM_Q) AND 0x7ff :: u32))"

definition kem_polyvec_compress352 :: "polyvec \<Rightarrow> bytes" where
  "kem_polyvec_compress352 a =
     concat (map (\<lambda>p. concat (map (\<lambda>j.
       let t = map (\<lambda>k. kem_compress_d11 (p ! (8 * j + k))) [0..<8]
       in [ucast (t ! 0),
           ucast (drop_bit 8 (t ! 0)) OR ucast (push_bit 3 (t ! 1)),
           ucast (drop_bit 5 (t ! 1)) OR ucast (push_bit 6 (t ! 2)),
           ucast (drop_bit 2 (t ! 2)),
           ucast (drop_bit 10 (t ! 2)) OR ucast (push_bit 1 (t ! 3)),
           ucast (drop_bit 7 (t ! 3)) OR ucast (push_bit 4 (t ! 4)),
           ucast (drop_bit 4 (t ! 4)) OR ucast (push_bit 7 (t ! 5)),
           ucast (drop_bit 1 (t ! 5)),
           ucast (drop_bit 9 (t ! 5)) OR ucast (push_bit 2 (t ! 6)),
           ucast (drop_bit 6 (t ! 6)) OR ucast (push_bit 5 (t ! 7)),
           ucast (drop_bit 3 (t ! 7))]) [0..<ML_KEM_N div 8])) a)"

definition kem_compress_d10 :: "int \<Rightarrow> u16" where
  "kem_compress_d10 c =
     (let t = word_of_int c :: u16;
          t = t + (signed_drop_bit 15 t AND word_of_int ML_KEM_Q)
      in ucast (((push_bit 10 (ucast t) + word_of_int (ML_KEM_Q div 2)) div word_of_int ML_KEM_Q) AND 0x3ff :: u32))"

definition kem_polyvec_compress320 :: "polyvec \<Rightarrow> bytes" where
  "kem_polyvec_compress320 a =
     concat (map (\<lambda>p. concat (map (\<lambda>j.
       let t = map (\<lambda>k. kem_compress_d10 (p ! (4 * j + k))) [0..<4]
       in [ucast (t ! 0),
           ucast (drop_bit 8 (t ! 0)) OR ucast (push_bit 2 (t ! 1)),
           ucast (drop_bit 6 (t ! 1)) OR ucast (push_bit 4 (t ! 2)),
           ucast (drop_bit 4 (t ! 2)) OR ucast (push_bit 6 (t ! 3)),
           ucast (drop_bit 2 (t ! 3))]) [0..<ML_KEM_N div 4])) a)"

definition kem_polyvec_compress :: "nat \<Rightarrow> polyvec \<Rightarrow> bytes" where
  "kem_polyvec_compress K a =
     (if ML_KEM_POLYVECCOMPRESSEDBYTES K = K * 352 then kem_polyvec_compress352 a else kem_polyvec_compress320 a)"

definition kem_unpack11 :: "bytes \<Rightarrow> u16 list" where
  "kem_unpack11 a =
     [ucast (a ! 0) OR push_bit 8 (ucast (a ! 1)),
      ucast (drop_bit 3 (a ! 1)) OR push_bit 5 (ucast (a ! 2)),
      ucast (drop_bit 6 (a ! 2)) OR push_bit 2 (ucast (a ! 3)) OR push_bit 10 (ucast (a ! 4)),
      ucast (drop_bit 1 (a ! 4)) OR push_bit 7 (ucast (a ! 5)),
      ucast (drop_bit 4 (a ! 5)) OR push_bit 4 (ucast (a ! 6)),
      ucast (drop_bit 7 (a ! 6)) OR push_bit 1 (ucast (a ! 7)) OR push_bit 9 (ucast (a ! 8)),
      ucast (drop_bit 2 (a ! 8)) OR push_bit 6 (ucast (a ! 9)),
      ucast (drop_bit 5 (a ! 9)) OR push_bit 3 (ucast (a ! 10))]"

definition kem_polyvec_decompress352 :: "nat \<Rightarrow> bytes \<Rightarrow> polyvec" where
  "kem_polyvec_decompress352 K a =
     map (\<lambda>i. concat (map (\<lambda>j.
       let t = kem_unpack11 (bslice (352 * i + 11 * j) 11 a)
       in map (\<lambda>k. i16 (u32i (uint (t ! k AND 0x7FF) * ML_KEM_Q + 1024) div 2 ^ 11)) [0..<8]) [0..<ML_KEM_N div 8])) [0..<K]"

definition kem_unpack10 :: "bytes \<Rightarrow> u16 list" where
  "kem_unpack10 a =
     [ucast (a ! 0) OR push_bit 8 (ucast (a ! 1)),
      ucast (drop_bit 2 (a ! 1)) OR push_bit 6 (ucast (a ! 2)),
      ucast (drop_bit 4 (a ! 2)) OR push_bit 4 (ucast (a ! 3)),
      ucast (drop_bit 6 (a ! 3)) OR push_bit 2 (ucast (a ! 4))]"

definition kem_polyvec_decompress320 :: "nat \<Rightarrow> bytes \<Rightarrow> polyvec" where
  "kem_polyvec_decompress320 K a =
     map (\<lambda>i. concat (map (\<lambda>j.
       let t = kem_unpack10 (bslice (320 * i + 5 * j) 5 a)
       in map (\<lambda>k. i16 (u32i (uint (t ! k AND 0x3FF) * ML_KEM_Q + 512) div 2 ^ 10)) [0..<4]) [0..<ML_KEM_N div 4])) [0..<K]"

definition kem_polyvec_decompress :: "nat \<Rightarrow> bytes \<Rightarrow> polyvec" where
  "kem_polyvec_decompress K a =
     (if ML_KEM_POLYVECCOMPRESSEDBYTES K = K * 352 then kem_polyvec_decompress352 K a else kem_polyvec_decompress320 K a)"

definition kem_polyvec_tobytes :: "polyvec \<Rightarrow> bytes" where
  "kem_polyvec_tobytes a = concat (map kem_poly_tobytes a)"

definition kem_polyvec_frombytes :: "nat \<Rightarrow> bytes \<Rightarrow> polyvec" where
  "kem_polyvec_frombytes K a =
     map (\<lambda>i. kem_poly_frombytes (bslice (i * ML_KEM_POLYBYTES) ML_KEM_POLYBYTES a)) [0..<K]"

definition kem_polyvec_ntt :: "polyvec \<Rightarrow> polyvec" where
  "kem_polyvec_ntt r = map kem_poly_ntt r"

definition kem_polyvec_invntt_tomont :: "polyvec \<Rightarrow> polyvec" where
  "kem_polyvec_invntt_tomont r = map kem_poly_invntt_tomont r"

definition kem_polyvec_pointwise_acc_montgomery :: "nat \<Rightarrow> polyvec \<Rightarrow> polyvec \<Rightarrow> poly" where
  "kem_polyvec_pointwise_acc_montgomery K a b =
     (let r = kem_poly_basemul_montgomery (a ! 0) (b ! 0);
          r = fold (\<lambda>i r. let t = kem_poly_basemul_montgomery (a ! i) (b ! i) in kem_poly_add r t) [1..<K] r
      in kem_poly_reduce r)"

definition kem_polyvec_reduce :: "polyvec \<Rightarrow> polyvec" where
  "kem_polyvec_reduce r = map kem_poly_reduce r"

definition kem_polyvec_add :: "polyvec \<Rightarrow> polyvec \<Rightarrow> polyvec" where
  "kem_polyvec_add a b = map2 kem_poly_add a b"

end
