(* ===== verification/MLKEM.thy ===== *)
theory MLKEM
  imports MLKEM_Poly Keccak_Sponge Sm3_Mgf
begin

text \<open>
  ML-KEM (\<open>pqmagic/kem/ml_kem/std/symmetric.c\<close>, \<open>symmetric.h\<close>, \<open>sm3_hash.c\<close>, \<open>indcpa.c\<close>, \<open>kem.c\<close>).
  The symmetric primitives are chosen at compile time: with \<open>USE_SHAKE\<close> they are SHA3 and SHAKE,
  without it SM3 in counter mode.  They are the record \<open>kem_sym\<close>; \<open>kem_shake\<close> and \<open>kem_sm3\<close> are the
  two builds.  Rejection sampling may need any number of blocks, so key generation, encapsulation and
  decapsulation return \<open>None\<close> where the program would not return.
\<close>

section \<open>Symmetric primitives\<close>

text \<open>\<open>kem_gen_poly seed x y\<close> is the body of the inner loop of \<open>gen_matrix\<close>.\<close>

record kem_sym =
  kem_hash_h :: "bytes \<Rightarrow> bytes"
  kem_hash_g :: "bytes \<Rightarrow> bytes"
  kem_prf :: "nat \<Rightarrow> bytes \<Rightarrow> u8 \<Rightarrow> bytes"
  kem_rkprf :: "bytes \<Rightarrow> bytes \<Rightarrow> bytes"
  kem_gen_poly :: "bytes \<Rightarrow> u8 \<Rightarrow> u8 \<Rightarrow> poly option"

definition XOF_BLOCKBYTES :: nat where "XOF_BLOCKBYTES = SHAKE128_RATE"

definition GEN_MATRIX_NBLOCKS :: nat where
  "GEN_MATRIX_NBLOCKS = (12 * ML_KEM_N div 8 * 2 ^ 12 div nat ML_KEM_Q + XOF_BLOCKBYTES) div XOF_BLOCKBYTES"

definition shake128_absorb_extend :: "bytes \<Rightarrow> u8 \<Rightarrow> u8 \<Rightarrow> keccak_state" where
  "shake128_absorb_extend seed x y = shake128_absorb_once (seed @ [x, y])"

definition shake256_prf :: "nat \<Rightarrow> bytes \<Rightarrow> u8 \<Rightarrow> bytes" where
  "shake256_prf outlen key nonce = shake256 outlen (key @ [nonce])"

definition shake256_rkprf :: "bytes \<Rightarrow> bytes \<Rightarrow> bytes" where
  "shake256_rkprf key ct =
     (let s = shake256_init;
          s = shake256_absorb s key;
          s = shake256_absorb s ct;
          s = shake256_finalize s
      in fst (shake256_squeeze ML_KEM_SSBYTES s))"

definition sm3_prf :: "nat \<Rightarrow> bytes \<Rightarrow> u8 \<Rightarrow> bytes" where
  "sm3_prf outlen key nonce = sm3_extended outlen (key @ [nonce])"

definition sm3_rkprf :: "bytes \<Rightarrow> bytes \<Rightarrow> bytes" where
  "sm3_rkprf key ct = sm3_extended ML_KEM_SYMBYTES (key @ ct)"

definition sm3_256 :: "bytes \<Rightarrow> bytes" where "sm3_256 inp = sm3_extended 32 inp"
definition sm3_512 :: "bytes \<Rightarrow> bytes" where "sm3_512 inp = sm3_extended 64 inp"

section \<open>Sampling the matrix\<close>

text \<open>The list \<open>r\<close> holds the coefficients written so far; its length is \<open>ctr\<close>.\<close>

function kem_rej_uniform_loop :: "nat \<Rightarrow> bytes \<Rightarrow> nat \<Rightarrow> int list \<Rightarrow> int list" where
  "kem_rej_uniform_loop len buf pos r =
     (if length r < len \<and> pos + 3 \<le> length buf
      then let val0 = (ucast (buf ! pos) OR push_bit 8 (ucast (buf ! (pos + 1)))) AND 0xFFF :: u16;
               val1 = (ucast (drop_bit 4 (buf ! (pos + 1))) OR push_bit 4 (ucast (buf ! (pos + 2)))) AND 0xFFF :: u16;
               r = (if uint val0 < ML_KEM_Q then r @ [uint val0] else r);
               r = (if length r < len \<and> uint val1 < ML_KEM_Q then r @ [uint val1] else r)
           in kem_rej_uniform_loop len buf (pos + 3) r
      else r)"
  by pat_completeness auto
termination
proof (relation "measure (\<lambda>(len, buf, pos, r). length buf - pos)")
  fix len buf pos and r :: "int list" and x xa xb xc
  assume "length r < len \<and> pos + 3 \<le> length buf"
  then show "((len, buf, pos + 3, xc), len, buf, pos, r) \<in> measure (\<lambda>(len, buf, pos, r). length buf - pos)"
    by (simp add: diff_less_mono2)
qed simp

declare kem_rej_uniform_loop.simps [simp del]

definition kem_rej_uniform :: "nat \<Rightarrow> bytes \<Rightarrow> int list" where
  "kem_rej_uniform len buf = kem_rej_uniform_loop len buf 0 []"

text \<open>
  The loop of \<open>gen_matrix\<close> that draws further blocks; \<open>next\<close> produces one block and the new state of the
  generator.
\<close>

partial_function (option) kem_refill :: "('s \<Rightarrow> bytes \<times> 's) \<Rightarrow> 's \<Rightarrow> int list \<Rightarrow> int list option" where
  "kem_refill next state r =
     (if length r < ML_KEM_N
      then let (buf, state) = next state
           in kem_refill next state (r @ kem_rej_uniform (ML_KEM_N - length r) buf)
      else Some r)"

declare kem_refill.simps [code]

definition kem_shake_gen_poly :: "bytes \<Rightarrow> u8 \<Rightarrow> u8 \<Rightarrow> poly option" where
  "kem_shake_gen_poly seed x y =
     (let state = shake128_absorb_extend seed x y;
          (buf, state) = shake128_squeezeblocks GEN_MATRIX_NBLOCKS state
      in kem_refill (shake128_squeezeblocks 1) state (kem_rej_uniform ML_KEM_N buf))"

definition kem_sm3_next :: "bytes \<Rightarrow> bytes \<times> bytes" where
  "kem_sm3_next extseed =
     (let extseed = extseed[ML_KEM_SYMBYTES + 2 := extseed ! (ML_KEM_SYMBYTES + 2) + 1]
      in (sm3_extended XOF_BLOCKBYTES extseed, extseed))"

definition kem_sm3_gen_poly :: "bytes \<Rightarrow> u8 \<Rightarrow> u8 \<Rightarrow> poly option" where
  "kem_sm3_gen_poly seed x y =
     (let extseed = seed @ [x, y, 0];
          buf = sm3_extended (GEN_MATRIX_NBLOCKS * XOF_BLOCKBYTES) extseed
      in kem_refill kem_sm3_next extseed (kem_rej_uniform ML_KEM_N buf))"

definition kem_shake :: kem_sym where
  "kem_shake = \<lparr>kem_hash_h = sha3_256, kem_hash_g = sha3_512, kem_prf = shake256_prf,
     kem_rkprf = shake256_rkprf, kem_gen_poly = kem_shake_gen_poly\<rparr>"

definition kem_sm3 :: kem_sym where
  "kem_sm3 = \<lparr>kem_hash_h = sm3_256, kem_hash_g = sm3_512, kem_prf = sm3_prf,
     kem_rkprf = sm3_rkprf, kem_gen_poly = kem_sm3_gen_poly\<rparr>"

definition kem_gen_matrix :: "kem_sym \<Rightarrow> nat \<Rightarrow> bytes \<Rightarrow> bool \<Rightarrow> polyvec list option" where
  "kem_gen_matrix S K seed transposed =
     those (map (\<lambda>i. those (map (\<lambda>j.
       if transposed then kem_gen_poly S seed (of_nat i) (of_nat j)
       else kem_gen_poly S seed (of_nat j) (of_nat i)) [0..<K])) [0..<K])"

definition kem_gen_a :: "kem_sym \<Rightarrow> nat \<Rightarrow> bytes \<Rightarrow> polyvec list option" where
  "kem_gen_a S K seed = kem_gen_matrix S K seed False"

definition kem_gen_at :: "kem_sym \<Rightarrow> nat \<Rightarrow> bytes \<Rightarrow> polyvec list option" where
  "kem_gen_at S K seed = kem_gen_matrix S K seed True"

section \<open>The public-key encryption\<close>

definition kem_poly_getnoise_eta1 :: "kem_sym \<Rightarrow> nat \<Rightarrow> bytes \<Rightarrow> u8 \<Rightarrow> poly" where
  "kem_poly_getnoise_eta1 S K seed nonce =
     (let buf = kem_prf S (ML_KEM_ETA1 K * ML_KEM_N div 4) seed nonce in kem_cbd_eta1 K buf)"

definition kem_poly_getnoise_eta2 :: "kem_sym \<Rightarrow> bytes \<Rightarrow> u8 \<Rightarrow> poly" where
  "kem_poly_getnoise_eta2 S seed nonce =
     (let buf = kem_prf S (ML_KEM_ETA2 * ML_KEM_N div 4) seed nonce in kem_cbd_eta2 buf)"

definition kem_pack_pk :: "polyvec \<Rightarrow> bytes \<Rightarrow> bytes" where
  "kem_pack_pk pk seed = kem_polyvec_tobytes pk @ seed"

definition kem_unpack_pk :: "nat \<Rightarrow> bytes \<Rightarrow> polyvec \<times> bytes" where
  "kem_unpack_pk K packedpk =
     (kem_polyvec_frombytes K packedpk, bslice (ML_KEM_POLYVECBYTES K) ML_KEM_SYMBYTES packedpk)"

definition kem_pack_sk :: "polyvec \<Rightarrow> bytes" where
  "kem_pack_sk sk = kem_polyvec_tobytes sk"

definition kem_unpack_sk :: "nat \<Rightarrow> bytes \<Rightarrow> polyvec" where
  "kem_unpack_sk K packedsk = kem_polyvec_frombytes K packedsk"

definition kem_pack_ciphertext :: "nat \<Rightarrow> polyvec \<Rightarrow> poly \<Rightarrow> bytes" where
  "kem_pack_ciphertext K b v = kem_polyvec_compress K b @ kem_poly_compress K v"

definition kem_unpack_ciphertext :: "nat \<Rightarrow> bytes \<Rightarrow> polyvec \<times> poly" where
  "kem_unpack_ciphertext K c =
     (kem_polyvec_decompress K c, kem_poly_decompress K (drop (ML_KEM_POLYVECCOMPRESSEDBYTES K) c))"

definition kem_indcpa_keypair :: "kem_sym \<Rightarrow> nat \<Rightarrow> bytes \<Rightarrow> (bytes \<times> bytes) option" where
  "kem_indcpa_keypair S K coins =
     (let buf = kem_hash_g S (take ML_KEM_SYMBYTES coins @ [of_nat K]);
          publicseed = take ML_KEM_SYMBYTES buf;
          noiseseed = bslice ML_KEM_SYMBYTES ML_KEM_SYMBYTES buf
      in case kem_gen_a S K publicseed of
        None \<Rightarrow> None
      | Some a \<Rightarrow>
          let skpv = map (\<lambda>i. kem_poly_getnoise_eta1 S K noiseseed (of_nat i)) [0..<K];
              e = map (\<lambda>i. kem_poly_getnoise_eta1 S K noiseseed (of_nat (K + i))) [0..<K];
              skpv = kem_polyvec_ntt skpv;
              e = kem_polyvec_ntt e;
              pkpv = map (\<lambda>i. kem_poly_tomont (kem_polyvec_pointwise_acc_montgomery K (a ! i) skpv)) [0..<K];
              pkpv = kem_polyvec_add pkpv e;
              pkpv = kem_polyvec_reduce pkpv
          in Some (kem_pack_pk pkpv publicseed, kem_pack_sk skpv))"

definition kem_indcpa_enc_polys :: "kem_sym \<Rightarrow> nat \<Rightarrow> bytes \<Rightarrow> bytes \<Rightarrow> bytes \<Rightarrow> (polyvec \<times> poly) option" where
  "kem_indcpa_enc_polys S K m pk coins =
     (let (pkpv, seed) = kem_unpack_pk K pk;
          k = kem_poly_frommsg m
      in case kem_gen_at S K seed of
        None \<Rightarrow> None
      | Some at \<Rightarrow>
          let sp = map (\<lambda>i. kem_poly_getnoise_eta1 S K coins (of_nat i)) [0..<K];
              ep = map (\<lambda>i. kem_poly_getnoise_eta2 S coins (of_nat (K + i))) [0..<K];
              epp = kem_poly_getnoise_eta2 S coins (of_nat (2 * K));
              sp = kem_polyvec_ntt sp;
              bp = map (\<lambda>i. kem_polyvec_pointwise_acc_montgomery K (at ! i) sp) [0..<K];
              v = kem_polyvec_pointwise_acc_montgomery K pkpv sp;
              bp = kem_polyvec_invntt_tomont bp;
              v = kem_poly_invntt_tomont v;
              bp = kem_polyvec_add bp ep;
              v = kem_poly_add v epp;
              v = kem_poly_add v k;
              bp = kem_polyvec_reduce bp;
              v = kem_poly_reduce v
          in Some (bp, v))"

definition kem_indcpa_enc :: "kem_sym \<Rightarrow> nat \<Rightarrow> bytes \<Rightarrow> bytes \<Rightarrow> bytes \<Rightarrow> bytes option" where
  "kem_indcpa_enc S K m pk coins =
     (case kem_indcpa_enc_polys S K m pk coins of
        None \<Rightarrow> None
      | Some (bp, v) \<Rightarrow> Some (kem_pack_ciphertext K bp v))"

definition kem_indcpa_dec :: "nat \<Rightarrow> bytes \<Rightarrow> bytes \<Rightarrow> bytes" where
  "kem_indcpa_dec K c sk =
     (let (bp, v) = kem_unpack_ciphertext K c;
          skpv = kem_unpack_sk K sk;
          bp = kem_polyvec_ntt bp;
          mp = kem_polyvec_pointwise_acc_montgomery K skpv bp;
          mp = kem_poly_invntt_tomont mp;
          mp = kem_poly_sub v mp;
          mp = kem_poly_reduce mp
      in kem_poly_tomsg mp)"

section \<open>The key encapsulation\<close>

text \<open>\<open>randombytes\<close> is the system generator: \<open>randombytes n\<close> are the \<open>n\<close> bytes it delivers.\<close>

definition crypto_kem_keypair_internal :: "kem_sym \<Rightarrow> nat \<Rightarrow> bytes \<Rightarrow> (bytes \<times> bytes) option" where
  "crypto_kem_keypair_internal S K coins =
     (case kem_indcpa_keypair S K coins of
        None \<Rightarrow> None
      | Some (pk, sk) \<Rightarrow>
          Some (pk, sk @ pk @ kem_hash_h S pk @ bslice ML_KEM_SYMBYTES ML_KEM_SYMBYTES coins))"

definition crypto_kem_keypair :: "kem_sym \<Rightarrow> nat \<Rightarrow> (nat \<Rightarrow> bytes) \<Rightarrow> (bytes \<times> bytes) option" where
  "crypto_kem_keypair S K randombytes =
     (let coins = randombytes (2 * ML_KEM_SYMBYTES) in crypto_kem_keypair_internal S K coins)"

definition crypto_kem_enc_internal :: "kem_sym \<Rightarrow> nat \<Rightarrow> bytes \<Rightarrow> bytes \<Rightarrow> (bytes \<times> bytes) option" where
  "crypto_kem_enc_internal S K pk coins =
     (let buf = take ML_KEM_SYMBYTES coins @ kem_hash_h S pk;
          kr = kem_hash_g S buf
      in case kem_indcpa_enc S K (take ML_KEM_INDCPA_MSGBYTES buf) pk (bslice ML_KEM_SYMBYTES ML_KEM_SYMBYTES kr) of
        None \<Rightarrow> None
      | Some ct \<Rightarrow> Some (ct, take ML_KEM_SYMBYTES kr))"

definition crypto_kem_enc :: "kem_sym \<Rightarrow> nat \<Rightarrow> bytes \<Rightarrow> (nat \<Rightarrow> bytes) \<Rightarrow> (bytes \<times> bytes) option" where
  "crypto_kem_enc S K pk randombytes =
     (let coins = randombytes ML_KEM_SYMBYTES in crypto_kem_enc_internal S K pk coins)"

definition crypto_kem_dec :: "kem_sym \<Rightarrow> nat \<Rightarrow> bytes \<Rightarrow> bytes \<Rightarrow> bytes option" where
  "crypto_kem_dec S K ct sk =
     (let pk = drop (ML_KEM_INDCPA_SECRETKEYBYTES K) sk;
          buf = kem_indcpa_dec K ct sk @
            bslice (ML_KEM_SECRETKEYBYTES K - 2 * ML_KEM_SYMBYTES) ML_KEM_SYMBYTES sk;
          kr = kem_hash_g S buf
      in case kem_indcpa_enc S K (take ML_KEM_INDCPA_MSGBYTES buf) pk (bslice ML_KEM_SYMBYTES ML_KEM_SYMBYTES kr) of
        None \<Rightarrow> None
      | Some cmp \<Rightarrow>
          let fail = kem_verify ct cmp (ML_KEM_CIPHERTEXTBYTES K);
              ss = kem_rkprf S (bslice (ML_KEM_SECRETKEYBYTES K - ML_KEM_SYMBYTES) ML_KEM_SYMBYTES sk)
                     (take (ML_KEM_CIPHERTEXTBYTES K) ct)
          in Some (kem_cmov ss kr ML_KEM_SYMBYTES (if fail = 0 then 1 else 0)))"

end
