(* ===== verification/Bitpack.thy ===== *)
theory Bitpack
  imports Cint
begin

text \<open>
  Packing of fixed-width integers into bytes, as the bit strings of the standards: \<open>bits d x\<close> are the
  \<open>d\<close> low bits of \<open>x\<close>, least significant first, \<open>byte_bits bs\<close> the bits of a byte string.  A packing
  routine is correct when the bits of its output are the concatenated bits of its inputs; the same
  equation for the unpacking routine makes it the inverse (\<open>concat_bits_inj\<close>, \<open>byte_bits_inj\<close>).
\<close>

definition bits :: "nat \<Rightarrow> 'a::semiring_bits \<Rightarrow> bool list" where
  "bits d x = map (bit x) [0..<d]"

definition byte_bits :: "bytes \<Rightarrow> bool list" where
  "byte_bits bs = concat (map (bits 8) bs)"

lemma length_bits [simp]: "length (bits d x) = d"
  by (simp add: bits_def)

lemma byte_bits_simps [simp]:
  "byte_bits [] = []" "byte_bits (b # bs) = bits 8 b @ byte_bits bs" "byte_bits (bs @ bs') = byte_bits bs @ byte_bits bs'"
  by (simp_all add: byte_bits_def)

lemma byte_bits_concat: "byte_bits (concat xss) = concat (map byte_bits xss)"
  by (induction xss) simp_all

lemma length_byte_bits: "length (byte_bits bs) = 8 * length bs"
  by (induction bs) simp_all

lemma bits_inj_int:
  fixes x y :: int
  assumes "bits d x = bits d y" and "0 \<le> x" "x < 2 ^ d" and "0 \<le> y" "y < 2 ^ d"
  shows "x = y"
proof -
  have "bit x n = bit y n" if "n < d" for n
    using arg_cong [OF assms(1), of "\<lambda>l. l ! n"] that by (simp add: bits_def)
  then have "take_bit d x = take_bit d y" by (intro bit_eqI) (auto simp: bit_take_bit_iff)
  then show ?thesis using assms(2-5) by (simp add: take_bit_int_eq_self)
qed

lemma bits_uint [simp]: "bits d (uint w) = bits d w"
  by (auto simp: bits_def bit_uint_iff dest: bit_imp_le_length)

lemma concat_bits_inj:
  assumes "concat (map (bits d) xs) = concat (map (bits d) ys)" and "length xs = length ys"
    and "\<forall>x \<in> set xs. 0 \<le> x \<and> x < 2 ^ d" and "\<forall>y \<in> set ys. 0 \<le> y \<and> y < 2 ^ d"
  shows "xs = (ys :: int list)"
  using assms(2,1,3,4)
proof (induction xs ys rule: list_induct2)
  case (Cons x xs y ys)
  from Cons.prems(1) have e: "bits d x = bits d y" "concat (map (bits d) xs) = concat (map (bits d) ys)"
    by (simp_all add: append_eq_append_conv)
  have "x = y" by (rule bits_inj_int [OF e(1)]) (use Cons.prems in simp_all)
  moreover have "xs = ys" by (rule Cons.IH [OF e(2)]) (use Cons.prems in simp_all)
  ultimately show ?case by simp
qed simp

lemma byte_bits_inj:
  assumes "byte_bits xs = byte_bits ys"
  shows "xs = ys"
proof -
  have l: "length xs = length ys" using arg_cong [OF assms, of length] by (simp add: length_byte_bits)
  have r: "\<forall>x \<in> set (map uint (zs :: bytes)). 0 \<le> x \<and> x < 2 ^ 8" for zs
    using uint_lt2p [where 'a = 8] by auto
  have "concat (map (bits 8) (map uint xs)) = concat (map (bits 8) (map uint ys))"
    using assms by (simp add: byte_bits_def comp_def)
  then have "map uint xs = map uint ys" by (rule concat_bits_inj) (use l r in simp_all)
  then show ?thesis by (rule map_injective) (simp add: inj_def word_uint_eq_iff)
qed

text \<open>A list read in blocks of \<open>m\<close>.\<close>

lemma concat_blocks_map:
  assumes "length a = n * m"
  shows "concat (map (\<lambda>i. map (\<lambda>j. g (a ! (m * i + j))) [0..<m]) [0..<n]) = map g a"
proof -
  have "map (\<lambda>j. g (a ! (m * i + j))) [0..<m] = map g (bslice (i * m) m a)" if "i < n" for i
  proof -
    have "Suc i * m \<le> n * m" using that by (intro mult_le_mono1) simp
    then have "i * m + m \<le> length a" using assms by simp
    then show ?thesis by (intro nth_equalityI) (simp_all add: bslice_def mult.commute)
  qed
  then have "concat (map (\<lambda>i. map (\<lambda>j. g (a ! (m * i + j))) [0..<m]) [0..<n]) =
      concat (map (\<lambda>i. map g (bslice (i * m) m a)) [0..<n])"
    by (intro arg_cong [of _ _ concat] map_cong) simp_all
  also have "\<dots> = map g (concat (map (\<lambda>i. bslice (i * m) m a) [0..<n]))" by (simp add: map_concat comp_def)
  finally show ?thesis by (simp only: concat_slices [OF assms])
qed

lemma concat_map_concat: "concat (map (\<lambda>x. concat (f x)) xs) = concat (concat (map f xs))"
  by (induction xs) simp_all

lemma concat_blocks_concat:
  assumes "length a = n * m"
  shows "concat (map (\<lambda>i. concat (map (\<lambda>j. h (a ! (m * i + j))) [0..<m])) [0..<n]) = concat (map h a)"
proof -
  have "concat (map h a) = concat (concat (map (\<lambda>i. map (\<lambda>j. h (a ! (m * i + j))) [0..<m]) [0..<n]))"
    by (simp only: concat_blocks_map [OF assms, of h])
  then show ?thesis by (simp only: concat_map_concat)
qed

text \<open>Packing and unpacking a list block by block.\<close>

lemma pack_blocks:
  assumes "length a = n * m" and "\<And>i. i < n \<Longrightarrow> byte_bits (f i) = concat (map (\<lambda>j. h (a ! (m * i + j))) [0..<m])"
  shows "byte_bits (concat (map f [0..<n])) = concat (map h a)"
proof -
  have "byte_bits (concat (map f [0..<n])) = concat (map (\<lambda>i. concat (map (\<lambda>j. h (a ! (m * i + j))) [0..<m])) [0..<n])"
    unfolding byte_bits_concat map_map
    by (intro arg_cong [of _ _ concat] map_cong) (simp_all add: assms(2))
  then show ?thesis by (simp only: concat_blocks_concat [OF assms(1)])
qed

lemma unpack_blocks:
  assumes "length a = n * k" and "\<And>i. i < n \<Longrightarrow> concat (map (bits d) (f i)) = byte_bits (bslice (i * k) k a)"
  shows "concat (map (bits d) (concat (map f [0..<n]))) = byte_bits a"
proof -
  have "concat (map (bits d) (concat (map f [0..<n]))) = concat (map (\<lambda>i. byte_bits (bslice (i * k) k a)) [0..<n])"
    unfolding map_concat map_map comp_def concat_map_concat [symmetric]
    by (intro arg_cong [of _ _ concat] map_cong) (simp_all add: assms(2))
  also have "\<dots> = byte_bits (concat (map (\<lambda>i. bslice (i * k) k a) [0..<n]))"
    by (simp only: byte_bits_concat map_map comp_def)
  finally show ?thesis by (simp only: concat_slices [OF assms(1)])
qed

lemma bslice_Suc: "off + Suc n \<le> length a \<Longrightarrow> bslice off (Suc n) a = a ! off # bslice (Suc off) n a"
  by (simp add: bslice_def Cons_nth_drop_Suc [symmetric])

lemma bslice_numeral:
  "off + numeral n \<le> length a \<Longrightarrow> bslice off (numeral n) a = a ! off # bslice (Suc off) (pred_numeral n) a"
  by (simp add: numeral_eq_Suc bslice_Suc)

lemma bslice_0: "bslice off 0 a = []"
  by (simp add: bslice_def)

lemmas bslice_nth = bslice_numeral bslice_Suc bslice_0

text \<open>\<open>fits d t\<close>: only the \<open>d\<close> low bits of \<open>t\<close> are set.\<close>

definition fits :: "nat \<Rightarrow> 'a::semiring_bits \<Rightarrow> bool" where
  "fits d t \<longleftrightarrow> (\<forall>n \<ge> d. \<not> bit t n)"

lemma fits_word_of_int: "0 \<le> x \<Longrightarrow> x < 2 ^ d \<Longrightarrow> fits d (word_of_int x :: 'a::len word)"
  unfolding fits_def by (metis bit_word_of_int_iff bit_take_bit_iff linorder_not_le take_bit_int_eq_self)

lemma fits_mask: "fits d (w AND mask d :: 'a::len word)"
  by (simp add: fits_def bit_simps)

lemma byte_high: "8 \<le> n \<Longrightarrow> \<not> bit (b :: u8) n"
  using bit_imp_le_length [of b n] by auto

lemma bits_word_of_int: "d \<le> LENGTH('a) \<Longrightarrow> bits d (word_of_int x :: 'a::len word) = bits d x"
  by (auto simp: bits_def bit_word_of_int_iff)

lemma mask_range:
  fixes w :: "'a::len word"
  assumes "m = mask d"
  shows "0 \<le> uint (w AND m)" and "uint (w AND m) < 2 ^ d"
    and "d < LENGTH('a) \<Longrightarrow> sint (w AND m) = uint (w AND m)"
proof -
  have "uint (w AND m) = take_bit d (uint w)"
    unfolding assms by (simp add: take_bit_eq_mask [symmetric] unsigned_take_bit_eq)
  then show l: "uint (w AND m) < 2 ^ d" by simp
  show "0 \<le> uint (w AND m)" by simp
  assume "d < LENGTH('a)"
  then have "(2 :: int) ^ d \<le> 2 ^ (LENGTH('a) - 1)" by (intro power_increasing) simp_all
  then have "uint (w AND m) < 2 ^ (LENGTH('a) - 1)" using l by (rule order.strict_trans2 [rotated])
  moreover have "- (2 ^ (LENGTH('a) - 1)) \<le> uint (w AND m)"
    by (rule order_trans [of _ 0]) simp_all
  ultimately show "sint (w AND m) = uint (w AND m)"
    unfolding sint_uint One_nat_def by (intro signed_take_bit_int_eq_self) simp_all
qed

text \<open>The bits of a number of a known width, one by one.\<close>

lemma bits_3: "bits 3 x = [bit x 0, bit x 1, bit x 2]"
  by (simp add: bits_def upt_conv_Cons numeral_2_eq_2 [symmetric] del: bit_0)

lemma bits_4: "bits 4 x = [bit x 0, bit x 1, bit x 2, bit x 3]"
  by (simp add: bits_def upt_conv_Cons numeral_2_eq_2 [symmetric] del: bit_0)

lemma bits_5: "bits 5 x = [bit x 0, bit x 1, bit x 2, bit x 3, bit x 4]"
  by (simp add: bits_def upt_conv_Cons numeral_2_eq_2 [symmetric] del: bit_0)

lemma bits_6: "bits 6 x = [bit x 0, bit x 1, bit x 2, bit x 3, bit x 4, bit x 5]"
  by (simp add: bits_def upt_conv_Cons numeral_2_eq_2 [symmetric] del: bit_0)

lemma bits_8: "bits 8 x = [bit x 0, bit x 1, bit x 2, bit x 3, bit x 4, bit x 5, bit x 6, bit x 7]"
  by (simp add: bits_def upt_conv_Cons numeral_2_eq_2 [symmetric] del: bit_0)

lemma bits_10: "bits 10 x = [bit x 0, bit x 1, bit x 2, bit x 3, bit x 4, bit x 5, bit x 6, bit x 7, bit x 8, bit x 9]"
  by (simp add: bits_def upt_conv_Cons numeral_2_eq_2 [symmetric] del: bit_0)

lemma bits_11: "bits 11 x = [bit x 0, bit x 1, bit x 2, bit x 3, bit x 4, bit x 5, bit x 6, bit x 7, bit x 8, bit x 9, bit x 10]"
  by (simp add: bits_def upt_conv_Cons numeral_2_eq_2 [symmetric] del: bit_0)

lemma bits_12: "bits 12 x = [bit x 0, bit x 1, bit x 2, bit x 3, bit x 4, bit x 5, bit x 6, bit x 7, bit x 8, bit x 9, bit x 10, bit x 11]"
  by (simp add: bits_def upt_conv_Cons numeral_2_eq_2 [symmetric] del: bit_0)

lemma bits_13: "bits 13 x = [bit x 0, bit x 1, bit x 2, bit x 3, bit x 4, bit x 5, bit x 6, bit x 7, bit x 8, bit x 9, bit x 10, bit x 11, bit x 12]"
  by (simp add: bits_def upt_conv_Cons numeral_2_eq_2 [symmetric] del: bit_0)

lemma bits_18: "bits 18 x = [bit x 0, bit x 1, bit x 2, bit x 3, bit x 4, bit x 5, bit x 6, bit x 7, bit x 8, bit x 9, bit x 10, bit x 11, bit x 12, bit x 13, bit x 14, bit x 15, bit x 16, bit x 17]"
  by (simp add: bits_def upt_conv_Cons numeral_2_eq_2 [symmetric] del: bit_0)

lemma bits_20: "bits 20 x = [bit x 0, bit x 1, bit x 2, bit x 3, bit x 4, bit x 5, bit x 6, bit x 7, bit x 8, bit x 9, bit x 10, bit x 11, bit x 12, bit x 13, bit x 14, bit x 15, bit x 16, bit x 17, bit x 18, bit x 19]"
  by (simp add: bits_def upt_conv_Cons numeral_2_eq_2 [symmetric] del: bit_0)

lemmas bits_nums = bits_3 bits_4 bits_5 bits_6 bits_8 bits_10 bits_11 bits_12 bits_13 bits_18 bits_20

text \<open>Bit by bit evaluation of shifts, masks and casts.\<close>

lemmas bit_blast = bits_nums bit_simps byte_high fits_def numeral_2_eq_2 [symmetric]

end
