(* ===== verification/MLKEM_Encode.thy ===== *)
theory MLKEM_Encode
  imports MLKEM_Poly Bitpack Complex_Main
begin

text \<open>
  Serialisation and compression of ML-KEM polynomials (\<open>poly.c\<close>, \<open>polyvec.c\<close>) against the standard
  (FIPS 203): every packing routine writes the bit string \<open>ByteEncode\<close> prescribes, the compressed
  values are \<open>Compress_d\<close>, decompression computes \<open>Decompress_d\<close> of the values that were packed, and
  the loss is bounded.  A message survives noise of less than a quarter of \<open>q\<close>.
\<close>

section \<open>Serialisation of coefficients\<close>

lemma sint_word_of_int_16: "- (2 ^ 15) \<le> x \<Longrightarrow> x < 2 ^ 15 \<Longrightarrow> sint (word_of_int x :: u16) = x"
  by (simp add: sint_uint uint_word_of_int_eq signed_take_bit_int_eq_self signed_take_bit_take_bit)

lemma signed_shift_16:
  assumes "- (2 ^ 15) \<le> x" and "x < 2 ^ 15"
  shows "signed_drop_bit 15 (word_of_int x :: u16) = (if x < 0 then - 1 else 0)"
proof -
  have "sint (signed_drop_bit 15 (word_of_int x :: u16)) = drop_bit 15 x"
    by (simp only: sint_signed_drop_bit_eq sint_word_of_int_16 [OF assms])
  also have "\<dots> = (if x < 0 then - 1 else 0)"
    using assms sign_shift [of 15 x] by (simp add: drop_bit_eq_div)
  also have "\<dots> = sint (if x < 0 then - 1 else 0 :: u16)" by simp
  finally show ?thesis by (simp only: signed_word_eqI)
qed

text \<open>\<open>t += ((int16_t)t >> 15) & q\<close> makes a reduced coefficient non-negative.\<close>

lemma kem_lift:
  assumes "\<bar>x\<bar> < ML_KEM_Q"
  shows "word_of_int x + (signed_drop_bit 15 (word_of_int x) AND word_of_int ML_KEM_Q) = (word_of_int (x mod ML_KEM_Q) :: u16)"
    and "i16 (x + ((x div 2 ^ 15) AND ML_KEM_Q)) = x mod ML_KEM_Q"
proof -
  have x: "- (2 ^ 15) \<le> x" "x < 2 ^ 15" using assms by (simp_all add: ML_KEM_Q_def)
  have m: "x mod ML_KEM_Q = (if x < 0 then x + ML_KEM_Q else x)"
  proof (cases "x < 0")
    case True
    have "(x + ML_KEM_Q) mod ML_KEM_Q = x + ML_KEM_Q" using True assms by (intro mod_pos_pos_trivial) simp_all
    then show ?thesis using True by simp
  qed (use assms in simp)
  show "word_of_int x + (signed_drop_bit 15 (word_of_int x) AND word_of_int ML_KEM_Q) = (word_of_int (x mod ML_KEM_Q) :: u16)"
    unfolding signed_shift_16 [OF x] m by (simp del: of_int_add add: of_int_add [symmetric])
  have "i16 (x mod ML_KEM_Q) = x mod ML_KEM_Q"
    using pos_mod_bound [of ML_KEM_Q x] pos_mod_sign [of ML_KEM_Q x] by (intro i16_id) (simp_all add: ML_KEM_Q_def)
  then show "i16 (x + ((x div 2 ^ 15) AND ML_KEM_Q)) = x mod ML_KEM_Q"
    unfolding sign_mask [OF x] by (simp add: m split: if_splits)
qed

lemma kem_mod_range: "0 \<le> x mod ML_KEM_Q" "x mod ML_KEM_Q < 3329"
  by (simp_all add: ML_KEM_Q_def)

lemma pack12:
  fixes t0 t1 :: u16
  assumes "fits 12 t0" and "fits 12 t1"
  shows "byte_bits [ucast t0, ucast (drop_bit 8 t0) OR ucast (push_bit 4 t1), ucast (drop_bit 4 t1)] =
    bits 12 t0 @ bits 12 t1"
  using assms by (simp add: bit_blast del: bit_0 push_bit_Suc)

definition kem_reduced :: "int list \<Rightarrow> bool" where
  "kem_reduced a \<longleftrightarrow> length a = 256 \<and> (\<forall>x \<in> set a. \<bar>x\<bar> < ML_KEM_Q)"

lemma kem_reducedD: "kem_reduced a \<Longrightarrow> i < 256 \<Longrightarrow> \<bar>a ! i\<bar> < ML_KEM_Q"
  by (simp add: kem_reduced_def)

lemma kem_poly_tobytes_bits:
  assumes "kem_reduced a"
  shows "byte_bits (kem_poly_tobytes a) = concat (map (\<lambda>x. bits 12 (x mod ML_KEM_Q)) a)"
  unfolding kem_poly_tobytes_def
proof (rule pack_blocks [where m = 2])
  show "length a = ML_KEM_N div 2 * 2" using assms by (simp add: kem_reduced_def ML_KEM_N_def)
  fix i assume "i < ML_KEM_N div 2"
  then have i: "2 * i < 256" "2 * i + 1 < 256" by (simp_all add: ML_KEM_N_def)
  note l = kem_lift(1) [OF kem_reducedD [OF assms i(1)]] kem_lift(1) [OF kem_reducedD [OF assms i(2)]]
  have r: "fits 12 (word_of_int (x mod ML_KEM_Q) :: u16)" for x
    by (rule fits_word_of_int) (use kem_mod_range [of x] in simp_all)
  have u: "[0..<2] = [0, 1 :: nat]" by (simp add: upt_conv_Cons)
  show "byte_bits (let t0 = word_of_int (a ! (2 * i)) :: u16;
           t0 = t0 + (signed_drop_bit 15 t0 AND word_of_int ML_KEM_Q);
           t1 = word_of_int (a ! (2 * i + 1)) :: u16;
           t1 = t1 + (signed_drop_bit 15 t1 AND word_of_int ML_KEM_Q)
       in [ucast t0, ucast (drop_bit 8 t0) OR ucast (push_bit 4 t1), ucast (drop_bit 4 t1)]) =
     concat (map (\<lambda>j. bits 12 (a ! (2 * i + j) mod ML_KEM_Q)) [0..<2])"
    unfolding Let_def l pack12 [OF r r] u by (simp add: bits_word_of_int)
qed

lemma unpack12:
  fixes b0 b1 b2 :: u8
  defines "t0 \<equiv> (ucast b0 OR push_bit 8 (ucast b1)) AND 0xFFF :: u16"
    and "t1 \<equiv> (ucast (drop_bit 4 b1) OR push_bit 4 (ucast b2)) AND 0xFFF :: u16"
  shows "bits 12 t0 @ bits 12 t1 = byte_bits [b0, b1, b2]"
proof -
  have m: "(0xFFF :: u16) = mask 12" by (simp add: mask_eq_exp_minus_1)
  show ?thesis unfolding assms m by (simp add: bit_blast del: bit_0 push_bit_Suc)
qed

lemma kem_poly_frombytes_bits:
  assumes "length a = ML_KEM_POLYBYTES"
  shows "concat (map (bits 12) (kem_poly_frombytes a)) = byte_bits a"
    and "length (kem_poly_frombytes a) = 256" and "x \<in> set (kem_poly_frombytes a) \<Longrightarrow> 0 \<le> x \<and> x < 2 ^ 12"
proof -
  note r = mask_range [where m = "0xFFF :: u16" and d = 12, simplified mask_eq_exp_minus_1, simplified]
  show "concat (map (bits 12) (kem_poly_frombytes a)) = byte_bits a"
    unfolding kem_poly_frombytes_def
  proof (rule unpack_blocks [where k = 3])
    show "length a = ML_KEM_N div 2 * 3" using assms by (simp add: ML_KEM_POLYBYTES_def ML_KEM_N_def)
    fix i assume "i < ML_KEM_N div 2"
    then have "3 * i + 3 \<le> length a" using assms by (simp add: ML_KEM_POLYBYTES_def ML_KEM_N_def)
    then have b: "bslice (i * 3) 3 a = [a ! (3 * i), a ! (3 * i + 1), a ! (3 * i + 2)]"
      by (simp add: bslice_nth mult.commute)
    show "concat (map (bits 12) [sint ((ucast (a ! (3 * i)) OR push_bit 8 (ucast (a ! (3 * i + 1)))) AND 0xFFF :: u16),
        sint ((ucast (drop_bit 4 (a ! (3 * i + 1))) OR push_bit 4 (ucast (a ! (3 * i + 2)))) AND 0xFFF :: u16)]) =
      byte_bits (bslice (i * 3) 3 a)"
      unfolding b unpack12 [symmetric] by (simp add: r)
  qed
  show "length (kem_poly_frombytes a) = 256"
    by (simp add: kem_poly_frombytes_def length_concat comp_def ML_KEM_N_def sum_list_triv)
  show "x \<in> set (kem_poly_frombytes a) \<Longrightarrow> 0 \<le> x \<and> x < 2 ^ 12"
    unfolding kem_poly_frombytes_def using r(2,3) by (auto simp: r(1))
qed

section \<open>Compression\<close>

text \<open>\<open>Compress_d\<close> and \<open>Decompress_d\<close> of the standard (FIPS 203, section 4.2.1): scaling and rounding.\<close>

definition Compress :: "nat \<Rightarrow> int \<Rightarrow> int" where
  "Compress d x = round (2 ^ d * of_int x / of_int ML_KEM_Q :: rat) mod 2 ^ d"

definition Decompress :: "nat \<Rightarrow> int \<Rightarrow> int" where
  "Decompress d y = round (of_int ML_KEM_Q * of_int y / 2 ^ d :: rat)"

lemma round_div: "0 < b \<Longrightarrow> round (of_int a / of_int b :: rat) = (2 * a + b) div (2 * b)"
proof -
  assume "0 < b"
  then have "(of_int a / of_int b + 1 / 2 :: rat) = of_int (2 * a + b) / of_int (2 * b)"
    by (simp add: field_simps)
  then show ?thesis unfolding round_def by (simp only: floor_divide_of_int_eq)
qed

lemma half_div: "0 < b \<Longrightarrow> (2 * a + b) div (2 * b) = (a + b div 2) div b" for a b :: int
proof -
  assume "0 < b"
  then have "(2 * a + b) div (2 * b) = (2 * a + b) div 2 div b" by (intro zdiv_zmult2_eq) simp
  then show ?thesis by simp
qed

lemma Compress_div: "Compress d x = (2 ^ d * x + ML_KEM_Q div 2) div ML_KEM_Q mod 2 ^ d"
  using round_div [of ML_KEM_Q "2 ^ d * x"] half_div [of ML_KEM_Q "2 ^ d * x"] by (simp add: Compress_def ML_KEM_Q_def)

lemma Decompress_div: "Decompress d y = (y * ML_KEM_Q + 2 ^ d div 2) div 2 ^ d"
  using round_div [of "2 ^ d" "ML_KEM_Q * y"] half_div [of "2 ^ d" "ML_KEM_Q * y"] by (simp add: Decompress_def mult.commute)

lemma Compress_range: "0 \<le> Compress d x" "Compress d x < 2 ^ d"
  by (simp_all add: Compress_def)

text \<open>Compression loses at most \<open>q / 2^(d+1)\<close>, modulo \<open>q\<close>.\<close>

lemma Compress_error:
  obtains e where "ML_KEM_Q dvd Decompress d (Compress d x) - x - e" and "2 ^ d * \<bar>e\<bar> \<le> 1664 + 2 ^ d div 2"
proof -
  define P :: int where "P = 2 ^ d"
  have P: "0 < P" by (simp add: P_def)
  define y where "y = (P * x + ML_KEM_Q div 2) div ML_KEM_Q"
  define z where "z = (y * ML_KEM_Q + P div 2) div P"
  have c: "Compress d x = y - P * (y div P)"
    unfolding Compress_div y_def [unfolded P_def, symmetric] by (simp add: P_def minus_mult_div_eq_mod)
  have "Decompress d (Compress d x) = (y * ML_KEM_Q + P div 2 + P * (- (y div P) * ML_KEM_Q)) div P"
    unfolding Decompress_div P_def [symmetric] c by (simp add: algebra_simps)
  also have "\<dots> = z - y div P * ML_KEM_Q" using P unfolding z_def by (subst div_mult_self2) simp_all
  finally have 1: "ML_KEM_Q dvd Decompress d (Compress d x) - x - (z - x)" by simp
  have *: "m * (a div m) \<le> a \<and> a < m * (a div m) + m" if "0 < m" for a m :: int
    using that mult_div_mod_eq [of m a] pos_mod_bound [of m a] pos_mod_sign [of m a] by linarith
  have "ML_KEM_Q * y \<le> P * x + 1664" "P * x + 1664 < ML_KEM_Q * y + ML_KEM_Q"
    using * [of ML_KEM_Q "P * x + ML_KEM_Q div 2"] unfolding y_def [symmetric] by (simp_all add: ML_KEM_Q_def)
  moreover have "P * z \<le> y * ML_KEM_Q + P div 2" "y * ML_KEM_Q + P div 2 < P * z + P"
    using * [OF P, of "y * ML_KEM_Q + P div 2"] unfolding z_def [symmetric] by simp_all
  ultimately have "\<bar>P * z - P * x\<bar> \<le> 1664 + P div 2" by (simp add: ML_KEM_Q_def)
  then have "P * \<bar>z - x\<bar> \<le> 1664 + P div 2" using P by (simp add: right_diff_distrib [symmetric] abs_mult)
  then show thesis using that [OF 1] by (simp add: P_def)
qed

text \<open>The bound in numbers, for the parameters in use.\<close>

lemma Compress_error_bounds:
  obtains e where "ML_KEM_Q dvd Decompress d (Compress d x) - x - e"
    and "d = 1 \<Longrightarrow> \<bar>e\<bar> \<le> 832" and "d = 4 \<Longrightarrow> \<bar>e\<bar> \<le> 104" and "d = 5 \<Longrightarrow> \<bar>e\<bar> \<le> 52"
    and "d = 10 \<Longrightarrow> \<bar>e\<bar> \<le> 2" and "d = 11 \<Longrightarrow> \<bar>e\<bar> \<le> 1"
proof -
  obtain e where "ML_KEM_Q dvd Decompress d (Compress d x) - x - e" "2 ^ d * \<bar>e\<bar> \<le> 1664 + 2 ^ d div 2"
    by (rule Compress_error)
  then show thesis by (intro that) auto
qed

text \<open>The values the code packs are the compressed coefficients.\<close>

lemma mask_mod: "(x :: int) AND (2 ^ n - 1) = x mod 2 ^ n"
  by (simp add: mask_eq_exp_minus_1 [symmetric] take_bit_eq_mask [symmetric] take_bit_eq_mod)

lemma Compress_mod: "Compress d (x mod ML_KEM_Q) = Compress d x"
proof -
  define y where "y = 2 ^ d * (x mod ML_KEM_Q) + ML_KEM_Q div 2"
  have "2 ^ d * x + ML_KEM_Q div 2 = y + ML_KEM_Q * (2 ^ d * (x div ML_KEM_Q))"
    unfolding y_def using mult_div_mod_eq [of ML_KEM_Q x] by (metis (no_types, opaque_lifting) add.commute add.left_commute distrib_left mult.left_commute)
  then have "(2 ^ d * x + ML_KEM_Q div 2) div ML_KEM_Q = y div ML_KEM_Q + 2 ^ d * (x div ML_KEM_Q)"
    by (simp add: ML_KEM_Q_def)
  then show ?thesis unfolding Compress_div y_def by simp
qed

lemma Compress_code: "(x mod ML_KEM_Q * 2 ^ d + ML_KEM_Q div 2) div ML_KEM_Q mod 2 ^ d = Compress d x"
  using Compress_mod [of d x] unfolding Compress_div by (simp add: mult.commute)

lemma kem_compress4:
  assumes "\<bar>x\<bar> < ML_KEM_Q"
  shows "kem_compress_d4 x = word_of_int (Compress 4 x)"
proof -
  have "u16i (x mod ML_KEM_Q) = x mod ML_KEM_Q" using kem_mod_range [of x] by (intro u16i_id) simp_all
  then show ?thesis
    unfolding kem_compress_d4_def kem_compress_d5_def Let_def kem_lift(2) [OF assms] Compress_code [symmetric]
    using mask_mod [of _ 4] by simp
qed

lemma kem_compress5:
  assumes "\<bar>x\<bar> < ML_KEM_Q"
  shows "kem_compress_d5 x = word_of_int (Compress 5 x)"
proof -
  note r = kem_mod_range [of x]
  have "u32i (x mod ML_KEM_Q) = x mod ML_KEM_Q" "u32i (x mod ML_KEM_Q * 2 ^ 5) = x mod ML_KEM_Q * 2 ^ 5"
    "u32i (x mod ML_KEM_Q * 2 ^ 5 + ML_KEM_Q div 2) = x mod ML_KEM_Q * 2 ^ 5 + ML_KEM_Q div 2"
    using r by (auto intro!: u32i_id simp: ML_KEM_Q_def)
  then show ?thesis
    unfolding kem_compress_d4_def kem_compress_d5_def Let_def kem_lift(2) [OF assms] Compress_code [symmetric]
    using mask_mod [of _ 5] by simp
qed

lemma kem_compress_word:
  assumes "\<bar>x\<bar> < ML_KEM_Q" and "d \<le> 11" and "m = mask d"
  defines "t \<equiv> word_of_int x + (signed_drop_bit 15 (word_of_int x) AND word_of_int ML_KEM_Q) :: u16"
  shows "ucast (((push_bit d (ucast t) + word_of_int (ML_KEM_Q div 2)) div word_of_int ML_KEM_Q) AND m :: u32) =
    (word_of_int (Compress d x) :: u16)"
proof -
  note r = kem_mod_range [of x]
  have t: "t = word_of_int (x mod ML_KEM_Q)" unfolding t_def by (rule kem_lift [OF assms(1)])
  have p: "(2 :: int) ^ d \<le> 2 ^ 11" using assms(2) by (intro power_increasing) simp_all
  have "x mod ML_KEM_Q * 2 ^ d \<le> 3328 * 2 ^ 11" using r p by (intro mult_mono) simp_all
  then have b: "0 \<le> 2 ^ d * (x mod ML_KEM_Q) + ML_KEM_Q div 2" "2 ^ d * (x mod ML_KEM_Q) + ML_KEM_Q div 2 < 2 ^ 32"
    using r by (simp_all add: ML_KEM_Q_def mult.commute)
  have u: "(ucast t :: u32) = word_of_int (x mod ML_KEM_Q)"
    unfolding t using r by (simp add: unsigned_of_int take_bit_int_eq_self)
  have n: "push_bit d (ucast t) + word_of_int (ML_KEM_Q div 2) = (word_of_int (2 ^ d * (x mod ML_KEM_Q) + ML_KEM_Q div 2) :: u32)"
    unfolding u by (simp add: push_bit_eq_mult mult.commute)
  have q: "(word_of_int a :: u32) div word_of_int ML_KEM_Q = word_of_int (a div ML_KEM_Q)" if "0 \<le> a" "a < 2 ^ 32" for a
    unfolding word_div_def using that by (simp add: uint_word_of_int_eq take_bit_int_eq_self ML_KEM_Q_def)
  have a: "word_of_int a AND m = (word_of_int (a mod 2 ^ d) :: u32)" for a
    unfolding assms(3) by (simp add: take_bit_eq_mask [symmetric] take_bit_eq_mod [symmetric] take_bit_of_int)
  have "(2 :: int) ^ d < 2 ^ 16" using p by simp
  then have c: "Compress d x < 2 ^ 16" using Compress_range(2) [of d x] by (rule order.strict_trans [rotated])
  have "(push_bit d (ucast t) + word_of_int (ML_KEM_Q div 2)) div word_of_int ML_KEM_Q AND m = (word_of_int (Compress d x) :: u32)"
    unfolding n q [OF b] a using Compress_code [of x d] by (simp add: mult.commute)
  then show ?thesis using c Compress_range(1) [of d x] by (simp add: unsigned_of_int take_bit_int_eq_self)
qed

lemma pack4:
  assumes "\<And>k. fits 4 (t k)"
  defines "l \<equiv> map t [0..<8]"
  shows "byte_bits [l ! 0 OR push_bit 4 (l ! 1), l ! 2 OR push_bit 4 (l ! 3), l ! 4 OR push_bit 4 (l ! 5), l ! 6 OR push_bit 4 (l ! 7)] =
    concat (map (\<lambda>k. bits 4 (t k)) [0..<8])"
  unfolding l_def using assms(1) by (simp add: bit_blast upt_conv_Cons del: bit_0 push_bit_Suc)

lemma pack5:
  assumes "\<And>k. fits 5 (t k)"
  defines "l \<equiv> map t [0..<8]"
  shows "byte_bits [l ! 0 OR push_bit 5 (l ! 1),
      drop_bit 3 (l ! 1) OR push_bit 2 (l ! 2) OR push_bit 7 (l ! 3),
      drop_bit 1 (l ! 3) OR push_bit 4 (l ! 4),
      drop_bit 4 (l ! 4) OR push_bit 1 (l ! 5) OR push_bit 6 (l ! 6),
      drop_bit 2 (l ! 6) OR push_bit 3 (l ! 7)] = concat (map (\<lambda>k. bits 5 (t k)) [0..<8])"
  unfolding l_def using assms(1) by (simp add: bit_blast upt_conv_Cons del: bit_0 push_bit_Suc)

lemma pack10:
  fixes t :: "nat \<Rightarrow> u16"
  assumes "\<And>k. fits 10 (t k)"
  defines "l \<equiv> map t [0..<4]"
  shows "byte_bits [ucast (l ! 0),
      ucast (drop_bit 8 (l ! 0)) OR ucast (push_bit 2 (l ! 1)),
      ucast (drop_bit 6 (l ! 1)) OR ucast (push_bit 4 (l ! 2)),
      ucast (drop_bit 4 (l ! 2)) OR ucast (push_bit 6 (l ! 3)),
      ucast (drop_bit 2 (l ! 3))] = concat (map (\<lambda>k. bits 10 (t k)) [0..<4])"
  unfolding l_def using assms(1) by (simp add: bit_blast upt_conv_Cons del: bit_0 push_bit_Suc)

lemma pack11:
  fixes t :: "nat \<Rightarrow> u16"
  assumes "\<And>k. fits 11 (t k)"
  defines "l \<equiv> map t [0..<8]"
  shows "byte_bits [ucast (l ! 0),
      ucast (drop_bit 8 (l ! 0)) OR ucast (push_bit 3 (l ! 1)),
      ucast (drop_bit 5 (l ! 1)) OR ucast (push_bit 6 (l ! 2)),
      ucast (drop_bit 2 (l ! 2)),
      ucast (drop_bit 10 (l ! 2)) OR ucast (push_bit 1 (l ! 3)),
      ucast (drop_bit 7 (l ! 3)) OR ucast (push_bit 4 (l ! 4)),
      ucast (drop_bit 4 (l ! 4)) OR ucast (push_bit 7 (l ! 5)),
      ucast (drop_bit 1 (l ! 5)),
      ucast (drop_bit 9 (l ! 5)) OR ucast (push_bit 2 (l ! 6)),
      ucast (drop_bit 6 (l ! 6)) OR ucast (push_bit 5 (l ! 7)),
      ucast (drop_bit 3 (l ! 7))] = concat (map (\<lambda>k. bits 11 (t k)) [0..<8])"
  unfolding l_def using assms(1) by (simp add: bit_blast upt_conv_Cons del: bit_0 push_bit_Suc)

lemma Compress_fits: "fits d (word_of_int (Compress d x) :: 'a::len word)"
  by (rule fits_word_of_int) (rule Compress_range)+

lemma pack_words:
  fixes V :: "int \<Rightarrow> 'w::len word"
  assumes "length a = n * m" and "\<And>x. x \<in> set a \<Longrightarrow> V x = word_of_int (Compress d x)" and "d \<le> LENGTH('w)"
    and pack: "\<And>t. (\<And>k. fits d (t k)) \<Longrightarrow> byte_bits (F (map t [0..<m])) = concat (map (\<lambda>k. bits d (t k)) [0..<m])"
  shows "byte_bits (concat (map (\<lambda>i. let t = map (\<lambda>j. V (a ! (m * i + j))) [0..<m] in F t) [0..<n])) =
    concat (map (\<lambda>x. bits d (Compress d x)) a)"
proof (rule pack_blocks [OF assms(1)])
  fix i assume i: "i < n"
  have "Suc i * m \<le> n * m" using i by (intro mult_le_mono1) simp
  then have "V (a ! (m * i + j)) = word_of_int (Compress d (a ! (m * i + j)))" if "j < m" for j
    using that assms(1) by (intro assms(2) nth_mem) (simp add: mult.commute)
  then have t: "map (\<lambda>j. V (a ! (m * i + j))) [0..<m] = map (\<lambda>j. word_of_int (Compress d (a ! (m * i + j)))) [0..<m]"
    by (intro map_cong) simp_all
  show "byte_bits (let t = map (\<lambda>j. V (a ! (m * i + j))) [0..<m] in F t) =
      concat (map (\<lambda>j. bits d (Compress d (a ! (m * i + j)))) [0..<m])"
    unfolding Let_def t pack [OF Compress_fits] using assms(3) by (simp add: bits_word_of_int)
qed

lemma kem_poly_compress_bits:
  assumes "kem_reduced a"
  shows "byte_bits (kem_poly_compress128 a) = concat (map (\<lambda>x. bits 4 (Compress 4 x)) a)"
    and "byte_bits (kem_poly_compress160 a) = concat (map (\<lambda>x. bits 5 (Compress 5 x)) a)"
proof -
  have l: "length a = ML_KEM_N div 8 * 8" using assms by (simp add: kem_reduced_def ML_KEM_N_def)
  show "byte_bits (kem_poly_compress128 a) = concat (map (\<lambda>x. bits 4 (Compress 4 x)) a)"
    unfolding kem_poly_compress128_def
    by (rule pack_words [OF l kem_compress4 _ pack4]) (use assms in \<open>simp_all add: kem_reduced_def\<close>)
  show "byte_bits (kem_poly_compress160 a) = concat (map (\<lambda>x. bits 5 (Compress 5 x)) a)"
    unfolding kem_poly_compress160_def
    by (rule pack_words [OF l kem_compress5 _ pack5]) (use assms in \<open>simp_all add: kem_reduced_def\<close>)
qed

lemma kem_polyvec_compress_bits:
  assumes "\<forall>p \<in> set a. kem_reduced p"
  shows "byte_bits (kem_polyvec_compress320 a) = concat (map (\<lambda>p. concat (map (\<lambda>x. bits 10 (Compress 10 x)) p)) a)"
    and "byte_bits (kem_polyvec_compress352 a) = concat (map (\<lambda>p. concat (map (\<lambda>x. bits 11 (Compress 11 x)) p)) a)"
proof -
  have m: "(0x3ff :: u32) = mask 10" "(0x7ff :: u32) = mask 11" by (simp_all add: mask_eq_exp_minus_1)
  have d: "kem_compress_d10 x = word_of_int (Compress 10 x)" "kem_compress_d11 x = word_of_int (Compress 11 x)"
    if "p \<in> set a" "x \<in> set p" for p x
    using that assms kem_compress_word [OF _ _ m(1), of x] kem_compress_word [OF _ _ m(2), of x]
    by (simp_all add: kem_compress_d10_def kem_compress_d11_def Let_def kem_reduced_def)
  have l: "length p = ML_KEM_N div 4 * 4" "length p = ML_KEM_N div 8 * 8" if "p \<in> set a" for p
    using assms that by (simp_all add: kem_reduced_def ML_KEM_N_def)
  show "byte_bits (kem_polyvec_compress320 a) = concat (map (\<lambda>p. concat (map (\<lambda>x. bits 10 (Compress 10 x)) p)) a)"
    unfolding kem_polyvec_compress320_def
    by (subst byte_bits_concat, unfold map_map comp_def, intro arg_cong [of _ _ concat] map_cong refl, rule pack_words [OF l(1) d(1) _ pack10]) simp_all
  show "byte_bits (kem_polyvec_compress352 a) = concat (map (\<lambda>p. concat (map (\<lambda>x. bits 11 (Compress 11 x)) p)) a)"
    unfolding kem_polyvec_compress352_def
    by (subst byte_bits_concat, unfold map_map comp_def, intro arg_cong [of _ _ concat] map_cong refl, rule pack_words [OF l(2) d(2) _ pack11]) simp_all
qed

text \<open>Decompression reads back the packed values.\<close>

lemma unpack_words:
  fixes T :: "bytes \<Rightarrow> 'w::len word list"
  assumes a: "length a = n * k"
    and unpack: "\<And>b. length b = k \<Longrightarrow> concat (map (\<lambda>j. bits d (T b ! j AND mask d)) [0..<m]) = byte_bits b"
    and D: "\<And>y. 0 \<le> y \<Longrightarrow> y < 2 ^ d \<Longrightarrow> D y = Decompress d y"
    and vals: "concat (map (bits d) vals) = byte_bits a" "length vals = n * m" "\<forall>y \<in> set vals. 0 \<le> y \<and> y < 2 ^ d"
  shows "concat (map (\<lambda>i. map (\<lambda>j. D (uint (T (bslice (k * i) k a) ! j AND mask d))) [0..<m]) [0..<n]) = map (Decompress d) vals"
proof -
  define v where "v = concat (map (\<lambda>i. map (\<lambda>j. uint (T (bslice (k * i) k a) ! j AND mask d)) [0..<m]) [0..<n])"
  have "concat (map (bits d) v) = byte_bits a"
    unfolding v_def
  proof (rule unpack_blocks [OF a])
    fix i assume "i < n"
    then have "Suc i * k \<le> n * k" by (intro mult_le_mono1) simp
    then have "length (bslice (k * i) k a) = k" using a by (simp add: mult.commute)
    from unpack [OF this] show "concat (map (bits d) (map (\<lambda>j. uint (T (bslice (k * i) k a) ! j AND mask d)) [0..<m])) =
        byte_bits (bslice (i * k) k a)"
      by (simp add: mult.commute comp_def)
  qed
  moreover have r: "\<forall>y \<in> set v. 0 \<le> y \<and> y < 2 ^ d"
    unfolding v_def using mask_range(2) [of "mask d :: 'w word" d] by auto
  moreover have "length v = n * m" by (simp add: v_def length_concat comp_def sum_list_triv)
  ultimately have v: "v = vals" using vals by (intro concat_bits_inj [where d = d]) simp_all
  have "concat (map (\<lambda>i. map (\<lambda>j. D (uint (T (bslice (k * i) k a) ! j AND mask d))) [0..<m]) [0..<n]) = map D v"
    by (simp add: v_def map_concat comp_def)
  also have "\<dots> = map (Decompress d) v" using r D by simp
  finally show ?thesis by (simp only: v)
qed

lemma byte_bits_nth: "byte_bits b = concat (map (\<lambda>i. bits 8 (b ! i)) [0..<length b])"
  using arg_cong [OF map_nth [of b], of byte_bits] by (simp add: byte_bits_def comp_def)

lemma unpack4:
  assumes "length b = 1"
  shows "concat (map (\<lambda>j. bits 4 ([b ! 0, drop_bit 4 (b ! 0)] ! j AND mask 4)) [0..<2]) = byte_bits b"
  unfolding byte_bits_nth assms by (simp add: bit_blast upt_conv_Cons del: bit_0 push_bit_Suc)

lemma unpack5:
  assumes "length b = 5"
  shows "concat (map (\<lambda>j. bits 5 (kem_unpack5 b ! j AND mask 5)) [0..<8]) = byte_bits b"
  unfolding byte_bits_nth assms kem_unpack5_def by (simp add: bit_blast upt_conv_Cons del: bit_0 push_bit_Suc)

lemma unpack10:
  assumes "length b = 5"
  shows "concat (map (\<lambda>j. bits 10 (kem_unpack10 b ! j AND mask 10)) [0..<4]) = byte_bits b"
  unfolding byte_bits_nth assms kem_unpack10_def by (simp add: bit_blast upt_conv_Cons del: bit_0 push_bit_Suc)

lemma unpack11:
  assumes "length b = 11"
  shows "concat (map (\<lambda>j. bits 11 (kem_unpack11 b ! j AND mask 11)) [0..<8]) = byte_bits b"
  unfolding byte_bits_nth assms kem_unpack11_def by (simp add: bit_blast upt_conv_Cons del: bit_0 push_bit_Suc)

lemma kem_decompress_coeff:
  assumes "0 \<le> y" and "y < 2 ^ d" and "d \<le> 11" and "h = 2 ^ d div 2"
  shows "i16 (u32i (y * ML_KEM_Q + h) div 2 ^ d) = Decompress d y" and "i16 ((y * ML_KEM_Q + h) div 2 ^ d) = Decompress d y"
proof -
  have p: "(2 :: int) ^ d \<le> 2 ^ 11" using assms(3) by (intro power_increasing) simp_all
  have b: "0 \<le> y * ML_KEM_Q + h" "y * ML_KEM_Q + h < 2 ^ 32" "y * ML_KEM_Q + h < 2 ^ d * 2 ^ 15"
    using assms(1,2,4) p by (simp_all add: ML_KEM_Q_def)
  have D: "Decompress d y = (y * ML_KEM_Q + h) div 2 ^ d" unfolding Decompress_div assms(4) ..
  have "2 ^ d * ((y * ML_KEM_Q + h) div 2 ^ d) \<le> y * ML_KEM_Q + h"
    using mult_div_mod_eq [of "2 ^ d" "y * ML_KEM_Q + h"] pos_mod_sign [of "2 ^ d" "y * ML_KEM_Q + h"]
    by (metis add.commute add_le_same_cancel2 le_add_same_cancel1 zero_less_numeral zero_less_power)
  then have "2 ^ d * ((y * ML_KEM_Q + h) div 2 ^ d) < 2 ^ d * 2 ^ 15" using b(3) by (rule le_less_trans)
  then have "(y * ML_KEM_Q + h) div 2 ^ d < 2 ^ 15" by (simp only: mult_less_cancel_left_pos zero_less_power zero_less_numeral)
  moreover have "0 \<le> (y * ML_KEM_Q + h) div 2 ^ d" using b(1) by (simp add: pos_imp_zdiv_nonneg_iff)
  ultimately have i: "i16 ((y * ML_KEM_Q + h) div 2 ^ d) = (y * ML_KEM_Q + h) div 2 ^ d" by (intro i16_id) simp_all
  then show "i16 ((y * ML_KEM_Q + h) div 2 ^ d) = Decompress d y" by (simp only: D)
  show "i16 (u32i (y * ML_KEM_Q + h) div 2 ^ d) = Decompress d y" unfolding u32i_id [OF b(1,2)] D by (rule i)
qed


lemma kem_poly_decompress_vals:
  assumes "concat (map (bits d) vals) = byte_bits a" and "length vals = 256" and "\<forall>y \<in> set vals. 0 \<le> y \<and> y < 2 ^ d"
  shows "d = 4 \<Longrightarrow> kem_poly_decompress128 a = map (Decompress d) vals"
    and "d = 5 \<Longrightarrow> kem_poly_decompress160 a = map (Decompress d) vals"
proof -
  have l: "8 * length a = d * 256"
    using arg_cong [OF assms(1), of length] assms(2) by (simp add: length_byte_bits length_concat comp_def sum_list_triv)
  show "kem_poly_decompress128 a = map (Decompress d) vals" if d: "d = 4"
  proof -
    have m: "(15 :: u8) = mask 4" by (simp add: mask_eq_exp_minus_1)
    have "kem_poly_decompress128 a = concat (map (\<lambda>i. map (\<lambda>j. i16 ((uint ([bslice (1 * i) 1 a ! 0,
        drop_bit 4 (bslice (1 * i) 1 a ! 0)] ! j AND mask 4) * ML_KEM_Q + 8) div 2 ^ 4)) [0..<2]) [0..<ML_KEM_N div 2])"
      unfolding kem_poly_decompress128_def
    proof (intro arg_cong [of _ _ concat] map_cong refl)
      fix i assume "i \<in> set [0..<ML_KEM_N div 2]"
      then have b: "bslice (1 * i) 1 a ! 0 = a ! i" using l d by (simp add: bslice_nth ML_KEM_N_def)
      have h: "drop_bit 4 (a ! i) AND mask 4 = drop_bit 4 (a ! i)"
        by (rule bit_word_eqI) (auto simp: bit_simps dest: bit_imp_le_length)
      show "[i16 ((uint (a ! i AND 15) * ML_KEM_Q + 8) div 2 ^ 4), i16 ((uint (drop_bit 4 (a ! i)) * ML_KEM_Q + 8) div 2 ^ 4)] =
          map (\<lambda>j. i16 ((uint ([bslice (1 * i) 1 a ! 0, drop_bit 4 (bslice (1 * i) 1 a ! 0)] ! j AND mask 4) * ML_KEM_Q + 8) div 2 ^ 4)) [0..<2]"
        unfolding b m by (simp add: upt_conv_Cons h)
    qed
    also have "\<dots> = map (Decompress 4) vals"
      by (rule unpack_words [where T = "\<lambda>b. [b ! 0, drop_bit 4 (b ! 0)]" and D = "\<lambda>y. i16 ((y * ML_KEM_Q + 8) div 2 ^ 4)",
            OF _ unpack4 kem_decompress_coeff(2)])
         (use assms l d in \<open>simp_all add: ML_KEM_N_def\<close>)
    finally show ?thesis by (simp only: d)
  qed
  show "kem_poly_decompress160 a = map (Decompress d) vals" if d: "d = 5"
  proof -
    have m: "(31 :: u8) = mask 5" by (simp add: mask_eq_exp_minus_1)
    show ?thesis
      unfolding kem_poly_decompress160_def Let_def m d
      by (rule unpack_words [where D = "\<lambda>y. i16 (u32i (y * ML_KEM_Q + 16) div 2 ^ 5)", OF _ unpack5 kem_decompress_coeff(1)])
         (use assms l d in \<open>simp_all add: ML_KEM_N_def\<close>)
  qed
qed

lemma bslice_bslice: "off' + n \<le> m \<Longrightarrow> bslice off' n (bslice off m a) = bslice (off + off') n a"
  by (simp add: bslice_def drop_take min_def add.commute)

lemma kem_polyvec_decompress_vals:
  assumes "concat (map (bits d) vals) = byte_bits (bslice (32 * d * i) (32 * d) a)" and "length vals = 256"
    and "\<forall>y \<in> set vals. 0 \<le> y \<and> y < 2 ^ d" and "i < K"
  shows "d = 10 \<Longrightarrow> kem_polyvec_decompress320 K a ! i = map (Decompress d) vals"
    and "d = 11 \<Longrightarrow> kem_polyvec_decompress352 K a ! i = map (Decompress d) vals"
proof -
  have "length (byte_bits (bslice (32 * d * i) (32 * d) a)) = d * 256"
    using arg_cong [OF assms(1), of length] assms(2) by (simp add: length_concat comp_def sum_list_triv)
  then have l: "length (bslice (32 * d * i) (32 * d) a) = 32 * d" by (simp add: length_byte_bits)
  show "kem_polyvec_decompress320 K a ! i = map (Decompress d) vals" if d: "d = 10"
  proof -
    have m: "(0x3FF :: u16) = mask 10" by (simp add: mask_eq_exp_minus_1)
    have s: "bslice (320 * i + 5 * j) 5 a = bslice (5 * j) 5 (bslice (320 * i) 320 a)" if "j < 64" for j
      using that by (simp add: bslice_bslice)
    have "kem_polyvec_decompress320 K a ! i = concat (map (\<lambda>j. map (\<lambda>k. i16 (u32i (uint (
        kem_unpack10 (bslice (5 * j) 5 (bslice (320 * i) 320 a)) ! k AND mask 10) * ML_KEM_Q + 512) div 2 ^ 10)) [0..<4]) [0..<64])"
      using assms(4) by (simp add: kem_polyvec_decompress320_def ML_KEM_N_def m del: upt_rec_numeral)
         (intro arg_cong [of _ _ concat] map_cong refl, simp add: s)
    also have "\<dots> = map (Decompress 10) vals"
      by (rule unpack_words [where D = "\<lambda>y. i16 (u32i (y * ML_KEM_Q + 512) div 2 ^ 10)", OF _ unpack10 kem_decompress_coeff(1)])
         (use assms l d in simp_all)
    finally show ?thesis by (simp only: d)
  qed
  show "kem_polyvec_decompress352 K a ! i = map (Decompress d) vals" if d: "d = 11"
  proof -
    have m: "(0x7FF :: u16) = mask 11" by (simp add: mask_eq_exp_minus_1)
    have s: "bslice (352 * i + 11 * j) 11 a = bslice (11 * j) 11 (bslice (352 * i) 352 a)" if "j < 32" for j
      using that by (simp add: bslice_bslice)
    have "kem_polyvec_decompress352 K a ! i = concat (map (\<lambda>j. map (\<lambda>k. i16 (u32i (uint (
        kem_unpack11 (bslice (11 * j) 11 (bslice (352 * i) 352 a)) ! k AND mask 11) * ML_KEM_Q + 1024) div 2 ^ 11)) [0..<8]) [0..<32])"
      using assms(4) by (simp add: kem_polyvec_decompress352_def ML_KEM_N_def m del: upt_rec_numeral)
         (intro arg_cong [of _ _ concat] map_cong refl, simp add: s)
    also have "\<dots> = map (Decompress 11) vals"
      by (rule unpack_words [where D = "\<lambda>y. i16 (u32i (y * ML_KEM_Q + 1024) div 2 ^ 11)", OF _ unpack11 kem_decompress_coeff(1)])
         (use assms l d in simp_all)
    finally show ?thesis by (simp only: d)
  qed
qed


text \<open>What the receiver decompresses is what the sender compressed, up to the rounding.\<close>

definition kem_du :: "nat \<Rightarrow> nat" where "kem_du K = (if K = 4 then 11 else 10)"
definition kem_dv :: "nat \<Rightarrow> nat" where "kem_dv K = (if K = 4 then 5 else 4)"

lemma Compress_range_map: "\<forall>y \<in> set (map (Compress d) v). 0 \<le> y \<and> y < 2 ^ d"
  by (simp add: Compress_range)

lemma kem_poly_compress_decompress:
  assumes "kem_reduced v"
  shows "kem_poly_decompress K (kem_poly_compress K v) = map (\<lambda>x. Decompress (kem_dv K) (Compress (kem_dv K) x)) v"
    and "length (kem_poly_compress K v) = ML_KEM_POLYCOMPRESSEDBYTES K"
proof -
  have l: "length v = 256" using assms by (simp add: kem_reduced_def)
  have b: "concat (map (bits (kem_dv K)) (map (Compress (kem_dv K)) v)) = byte_bits (kem_poly_compress K v)"
    using kem_poly_compress_bits [OF assms]
    by (simp add: kem_dv_def kem_poly_compress_def ML_KEM_POLYCOMPRESSEDBYTES_def comp_def)
  have "kem_poly_decompress K (kem_poly_compress K v) = map (Decompress (kem_dv K)) (map (Compress (kem_dv K)) v)"
    using kem_poly_decompress_vals [OF b _ Compress_range_map] l
    by (cases "K = 4") (simp_all add: Compress_range kem_poly_decompress_def ML_KEM_POLYCOMPRESSEDBYTES_def kem_dv_def)
  then show "kem_poly_decompress K (kem_poly_compress K v) = map (\<lambda>x. Decompress (kem_dv K) (Compress (kem_dv K) x)) v"
    by (simp add: comp_def)
  show "length (kem_poly_compress K v) = ML_KEM_POLYCOMPRESSEDBYTES K"
    using arg_cong [OF b, of length] l
    by (simp add: length_byte_bits length_concat comp_def sum_list_triv kem_dv_def ML_KEM_POLYCOMPRESSEDBYTES_def split: if_splits)
qed

lemma kem_polyvec_compress_concat: "kem_polyvec_compress K a = concat (map (\<lambda>p. kem_polyvec_compress K [p]) a)"
  by (simp add: kem_polyvec_compress_def kem_polyvec_compress320_def kem_polyvec_compress352_def)

lemma kem_polyvec_compress_decompress:
  assumes "\<forall>p \<in> set u. kem_reduced p" and "length u = K" and "2 \<le> K"
  shows "kem_polyvec_decompress K (kem_polyvec_compress K u @ rest) =
      map (map (\<lambda>x. Decompress (kem_du K) (Compress (kem_du K) x))) u"
    and "length (kem_polyvec_compress K u) = ML_KEM_POLYVECCOMPRESSEDBYTES K"
proof -
  let ?d = "kem_du K"
  have sz: "ML_KEM_POLYVECCOMPRESSEDBYTES K = K * (32 * ?d)" "(ML_KEM_POLYVECCOMPRESSEDBYTES K = K * 352) = (K = 4)"
    using assms(3) by (simp_all add: ML_KEM_POLYVECCOMPRESSEDBYTES_def kem_du_def)
  have b: "concat (map (bits ?d) (map (Compress ?d) p)) = byte_bits (kem_polyvec_compress K [p])" if "p \<in> set u" for p
    using kem_polyvec_compress_bits [of "[p]"] assms(1) that sz(2) by (simp add: kem_du_def kem_polyvec_compress_def comp_def)
  have l: "length (kem_polyvec_compress K [p]) = 32 * ?d" if "p \<in> set u" for p
    using arg_cong [OF b [OF that], of length] assms(1) that
    by (simp add: length_byte_bits length_concat comp_def sum_list_triv kem_reduced_def)
  let ?c = "map (\<lambda>p. kem_polyvec_compress K [p]) u"
  have lc: "length (concat ?c) = K * (32 * ?d)"
    using length_concat_blocks [of ?c "32 * ?d"] l assms(2) by (metis (no_types, lifting) in_set_conv_nth length_map nth_map)
  then show "length (kem_polyvec_compress K u) = ML_KEM_POLYVECCOMPRESSEDBYTES K"
    by (subst kem_polyvec_compress_concat) (simp only: sz(1))
  have D: "kem_polyvec_decompress K c = (if ?d = 11 then kem_polyvec_decompress352 K c else kem_polyvec_decompress320 K c)" for c
    using sz(2) by (simp add: kem_polyvec_decompress_def kem_du_def)
  show "kem_polyvec_decompress K (kem_polyvec_compress K u @ rest) =
      map (map (\<lambda>x. Decompress ?d (Compress ?d x))) u"
  proof (rule nth_equalityI)
    show "length (kem_polyvec_decompress K (kem_polyvec_compress K u @ rest)) = length (map (map (\<lambda>x. Decompress ?d (Compress ?d x))) u)"
      by (simp add: D kem_polyvec_decompress320_def kem_polyvec_decompress352_def assms(2))
    fix i assume "i < length (kem_polyvec_decompress K (kem_polyvec_compress K u @ rest))"
    then have i: "i < K" by (simp add: D kem_polyvec_decompress320_def kem_polyvec_decompress352_def split: if_splits)
    then have mem: "u ! i \<in> set u" using assms(2) by simp
    have "Suc i * (32 * ?d) \<le> K * (32 * ?d)" using i by (intro mult_le_mono1) simp
    then have "bslice (32 * ?d * i) (32 * ?d) (concat ?c @ rest) = bslice (i * (32 * ?d)) (32 * ?d) (concat ?c)"
      using lc by (simp add: bslice_def mult.commute)
    also have "\<dots> = kem_polyvec_compress K [u ! i]"
      using bslice_concat [of ?c "32 * ?d" i] l i assms(2) by auto
    finally have s: "bslice (32 * ?d * i) (32 * ?d) (kem_polyvec_compress K u @ rest) = kem_polyvec_compress K [u ! i]"
      by (subst kem_polyvec_compress_concat)
    note V = kem_polyvec_decompress_vals [OF b [OF mem, folded s] _ Compress_range_map i]
    have "kem_polyvec_decompress K (kem_polyvec_compress K u @ rest) ! i = map (Decompress ?d) (map (Compress ?d) (u ! i))"
      using V assms(1) mem Compress_range unfolding D by (simp add: kem_reduced_def kem_du_def)
    then show "kem_polyvec_decompress K (kem_polyvec_compress K u @ rest) ! i =
        map (map (\<lambda>x. Decompress ?d (Compress ?d x))) u ! i"
      using i assms(2) by (simp add: comp_def)
  qed
qed

section \<open>Round trips\<close>

lemma kem_poly_tobytes_length:
  assumes "kem_reduced a"
  shows "length (kem_poly_tobytes a) = ML_KEM_POLYBYTES"
  using arg_cong [OF kem_poly_tobytes_bits [OF assms], of length] assms
  by (simp add: length_byte_bits length_concat comp_def sum_list_triv kem_reduced_def ML_KEM_POLYBYTES_def)

lemma kem_poly_frombytes_tobytes:
  assumes "kem_reduced a"
  shows "kem_poly_frombytes (kem_poly_tobytes a) = map (\<lambda>x. x mod ML_KEM_Q) a"
proof -
  note F = kem_poly_frombytes_bits [OF kem_poly_tobytes_length [OF assms]]
  have "0 \<le> x mod ML_KEM_Q \<and> x mod ML_KEM_Q < 2 ^ 12" for x using kem_mod_range [of x] by simp
  then show ?thesis
    using F assms kem_poly_tobytes_bits [OF assms]
    by (intro concat_bits_inj [where d = 12]) (auto simp: comp_def kem_reduced_def)
qed

lemma kem_poly_tobytes_frombytes:
  assumes "length bs = ML_KEM_POLYBYTES" and "\<forall>x \<in> set (kem_poly_frombytes bs). x < ML_KEM_Q"
  shows "kem_poly_tobytes (kem_poly_frombytes bs) = bs"
proof -
  note F = kem_poly_frombytes_bits [OF assms(1)]
  have "kem_reduced (kem_poly_frombytes bs)" using F(2,3) assms(2) by (auto simp: kem_reduced_def)
  moreover have "map (\<lambda>x. bits 12 (x mod ML_KEM_Q)) (kem_poly_frombytes bs) = map (bits 12) (kem_poly_frombytes bs)"
    using F(3) assms(2) by auto
  ultimately have "byte_bits (kem_poly_tobytes (kem_poly_frombytes bs)) = byte_bits bs"
    using F(1) by (simp only: kem_poly_tobytes_bits)
  then show ?thesis by (rule byte_bits_inj)
qed

lemma kem_polyvec_tobytes_length:
  "\<forall>p \<in> set v. kem_reduced p \<Longrightarrow> length (kem_polyvec_tobytes v) = length v * ML_KEM_POLYBYTES"
  unfolding kem_polyvec_tobytes_def
  by (subst length_concat_blocks [where n = ML_KEM_POLYBYTES]) (auto simp: kem_poly_tobytes_length)

lemma kem_polyvec_frombytes_tobytes:
  assumes "\<forall>p \<in> set v. kem_reduced p" and "length v = K"
  shows "kem_polyvec_frombytes K (kem_polyvec_tobytes v @ rest) = map (map (\<lambda>x. x mod ML_KEM_Q)) v"
proof (rule nth_equalityI)
  fix i assume "i < length (kem_polyvec_frombytes K (kem_polyvec_tobytes v @ rest))"
  then have i: "i < K" by (simp add: kem_polyvec_frombytes_def)
  have "Suc i * ML_KEM_POLYBYTES \<le> K * ML_KEM_POLYBYTES" using i by (intro mult_le_mono1) simp
  then have "bslice (i * ML_KEM_POLYBYTES) ML_KEM_POLYBYTES (kem_polyvec_tobytes v @ rest) =
      bslice (i * ML_KEM_POLYBYTES) ML_KEM_POLYBYTES (kem_polyvec_tobytes v)"
    using kem_polyvec_tobytes_length [OF assms(1)] assms(2) by (simp add: bslice_def)
  also have "\<dots> = kem_poly_tobytes (v ! i)"
    unfolding kem_polyvec_tobytes_def using i assms kem_poly_tobytes_length
    by (subst bslice_concat) auto
  finally show "kem_polyvec_frombytes K (kem_polyvec_tobytes v @ rest) ! i = map (map (\<lambda>x. x mod ML_KEM_Q)) v ! i"
    using i assms by (simp add: kem_polyvec_frombytes_def kem_poly_frombytes_tobytes)
qed (simp add: kem_polyvec_frombytes_def assms(2))

section \<open>Messages\<close>

lemma kem_poly_frommsg_bits:
  assumes "length msg = 32"
  shows "kem_poly_frommsg msg = map (\<lambda>b. if b then 1665 else 0) (byte_bits msg)"
proof -
  have "i16 (- uint (drop_bit j b AND 1)) AND ((ML_KEM_Q + 1) div 2) = (if bit b j then 1665 else 0)" for b :: u8 and j
  proof -
    have "drop_bit j b AND 1 = of_bool (bit b j)"
      by (simp add: and_one_eq bit_iff_odd_drop_bit mod_2_eq_odd)
    then show ?thesis by (simp add: i16_def ML_KEM_Q_def)
  qed
  then have "kem_poly_frommsg msg = concat (map (\<lambda>i. map (\<lambda>b. if b then 1665 else 0) (bits 8 (msg ! i))) [0..<32])"
    by (simp add: kem_poly_frommsg_def Let_def bits_def comp_def ML_KEM_N_def del: upt_rec_numeral)
  also have "\<dots> = map (\<lambda>b. if b then 1665 else 0) (concat (map (\<lambda>i. bits 8 (msg ! i)) [0..<32]))"
    by (simp add: map_concat comp_def)
  finally show ?thesis by (simp add: byte_bits_nth assms)
qed

lemma bit_of_bool_shift: "bit (word_of_int (of_bool b * 2 ^ j) :: u8) n = (b \<and> n = j \<and> n < 8)"
  by (auto simp: bit_word_of_int_iff bit_exp_iff)

lemma or_byte_bits:
  "bits 8 (fold (\<lambda>j m. m OR word_of_int (of_bool (f j) * 2 ^ j)) [0..<8] (0 :: u8)) = map f [0..<8]"
  by (simp add: bits_8 upt_conv_Cons bit_or_iff bit_of_bool_shift numeral_2_eq_2 [symmetric] del: bit_0)

lemma Compress_1: "Compress 1 x \<in> {0, 1}"
  using Compress_range [of 1 x] by auto

lemma kem_tomsg_coeff:
  assumes "\<bar>x\<bar> < ML_KEM_Q"
  shows "u16i (((u16i (u16i x + ((i16 (u16i x) div 2 ^ 15) AND ML_KEM_Q)) * 2 + ML_KEM_Q div 2) div ML_KEM_Q) AND 1) =
    of_bool (Compress 1 x = 1)"
proof -
  have x: "- (2 ^ 15) \<le> x" "x < 2 ^ 15" using assms by (simp_all add: ML_KEM_Q_def)
  have s: "i16 (u16i x) = x" using x by (simp add: i16_def u16i_def mod_add_left_eq)
  have "u16i (u16i x + ((x div 2 ^ 15) AND ML_KEM_Q)) = x mod ML_KEM_Q"
  proof -
    have "u16i (u16i x + y) = u16i (x + y)" for y by (simp add: u16i_def mod_add_left_eq)
    moreover have "u16i (x + ((x div 2 ^ 15) AND ML_KEM_Q)) = u16i (i16 (x + ((x div 2 ^ 15) AND ML_KEM_Q)))"
      using i16_dvd by (simp add: u16i_def mod_eq_dvd)
    moreover have "u16i (x mod ML_KEM_Q) = x mod ML_KEM_Q" using kem_mod_range [of x] by (intro u16i_id) simp_all
    ultimately show ?thesis by (simp only: kem_lift(2) [OF assms])
  qed
  then have "u16i (((u16i (u16i x + ((i16 (u16i x) div 2 ^ 15) AND ML_KEM_Q)) * 2 + ML_KEM_Q div 2) div ML_KEM_Q) AND 1) = u16i (Compress 1 x)"
    using Compress_code [of x 1] by (simp only: s and_one_eq power_one_right)
  also have "\<dots> = of_bool (Compress 1 x = 1)" using Compress_1 [of x] by (elim insertE) (simp_all add: u16i_def)
  finally show ?thesis .
qed

lemma kem_poly_tomsg_bits:
  assumes "kem_reduced a"
  shows "byte_bits (kem_poly_tomsg a) = map (\<lambda>x. Compress 1 x = 1) a" and "length (kem_poly_tomsg a) = 32"
proof -
  have "kem_poly_tomsg a = concat (map (\<lambda>i. [fold (\<lambda>j m. m OR word_of_int (of_bool (Compress 1 (a ! (8 * i + j)) = 1) * 2 ^ j)) [0..<8] 0]) [0..<32])"
  proof -
    have "kem_poly_tomsg a = map (\<lambda>i. fold (\<lambda>j m. m OR word_of_int (of_bool (Compress 1 (a ! (8 * i + j)) = 1) * 2 ^ j)) [0..<8] 0) [0..<32]"
      unfolding kem_poly_tomsg_def Let_def using kem_tomsg_coeff kem_reducedD [OF assms]
      by (intro map_cong refl fold_cong) (simp_all add: ML_KEM_N_def)
    then show ?thesis by (simp add: comp_def del: upt_rec_numeral)
  qed
  then have "byte_bits (kem_poly_tomsg a) = concat (map (\<lambda>x. [Compress 1 x = 1]) a)"
  proof (elim ssubst, intro pack_blocks [where m = 8])
    show "length a = 32 * 8" using assms by (simp add: kem_reduced_def)
    show "byte_bits [fold (\<lambda>j m. m OR word_of_int (of_bool (Compress 1 (a ! (8 * i + j)) = 1) * 2 ^ j)) [0..<8] 0] =
        concat (map (\<lambda>j. [Compress 1 (a ! (8 * i + j)) = 1]) [0..<8])" for i
      by (simp only: byte_bits_simps or_byte_bits append_Nil2 concat_map_singleton)
  qed
  then show "byte_bits (kem_poly_tomsg a) = map (\<lambda>x. Compress 1 x = 1) a" by simp
  show "length (kem_poly_tomsg a) = 32" by (simp add: kem_poly_tomsg_def ML_KEM_N_def)
qed


text \<open>A message survives noise of less than a quarter of \<open>q\<close>.\<close>

lemma kem_msg_bit:
  assumes "ML_KEM_Q dvd x - ((if b then 1665 else 0) + e)" and "\<bar>e\<bar> < 832"
  shows "(Compress 1 x = 1) = b"
proof -
  have "x mod ML_KEM_Q = ((if b then 1665 else 0) + e) mod ML_KEM_Q" using assms(1) by (simp only: mod_eq_dvd)
  then have "Compress 1 x = Compress 1 ((if b then 1665 else 0) + e)" using Compress_mod by metis
  also have "\<dots> = of_bool b"
  proof -
    have "(2 * ((if b then 1665 else 0) + e) + 1664) div 3329 = of_bool b"
      by (rule int_div_pos_eq [where r = "2 * e + (if b then 1665 else 1664)"]) (use assms(2) in auto)
    then show ?thesis by (simp add: Compress_div ML_KEM_Q_def)
  qed
  finally show ?thesis by simp
qed

lemma kem_tomsg_noise:
  assumes "kem_reduced a" and "length msg = 32"
    and "\<And>i. i < 256 \<Longrightarrow> \<exists>e. \<bar>e\<bar> < 832 \<and> ML_KEM_Q dvd a ! i - (kem_poly_frommsg msg ! i + e)"
  shows "kem_poly_tomsg a = msg"
proof (rule byte_bits_inj)
  have l: "length a = 256" "length (byte_bits msg) = 256" using assms(1,2) by (simp_all add: kem_reduced_def length_byte_bits)
  show "byte_bits (kem_poly_tomsg a) = byte_bits msg"
    unfolding kem_poly_tomsg_bits [OF assms(1)]
  proof (rule nth_equalityI)
    fix i assume "i < length (map (\<lambda>x. Compress 1 x = 1) a)"
    then have i: "i < 256" using l by simp
    then have "kem_poly_frommsg msg ! i = (if byte_bits msg ! i then 1665 else 0)"
      using l by (simp add: kem_poly_frommsg_bits [OF assms(2)])
    with assms(3) [OF i] kem_msg_bit [of "a ! i" "byte_bits msg ! i"]
    show "map (\<lambda>x. Compress 1 x = 1) a ! i = byte_bits msg ! i" using i l by auto
  qed (simp add: l)
qed

end
