(* ===== verification/MLKEM_Sample.thy ===== *)
theory MLKEM_Sample
  imports MLKEM MLKEM_Encode
begin

text \<open>
  Sampling in ML-KEM against the standard (FIPS 203): \<open>cbd.c\<close> computes \<open>SamplePolyCBD\<close> on the bits of
  its buffer, the rejection sampling of \<open>indcpa.c\<close> keeps the 12-bit values less than \<open>q\<close> in order, and
  \<open>gen_matrix\<close> returns exactly when the output stream of the generator holds 256 of them.
\<close>

section \<open>Centred binomial sampling\<close>

lemma take_bit_sum: "take_bit n (a :: int) = (\<Sum>k<n. of_bool (bit a k) * 2 ^ k)"
  by (induction n) (simp_all add: take_bit_Suc_from_most mult.commute)

text \<open>A word whose bits lie at multiples of \<open>e\<close> is a number in base \<open>2^e\<close>.\<close>

lemma uint_digits:
  fixes x :: "'a::len word"
  assumes "\<And>i. bit x i \<Longrightarrow> e dvd i \<and> i < e * n" and "0 < e"
  shows "uint x = (\<Sum>k<n. of_bool (bit x (e * k)) * (2 ^ e) ^ k)"
proof -
  have "take_bit (e * n) (uint x) = uint x"
    by (rule bit_eqI) (use assms(1) in \<open>auto simp: bit_take_bit_iff bit_uint_iff\<close>)
  moreover have "bit (uint x) i = bit x i" for i by (auto simp: bit_uint_iff dest: bit_imp_le_length)
  ultimately have "uint x = (\<Sum>i<e * n. of_bool (bit x i) * 2 ^ i)"
    using take_bit_sum [of "e * n" "uint x"] by simp
  also have "\<dots> = (\<Sum>k<n. \<Sum>j<e. of_bool (bit x (j + e * k)) * 2 ^ (j + e * k))" by (rule sum_lessThan_mult)
  also have "\<dots> = (\<Sum>k<n. of_bool (bit x (e * k)) * (2 ^ e) ^ k)"
  proof (rule sum.cong [OF refl])
    fix k
    have "\<not> bit x (j + e * k)" if "0 < j" "j < e" for j
      using assms(1) [of "j + e * k"] that by (auto simp: dvd_add_left_iff dest: nat_dvd_not_less)
    then have "(\<Sum>j<e. of_bool (bit x (j + e * k)) * 2 ^ (j + e * k)) = (\<Sum>j<e. if j = 0 then of_bool (bit x (e * k)) * (2 :: int) ^ (e * k) else 0)"
      by (intro sum.cong) auto
    then show "(\<Sum>j<e. of_bool (bit x (j + e * k)) * (2 :: int) ^ (j + e * k)) = of_bool (bit x (e * k)) * (2 ^ e) ^ k"
      using assms(2) by (simp add: power_mult)
  qed
  finally show ?thesis .
qed

lemma digit_extract:
  fixes B :: int
  assumes "\<And>k. 0 \<le> f k \<and> f k < B" and "j < n"
  shows "(\<Sum>k<n. f k * B ^ k) div B ^ j mod B = f j" and "0 \<le> (\<Sum>k<n. f k * B ^ k)" and "(\<Sum>k<n. f k * B ^ k) < B ^ n"
proof -
  have B: "0 < B" using assms(1) [of 0] by linarith
  have bnd: "0 \<le> (\<Sum>k<n. f k * B ^ k) \<and> (\<Sum>k<n. f k * B ^ k) < B ^ n" for n
  proof (induction n)
    case (Suc n)
    have "f n * B ^ n \<le> (B - 1) * B ^ n" using assms(1) [of n] B by (intro mult_right_mono) simp_all
    moreover have "0 \<le> f n * B ^ n" using assms(1) [of n] B by simp
    ultimately show ?case using Suc by (auto simp: algebra_simps)
  qed simp
  then show "0 \<le> (\<Sum>k<n. f k * B ^ k)" "(\<Sum>k<n. f k * B ^ k) < B ^ n" by blast+
  have "(\<Sum>k<n. f k * B ^ k) = (\<Sum>k<j. f k * B ^ k) + B ^ j * (\<Sum>k<n - j. f (k + j) * B ^ k)"
  proof -
    have "(\<Sum>k<n. f k * B ^ k) = (\<Sum>k<j. f k * B ^ k) + (\<Sum>k\<in>{j..<n}. f k * B ^ k)"
      using assms(2) by (metis atLeast0LessThan less_imp_le_nat sum.atLeastLessThan_concat zero_le)
    also have "(\<Sum>k\<in>{j..<n}. f k * B ^ k) = (\<Sum>k<n - j. f (k + j) * B ^ (k + j))"
      using sum.shift_bounds_nat_ivl [of "\<lambda>k. f k * B ^ k" 0 j "n - j"] assms(2) by (simp add: lessThan_atLeast0)
    finally show ?thesis by (simp add: sum_distrib_left power_add algebra_simps)
  qed
  then have "(\<Sum>k<n. f k * B ^ k) div B ^ j = (\<Sum>k<n - j. f (k + j) * B ^ k)"
    using bnd [of j] B by (simp add: div_pos_pos_trivial)
  also have "\<dots> = f j + B * (\<Sum>k<n - j - 1. f (k + 1 + j) * B ^ k)"
  proof -
    obtain m where m: "n - j = Suc m" using assms(2) by (metis Suc_diff_Suc)
    show ?thesis unfolding m by (subst sum.lessThan_Suc_shift) (simp add: sum_distrib_left algebra_simps)
  qed
  finally show "(\<Sum>k<n. f k * B ^ k) div B ^ j mod B = f j" using assms(1) [of j] by simp
qed


definition bit_count :: "bool list \<Rightarrow> int" where
  "bit_count bs = (\<Sum>b\<leftarrow>bs. of_bool b)"

text \<open>\<open>SamplePolyCBD\<close> of the standard, on the bit string of the buffer.\<close>

definition cbd_spec :: "nat \<Rightarrow> bool list \<Rightarrow> int list" where
  "cbd_spec eta bs = map (\<lambda>i. bit_count (bslice (2 * i * eta) eta bs) - bit_count (bslice (2 * i * eta + eta) eta bs)) [0..<256]"

lemma kem_load32_bits:
  assumes "n < 32"
  shows "bit (kem_load32_littleendian [b0, b1, b2, b3]) n = byte_bits [b0, b1, b2, b3] ! n"
proof -
  have "list_all (\<lambda>n. bit (kem_load32_littleendian [b0, b1, b2, b3]) (nat n) = byte_bits [b0, b1, b2, b3] ! nat n) [int 0..int 31]"
    by (simp add: kem_load32_littleendian_def Let_def bits_8 upto.simps bit_simps byte_high numeral_2_eq_2 [symmetric] del: bit_0 push_bit_Suc)
  then show ?thesis by (rule list_all_range) (use assms in simp_all)
qed

lemma kem_load24_bits:
  assumes "n < 24"
  shows "bit (kem_load24_littleendian [b0, b1, b2]) n = byte_bits [b0, b1, b2] ! n"
proof -
  have "list_all (\<lambda>n. bit (kem_load24_littleendian [b0, b1, b2]) (nat n) = byte_bits [b0, b1, b2] ! nat n) [int 0..int 23]"
    by (simp add: kem_load24_littleendian_def Let_def bits_8 upto.simps bit_simps byte_high numeral_2_eq_2 [symmetric] del: bit_0 push_bit_Suc)
  then show ?thesis by (rule list_all_range) (use assms in simp_all)
qed

lemma mask_bits:
  shows "bit (0x55555555 :: u32) i \<longleftrightarrow> 2 dvd i \<and> i < 32" and "bit (0x00249249 :: u32) i \<longleftrightarrow> 3 dvd i \<and> i < 24"
proof -
  have "list_all (\<lambda>i. bit (0x55555555 :: u32) (nat i) = (2 dvd nat i \<and> nat i < 32) \<and> bit (0x00249249 :: u32) (nat i) = (3 dvd nat i \<and> nat i < 24)) [int 0..int 31]"
    by code_simp
  then have "bit (0x55555555 :: u32) i = (2 dvd i \<and> i < 32) \<and> bit (0x00249249 :: u32) i = (3 dvd i \<and> i < 24)" if "i < 32"
    by (rule list_all_range) (use that in simp_all)
  then show "bit (0x55555555 :: u32) i \<longleftrightarrow> 2 dvd i \<and> i < 32" "bit (0x00249249 :: u32) i \<longleftrightarrow> 3 dvd i \<and> i < 24"
    using bit_imp_le_length [of "0x55555555 :: u32" i] bit_imp_le_length [of "0x00249249 :: u32" i] by (cases "i < 32"; force)+
qed

lemma cbd_field:
  fixes t M :: u32
  assumes "\<And>i. bit M i \<longleftrightarrow> e dvd i \<and> i < e * n" and "0 < e"
  shows "uint (drop_bit s t AND M) = (\<Sum>k<n. of_bool (bit t (e * k + s)) * (2 ^ e) ^ k)"
proof -
  have "uint (drop_bit s t AND M) = (\<Sum>k<n. of_bool (bit (drop_bit s t AND M) (e * k)) * (2 ^ e) ^ k)"
    by (rule uint_digits) (use assms in \<open>auto simp: bit_and_iff\<close>)
  also have "\<dots> = (\<Sum>k<n. of_bool (bit t (e * k + s)) * (2 ^ e) ^ k)"
    using assms by (intro sum.cong refl) (simp add: bit_and_iff bit_drop_bit_eq add.commute)
  finally show ?thesis .
qed

lemma uint_add_small: "uint x + uint y < 2 ^ 32 \<Longrightarrow> uint (x + y :: u32) = uint x + uint y"
  by (simp add: uint_word_ariths(1))

lemma word_digit:
  fixes d :: u32
  assumes "m = mask e"
  shows "uint (drop_bit (e * j) d AND m) = uint d div (2 ^ e) ^ j mod 2 ^ e"
proof -
  have "uint (drop_bit (e * j) d AND m) = take_bit e (drop_bit (e * j) (uint d))"
    unfolding assms by (rule bit_eqI) (auto simp: bit_simps dest: bit_imp_le_length)
  then show ?thesis by (simp add: take_bit_eq_mod drop_bit_eq_div power_mult)
qed

lemma cbd2_digit:
  fixes t :: u32
  assumes "j < 16"
  defines "d \<equiv> (t AND 0x55555555) + (drop_bit 1 t AND 0x55555555)"
  shows "uint (drop_bit (2 * j) d AND 0x3) = of_bool (bit t (2 * j)) + of_bool (bit t (2 * j + 1))"
proof -
  define f where "f k = (of_bool (bit t (2 * k)) + of_bool (bit t (2 * k + 1)) :: int)" for k
  have f: "0 \<le> f k \<and> f k < 2 ^ 2" for k by (simp add: f_def)
  have M: "bit (0x55555555 :: u32) i \<longleftrightarrow> 2 dvd i \<and> i < 2 * 16" for i using mask_bits(1) by simp
  have s: "uint (t AND 0x55555555) + uint (drop_bit 1 t AND 0x55555555) = (\<Sum>k<16. f k * (2 ^ 2) ^ k)"
    using cbd_field [OF M _, of 0 t] cbd_field [OF M _, of 1 t]
    by (simp only: drop_bit_0 id_apply add_0_right f_def sum.distrib distrib_right zero_less_numeral simp_thms)
  then have "uint d = (\<Sum>k<16. f k * (2 ^ 2) ^ k)"
    using digit_extract(3) [OF f assms(1)] unfolding d_def by (subst uint_add_small) simp_all
  moreover have "(0x3 :: u32) = mask 2" by (simp add: mask_eq_exp_minus_1)
  ultimately show ?thesis using digit_extract(1) [OF f assms(1)] word_digit [of "0x3" 2 j d] by (simp add: f_def)
qed

lemma cbd3_digit:
  fixes t :: u32
  assumes "j < 8"
  defines "d \<equiv> (t AND 0x00249249) + (drop_bit 1 t AND 0x00249249) + (drop_bit 2 t AND 0x00249249)"
  shows "uint (drop_bit (3 * j) d AND 0x7) =
    of_bool (bit t (3 * j)) + of_bool (bit t (3 * j + 1)) + of_bool (bit t (3 * j + 2))"
proof -
  define g where "g k = (of_bool (bit t (3 * k)) + of_bool (bit t (3 * k + 1)) :: int)" for k
  define f where "f k = (g k + of_bool (bit t (3 * k + 2)) :: int)" for k
  have f: "0 \<le> f k \<and> f k < 2 ^ 3" "0 \<le> g k \<and> g k < 2 ^ 3" for k by (simp_all add: f_def g_def)
  have M: "bit (0x00249249 :: u32) i \<longleftrightarrow> 3 dvd i \<and> i < 3 * 8" for i using mask_bits(2) by simp
  have s: "uint (t AND 0x00249249) + uint (drop_bit 1 t AND 0x00249249) = (\<Sum>k<8. g k * (2 ^ 3) ^ k)"
    "(\<Sum>k<8. g k * (2 ^ 3) ^ k) + uint (drop_bit 2 t AND 0x00249249) = (\<Sum>k<8. f k * (2 ^ 3) ^ k)"
    using cbd_field [OF M _, of 0 t] cbd_field [OF M _, of 1 t] cbd_field [OF M _, of 2 t]
    by (simp_all only: drop_bit_0 id_apply add_0_right f_def g_def sum.distrib distrib_right zero_less_numeral simp_thms)
  note G = digit_extract(3) [where f = g, OF f(2) assms(1)] note F = digit_extract(3) [where f = f, OF f(1) assms(1)]
  have "uint ((t AND 0x00249249) + (drop_bit 1 t AND 0x00249249)) = (\<Sum>k<8. g k * (2 ^ 3) ^ k)"
    using s(1) G by (subst uint_add_small) simp_all
  then have "uint d = (\<Sum>k<8. f k * (2 ^ 3) ^ k)"
    using s(2) F unfolding d_def by (subst uint_add_small) simp_all
  moreover have "(0x7 :: u32) = mask 3" by (simp add: mask_eq_exp_minus_1)
  ultimately show ?thesis using digit_extract(1) [OF f(1) assms(1)] word_digit [of "0x7" 3 j d] by (simp add: f_def g_def)
qed

lemma byte_bits_drop:
  assumes "8 * k + n < 8 * length buf"
  shows "byte_bits (drop k buf) ! n = byte_bits buf ! (8 * k + n)"
proof -
  have "byte_bits buf = byte_bits (take k buf) @ byte_bits (drop k buf)"
    by (simp flip: byte_bits_simps(3))
  moreover have "length (byte_bits (take k buf)) = 8 * k" using assms by (simp add: length_byte_bits)
  ultimately show ?thesis by (simp add: nth_append)
qed

lemma bit_count_simps: "bit_count [] = 0" "bit_count (b # bs) = of_bool b + bit_count bs"
  by (simp_all add: bit_count_def)

lemma kem_load_take: "kem_load32_littleendian x = kem_load32_littleendian [x ! 0, x ! 1, x ! 2, x ! 3]"
  "kem_load24_littleendian x = kem_load24_littleendian [x ! 0, x ! 1, x ! 2]"
  by (simp_all add: kem_load32_littleendian_def kem_load24_littleendian_def numeral_2_eq_2 numeral_3_eq_3)

lemma byte_bits_take: "n < 8 * m \<Longrightarrow> m \<le> length x \<Longrightarrow> byte_bits (take m x) ! n = byte_bits x ! n"
  by (metis append_take_drop_id byte_bits_simps(3) length_byte_bits length_take min.absorb2 nth_append)

lemma kem_cbd2_spec:
  assumes "length buf = 128"
  shows "kem_cbd2 buf = cbd_spec 2 (byte_bits buf)"
proof -
  let ?F = "\<lambda>m. bit_count (bslice (2 * m * 2) 2 (byte_bits buf)) - bit_count (bslice (2 * m * 2 + 2) 2 (byte_bits buf))"
  have l: "length (byte_bits buf) = 1024" using assms by (simp add: length_byte_bits)
  have "kem_cbd2 buf = concat (map (\<lambda>i. map (\<lambda>j. ?F ([0..<256] ! (8 * i + j))) [0..<8]) [0..<32])"
    unfolding kem_cbd2_def Let_def
  proof (intro arg_cong [of _ _ concat] map_cong)
    show "[0..<ML_KEM_N div 8] = [0..<32]" by (simp add: ML_KEM_N_def)
    fix i j :: nat assume "i \<in> set [0..<32]" "j \<in> set [0..<8]"
    then have i: "i < 32" and j: "j < 8" by simp_all
    define t where "t = kem_load32_littleendian (drop (4 * i) buf)"
    have tb: "bit t n = byte_bits buf ! (32 * i + n)" if "n < 32" for n
    proof -
      let ?x = "drop (4 * i) buf"
      have "take 4 ?x = [?x ! 0, ?x ! 1, ?x ! 2, ?x ! 3]"
        using i assms by (simp add: numeral_eq_Suc take_Suc_conv_app_nth)
      then have "bit t n = byte_bits (take 4 ?x) ! n"
        unfolding t_def by (subst kem_load_take(1)) (simp only: kem_load32_bits [OF that])
      then show ?thesis using byte_bits_take [of n 4 "drop (4 * i) buf"] byte_bits_drop [of "4 * i" n buf] that i assms by simp
    qed
    have b: "bslice (2 * (8 * i + j) * 2) 2 (byte_bits buf) = [bit t (4 * j), bit t (4 * j + 1)]"
      "bslice (2 * (8 * i + j) * 2 + 2) 2 (byte_bits buf) = [bit t (4 * j + 2), bit t (4 * j + 3)]"
      using i j l by (simp_all add: bslice_nth tb) (intro conjI arg_cong [of _ _ "(!) (byte_bits buf)"]; simp)
    have x: "[0..<256] ! (8 * i + j) = 8 * i + j" using i j by simp
    have n: "2 * (2 * j) = 4 * j" "2 * (2 * j + 1) = 4 * j + 2" "4 * j + 2 + 1 = 4 * j + 3" by simp_all
    have j': "2 * j < 16" "2 * j + 1 < 16" using j by simp_all
    note D = cbd2_digit [OF j'(1), of t, unfolded n] cbd2_digit [OF j'(2), of t, unfolded n]
    show "i16 (uint (drop_bit (4 * j) ((t AND 0x55555555) + (drop_bit 1 t AND 0x55555555)) AND 0x3) -
        uint (drop_bit (4 * j + 2) ((t AND 0x55555555) + (drop_bit 1 t AND 0x55555555)) AND 0x3)) = ?F ([0..<256] ! (8 * i + j))"
      unfolding x b D bit_count_simps by (simp add: i16_id)
  qed simp
  also have "\<dots> = map ?F [0..<256]" by (rule concat_blocks_map) simp
  finally show ?thesis by (simp only: cbd_spec_def)
qed


lemma kem_cbd3_spec:
  assumes "length buf = 192"
  shows "kem_cbd3 buf = cbd_spec 3 (byte_bits buf)"
proof -
  let ?F = "\<lambda>m. bit_count (bslice (2 * m * 3) 3 (byte_bits buf)) - bit_count (bslice (2 * m * 3 + 3) 3 (byte_bits buf))"
  have l: "length (byte_bits buf) = 1536" using assms by (simp add: length_byte_bits)
  have "kem_cbd3 buf = concat (map (\<lambda>i. map (\<lambda>j. ?F ([0..<256] ! (4 * i + j))) [0..<4]) [0..<64])"
    unfolding kem_cbd3_def Let_def
  proof (intro arg_cong [of _ _ concat] map_cong)
    show "[0..<ML_KEM_N div 4] = [0..<64]" by (simp add: ML_KEM_N_def)
    fix i j :: nat assume "i \<in> set [0..<64]" "j \<in> set [0..<4]"
    then have i: "i < 64" and j: "j < 4" by simp_all
    define t where "t = kem_load24_littleendian (drop (3 * i) buf)"
    have tb: "bit t n = byte_bits buf ! (24 * i + n)" if "n < 24" for n
    proof -
      let ?x = "drop (3 * i) buf"
      have "take 3 ?x = [?x ! 0, ?x ! 1, ?x ! 2]"
        using i assms by (simp add: numeral_eq_Suc take_Suc_conv_app_nth)
      then have "bit t n = byte_bits (take 3 ?x) ! n"
        unfolding t_def by (subst kem_load_take(2)) (simp only: kem_load24_bits [OF that])
      then show ?thesis using byte_bits_take [of n 3 ?x] byte_bits_drop [of "3 * i" n buf] that i assms by simp
    qed
    have b: "bslice (2 * (4 * i + j) * 3) 3 (byte_bits buf) = [bit t (6 * j), bit t (6 * j + 1), bit t (6 * j + 2)]"
      "bslice (2 * (4 * i + j) * 3 + 3) 3 (byte_bits buf) = [bit t (6 * j + 3), bit t (6 * j + 4), bit t (6 * j + 5)]"
      using i j l by (simp_all add: bslice_nth tb) (intro conjI arg_cong [of _ _ "(!) (byte_bits buf)"]; simp)
    have x: "[0..<256] ! (4 * i + j) = 4 * i + j" using i j by simp
    have n: "3 * (2 * j) = 6 * j" "3 * (2 * j + 1) = 6 * j + 3" "6 * j + 3 + 1 = 6 * j + 4" "6 * j + 3 + 2 = 6 * j + 5"
      by simp_all
    have j': "2 * j < 8" "2 * j + 1 < 8" using j by simp_all
    note D = cbd3_digit [OF j'(1), of t, unfolded n] cbd3_digit [OF j'(2), of t, unfolded n]
    show "i16 (uint (drop_bit (6 * j) ((t AND 0x00249249) + (drop_bit 1 t AND 0x00249249) + (drop_bit 2 t AND 0x00249249)) AND 0x7) -
        uint (drop_bit (6 * j + 3) ((t AND 0x00249249) + (drop_bit 1 t AND 0x00249249) + (drop_bit 2 t AND 0x00249249)) AND 0x7)) =
        ?F ([0..<256] ! (4 * i + j))"
      unfolding x b D bit_count_simps by (simp add: i16_id)
  qed simp
  also have "\<dots> = map ?F [0..<256]" by (rule concat_blocks_map) simp
  finally show ?thesis by (simp only: cbd_spec_def)
qed

lemma bit_count_range: "0 \<le> bit_count bs \<and> bit_count bs \<le> int (length bs)"
  by (induction bs) (auto simp: bit_count_simps)

lemma cbd_spec_range: "x \<in> set (cbd_spec eta bs) \<Longrightarrow> \<bar>x\<bar> \<le> int eta"
proof -
  have "0 \<le> bit_count (bslice n eta bs) \<and> bit_count (bslice n eta bs) \<le> int eta" for n
    using bit_count_range [of "bslice n eta bs"] by (auto simp: bslice_def)
  then have "\<bar>bit_count (bslice m eta bs) - bit_count (bslice n eta bs)\<bar> \<le> int eta" for m n
    by (smt (verit, ccfv_threshold))
  then show "x \<in> set (cbd_spec eta bs) \<Longrightarrow> \<bar>x\<bar> \<le> int eta" by (auto simp: cbd_spec_def)
qed

section \<open>Rejection sampling\<close>

text \<open>\<open>SampleNTT\<close> of the standard: the 12-bit values of the stream that are less than \<open>q\<close>.\<close>

fun parse12 :: "bytes \<Rightarrow> int list" where
  "parse12 (b0 # b1 # b2 # bs) =
     uint ((ucast b0 OR push_bit 8 (ucast b1)) AND 0xFFF :: u16) #
     uint ((ucast (drop_bit 4 b1) OR push_bit 4 (ucast b2)) AND 0xFFF :: u16) # parse12 bs"
| "parse12 _ = []"

definition accepted :: "bytes \<Rightarrow> int list" where
  "accepted bs = filter (\<lambda>v. v < ML_KEM_Q) (parse12 bs)"

lemma parse12_bits: "length bs = 3 * n \<Longrightarrow> concat (map (bits 12) (parse12 bs)) = byte_bits bs"
proof (induction bs arbitrary: n rule: parse12.induct)
  case (1 b0 b1 b2 bs)
  then obtain m where "length bs = 3 * m" by (cases n) auto
  then show ?case using "1.IH" unpack12 [of b0 b1 b2] by simp
next
  case "2_1" then show ?case by simp
next
  case "2_2" then have False by simp then show ?case ..
next
  case "2_3" then have False by simp presburger then show ?case ..
qed

lemma parse12_append:
  assumes "length a = 3 * n"
  shows "parse12 (a @ b) = parse12 a @ parse12 b"
  using assms
proof (induction n arbitrary: a)
  case (Suc n)
  then obtain x y z a' where "a = x # y # z # a'" by (auto simp: length_Suc_conv numeral_3_eq_3)
  with Suc show ?case by simp
qed simp

lemma accepted_append: "3 dvd length a \<Longrightarrow> accepted (a @ b) = accepted a @ accepted b"
  using parse12_append [of a _ b] by (auto simp: accepted_def elim: dvdE)

lemma accepted_range: "x \<in> set (accepted bs) \<Longrightarrow> 0 \<le> x \<and> x < ML_KEM_Q"
proof -
  have "x \<in> set (parse12 bs) \<Longrightarrow> 0 \<le> x" by (induction bs rule: parse12.induct) auto
  then show "x \<in> set (accepted bs) \<Longrightarrow> 0 \<le> x \<and> x < ML_KEM_Q" by (simp add: accepted_def)
qed

lemma kem_rej_uniform_loop_accepted:
  "length r \<le> len \<Longrightarrow> kem_rej_uniform_loop len buf pos r = r @ take (len - length r) (accepted (drop pos buf))"
proof (induction len buf pos r rule: kem_rej_uniform_loop.induct)
  case (1 len buf pos r)
  show ?case
  proof (cases "length r < len \<and> pos + 3 \<le> length buf")
    case True
    let ?v0 = "(ucast (buf ! pos) OR push_bit 8 (ucast (buf ! (pos + 1)))) AND 0xFFF :: u16"
    let ?v1 = "(ucast (drop_bit 4 (buf ! (pos + 1))) OR push_bit 4 (ucast (buf ! (pos + 2)))) AND 0xFFF :: u16"
    have d: "drop pos buf = buf ! pos # buf ! (pos + 1) # buf ! (pos + 2) # drop (pos + 3) buf"
      using True by (simp add: Cons_nth_drop_Suc [symmetric] numeral_eq_Suc)
    define r1 where "r1 = (if uint ?v0 < ML_KEM_Q then r @ [uint ?v0] else r)"
    define r2 where "r2 = (if length r1 < len \<and> uint ?v1 < ML_KEM_Q then r1 @ [uint ?v1] else r1)"
    have "kem_rej_uniform_loop len buf pos r = kem_rej_uniform_loop len buf (pos + 3) r2"
      using True by (subst kem_rej_uniform_loop.simps) (simp only: Let_def r1_def r2_def simp_thms if_True)
    also have "\<dots> = r2 @ take (len - length r2) (accepted (drop (pos + 3) buf))"
      using "1.IH" [OF True refl refl r1_def r2_def] True by (simp add: r1_def r2_def)
    also have "\<dots> = r @ take (len - length r) (accepted (drop pos buf))"
      unfolding d using True by (auto simp: accepted_def r1_def r2_def take_Cons' not_less)
    finally show ?thesis .
  next
    case False
    have "parse12 (drop pos buf) = []" if "\<not> pos + 3 \<le> length buf"
    proof -
      have "length (drop pos buf) < 3" using that by simp
      then show ?thesis by (cases "drop pos buf" rule: parse12.cases) simp_all
    qed
    then show ?thesis using False "1.prems" by (subst kem_rej_uniform_loop.simps) (auto simp: accepted_def)
  qed
qed

lemma kem_rej_uniform_accepted: "kem_rej_uniform len buf = take len (accepted buf)"
  by (simp add: kem_rej_uniform_def kem_rej_uniform_loop_accepted)

text \<open>The bytes \<open>n\<close> calls of \<open>next\<close> produce.\<close>

fun blocks :: "('s \<Rightarrow> bytes \<times> 's) \<Rightarrow> nat \<Rightarrow> 's \<Rightarrow> bytes" where
  "blocks next 0 s = []"
| "blocks next (Suc n) s = (case next s of (b, s') \<Rightarrow> b @ blocks next n s')"

text \<open>
  The loop returns exactly when the stream holds enough acceptable values, and then with the first
  of them.
\<close>

lemma kem_refill_returns:
  assumes "\<And>s. 3 dvd length (fst (next s))" and "length r \<le> 256" and "256 \<le> length r + length (accepted (blocks next n s))"
  shows "kem_refill next s r = Some (r @ take (256 - length r) (accepted (blocks next n s)))"
  using assms(2,3)
proof (induction n arbitrary: s r)
  case 0
  then show ?case by (subst kem_refill.simps) (simp add: ML_KEM_N_def accepted_def)
next
  case (Suc n)
  obtain b s' where b: "next s = (b, s')" by (cases "next s")
  have "3 dvd length b" using assms(1) [of s] b by simp
  then have a: "accepted (blocks next (Suc n) s) = accepted b @ accepted (blocks next n s')"
    by (simp add: b accepted_append)
  show ?case
  proof (cases "length r < 256")
    case True
    let ?r = "r @ take (256 - length r) (accepted b)"
    have "kem_refill next s r = kem_refill next s' ?r"
      using True by (subst kem_refill.simps) (simp add: ML_KEM_N_def b kem_rej_uniform_accepted)
    also have "\<dots> = Some (?r @ take (256 - length ?r) (accepted (blocks next n s')))"
      using Suc.prems True unfolding a by (intro Suc.IH) auto
    also have "\<dots> = Some (r @ take (256 - length r) (accepted (blocks next (Suc n) s)))"
      unfolding a using True by (simp add: min_def)
    finally show ?thesis .
  next
    case False
    then show ?thesis using Suc.prems by (subst kem_refill.simps) (simp add: ML_KEM_N_def)
  qed
qed

lemma kem_refill_enough:
  assumes "kem_refill next s r = Some r'" and "\<And>s. 3 dvd length (fst (next s))"
  shows "\<exists>n. 256 \<le> length r + length (accepted (blocks next n s))"
  using assms
proof (induction "next" s r r' rule: kem_refill.raw_induct [rotated, consumes 1, case_names step])
  case (step f "next" s r r')
  show ?case
  proof (cases "length r < 256")
    case True
    obtain b s' where b: "next s = (b, s')" by (cases "next s")
    have "3 dvd length b" using step.prems [of s] b by simp
    then have a: "accepted (blocks next (Suc n) s) = accepted b @ accepted (blocks next n s')" for n
      by (simp add: b accepted_append)
    have "f next s' (r @ kem_rej_uniform (256 - length r) b) = Some r'"
      using step.hyps True by (simp add: ML_KEM_N_def b)
    from step.IH [OF this step.prems] obtain n where
      "256 \<le> length (r @ kem_rej_uniform (256 - length r) b) + length (accepted (blocks next n s'))" by blast
    then have "256 \<le> length r + length (accepted (blocks next (Suc n) s))"
      unfolding a by (auto simp: kem_rej_uniform_accepted)
    then show ?thesis by blast
  next
    case False
    then show ?thesis by (intro exI [of _ 0]) simp
  qed
qed

lemma keccak_squeezeblocks_add:
  "keccak_squeezeblocks (m + n) s r =
    (let (a, s') = keccak_squeezeblocks m s r; (b, s'') = keccak_squeezeblocks n s' r in (a @ b, s''))"
  by (induction m s r rule: keccak_squeezeblocks.induct) (simp_all add: case_prod_beta Let_def)

lemma shake128_squeezeblocks_add:
  "shake128_squeezeblocks (m + n) st =
    (let (a, st') = shake128_squeezeblocks m st; (b, st'') = shake128_squeezeblocks n st' in (a @ b, st''))"
  by (simp add: shake128_squeezeblocks_def keccak_squeezeblocks_add case_prod_beta Let_def)

lemma shake128_blocks: "fst (shake128_squeezeblocks n st) = blocks (shake128_squeezeblocks 1) n st"
proof (induction n arbitrary: st)
  case 0
  then show ?case by (simp add: shake128_squeezeblocks_def)
next
  case (Suc n)
  then show ?case using shake128_squeezeblocks_add [of 1 n st] by (simp add: case_prod_beta Let_def)
qed

lemma shake128_whole_blocks: "shake128 (SHAKE128_RATE * n) m = fst (shake128_squeezeblocks n (shake128_absorb_once m))"
proof -
  have "fst (shake128_squeeze 0 st) = []" for st
    by (subst shake128_squeeze_def, subst keccak_squeeze.simps) simp
  moreover have "SHAKE128_RATE * n div SHAKE128_RATE = n" by (simp add: SHAKE128_RATE_def)
  ultimately show ?thesis by (simp add: shake128_def case_prod_beta Let_def mult.commute)
qed

lemma length_squeezeblocks: "length (fst (keccak_squeezeblocks n s r)) = n * (8 * (r div 8))"
  by (induction n s r rule: keccak_squeezeblocks.induct)
     (simp_all add: case_prod_beta Let_def concat_store64 drop_bit_eq_div)

lemma length_shake128_block: "length (fst (shake128_squeezeblocks n st)) = SHAKE128_RATE * n"
  by (simp add: shake128_squeezeblocks_def case_prod_beta Let_def length_squeezeblocks SHAKE128_RATE_def)

text \<open>With SHAKE, the entry of the matrix is sampled from one output stream.\<close>

lemma kem_shake_gen_poly_stream:
  "kem_shake_gen_poly seed x y = Some r \<longleftrightarrow>
    (\<exists>n. 256 \<le> length (accepted (shake128 (SHAKE128_RATE * n) (seed @ [x, y]))) \<and>
         r = take 256 (accepted (shake128 (SHAKE128_RATE * n) (seed @ [x, y]))))"
proof -
  let ?st = "shake128_absorb_once (seed @ [x, y])"
  let ?next = "shake128_squeezeblocks 1"
  obtain b st where b: "shake128_squeezeblocks GEN_MATRIX_NBLOCKS ?st = (b, st)"
    by (cases "shake128_squeezeblocks GEN_MATRIX_NBLOCKS ?st")
  have d: "3 dvd length (fst (?next s))" for s by (simp add: length_shake128_block SHAKE128_RATE_def)
  have lb: "3 dvd length b" using length_shake128_block [of GEN_MATRIX_NBLOCKS ?st] b by (simp add: SHAKE128_RATE_def)
  have code: "kem_shake_gen_poly seed x y = kem_refill ?next st (take 256 (accepted b))"
    by (simp add: kem_shake_gen_poly_def shake128_absorb_extend_def b kem_rej_uniform_accepted ML_KEM_N_def)
  have s: "accepted (shake128 (SHAKE128_RATE * (GEN_MATRIX_NBLOCKS + n)) (seed @ [x, y])) = accepted b @ accepted (blocks ?next n st)" for n
    using shake128_squeezeblocks_add [of GEN_MATRIX_NBLOCKS n ?st] shake128_blocks [of n st] lb
    by (simp add: shake128_whole_blocks b case_prod_beta Let_def accepted_append)
  have mono: "\<exists>z. accepted (shake128 (SHAKE128_RATE * (m + n)) (seed @ [x, y])) = accepted (shake128 (SHAKE128_RATE * m) (seed @ [x, y])) @ z" for m n
  proof -
    have "3 dvd SHAKE128_RATE" by (simp add: SHAKE128_RATE_def)
    then have "3 dvd length (fst (shake128_squeezeblocks m ?st))" by (simp add: length_shake128_block)
    then show ?thesis
      using shake128_squeezeblocks_add [of m n ?st] by (simp add: shake128_whole_blocks case_prod_beta Let_def accepted_append)
  qed
  show ?thesis
  proof
    assume r: "kem_shake_gen_poly seed x y = Some r"
    then obtain n where n: "256 \<le> length (take 256 (accepted b)) + length (accepted (blocks ?next n st))"
      using kem_refill_enough [OF r [unfolded code] d] by blast
    from kem_refill_returns [OF d _ n] r have "r = take 256 (accepted b) @ take (256 - length (take 256 (accepted b))) (accepted (blocks ?next n st))"
      unfolding code by simp
    then have "r = take 256 (accepted b @ accepted (blocks ?next n st))" by (simp add: min_def)
    then show "\<exists>n. 256 \<le> length (accepted (shake128 (SHAKE128_RATE * n) (seed @ [x, y]))) \<and>
         r = take 256 (accepted (shake128 (SHAKE128_RATE * n) (seed @ [x, y])))"
      using n s [of n] by (intro exI [of _ "GEN_MATRIX_NBLOCKS + n"]) auto
  next
    assume "\<exists>n. 256 \<le> length (accepted (shake128 (SHAKE128_RATE * n) (seed @ [x, y]))) \<and>
         r = take 256 (accepted (shake128 (SHAKE128_RATE * n) (seed @ [x, y])))"
    then obtain n where n: "256 \<le> length (accepted (shake128 (SHAKE128_RATE * n) (seed @ [x, y])))"
      "r = take 256 (accepted (shake128 (SHAKE128_RATE * n) (seed @ [x, y])))" by blast
    obtain z where z: "accepted (shake128 (SHAKE128_RATE * (n + GEN_MATRIX_NBLOCKS)) (seed @ [x, y])) =
        accepted (shake128 (SHAKE128_RATE * n) (seed @ [x, y])) @ z" using mono by blast
    have e: "accepted b @ accepted (blocks ?next n st) = accepted (shake128 (SHAKE128_RATE * n) (seed @ [x, y])) @ z"
      using s [of n] z by (simp add: add.commute)
    have "256 \<le> length (take 256 (accepted b)) + length (accepted (blocks ?next n st))"
      using arg_cong [OF e, of length] n(1) by auto
    from kem_refill_returns [OF d _ this] have "kem_shake_gen_poly seed x y = Some (take 256 (accepted b @ accepted (blocks ?next n st)))"
      unfolding code by (simp add: min_def)
    then show "kem_shake_gen_poly seed x y = Some r" unfolding e using n by simp
  qed
qed


text \<open>With SM3, the first three blocks and every further block have a counter of their own.\<close>

lemma length_sm3_extended_loop:
  "int (length out) + n \<le> int (length (sm3_extended_loop inp n k out)) \<and> length out \<le> length (sm3_extended_loop inp n k out)"
proof (induction inp n k out rule: sm3_extended_loop.induct)
  case (1 inp n k out)
  then show ?case by (subst (1 2) sm3_extended_loop.simps) (auto simp: SM3_DIGEST_LENGTH_def)
qed

lemma length_sm3_extended [simp]: "length (sm3_extended n inp) = n"
  using length_sm3_extended_loop [of "[]" "int n" inp 0] by (simp add: sm3_extended_def)

lemma kem_sm3_gen_poly_cases:
  assumes "kem_sm3_gen_poly seed x y = Some r"
  shows "length r = 256 \<and> (\<forall>c \<in> set r. 0 \<le> c \<and> c < ML_KEM_Q)"
proof -
  let ?b = "sm3_extended (GEN_MATRIX_NBLOCKS * XOF_BLOCKBYTES) (seed @ [x, y, 0])"
  have d: "3 dvd length (fst (kem_sm3_next s))" for s
    by (simp add: kem_sm3_next_def Let_def XOF_BLOCKBYTES_def SHAKE128_RATE_def)
  have code: "kem_sm3_gen_poly seed x y = kem_refill kem_sm3_next (seed @ [x, y, 0]) (take 256 (accepted ?b))"
    by (simp add: kem_sm3_gen_poly_def Let_def kem_rej_uniform_accepted ML_KEM_N_def)
  obtain n where n: "256 \<le> length (take 256 (accepted ?b)) + length (accepted (blocks kem_sm3_next n (seed @ [x, y, 0])))"
    using kem_refill_enough [OF assms [unfolded code] d] by blast
  from kem_refill_returns [OF d _ n] assms
  have "r = take 256 (accepted ?b) @ take (256 - length (take 256 (accepted ?b))) (accepted (blocks kem_sm3_next n (seed @ [x, y, 0])))"
    unfolding code by simp
  then show ?thesis using n accepted_range by (auto dest!: in_set_takeD)
qed

end
