(* ===== verification/MLKEM_Ring.thy ===== *)
theory MLKEM_Ring
  imports MLKEM_Encode
begin

text \<open>
  The ring \<open>Z_q[X] / (X^256 + 1)\<close> of ML-KEM and its image under the transform.  \<open>hat A r\<close> relates an array
  of the program to the polynomial it represents; every operation of \<open>poly.c\<close> and \<open>polyvec.c\<close> is shown
  to compute the ring operation, up to the Montgomery factor it leaves, without overflow.
\<close>

section \<open>The transform domain of ML-KEM\<close>

text \<open>\<open>hat A r\<close>: the array \<open>r\<close> holds the polynomial \<open>A\<close> in the transform domain.\<close>

definition hat :: "(nat \<Rightarrow> zq) \<Rightarrow> poly \<Rightarrow> bool" where
  "hat A r \<longleftrightarrow> length r = 256 \<and> level zq A 1 kem_c 2 r"

lemma hat_iff:
  "hat A r \<longleftrightarrow> length r = 256 \<and> (\<forall>b < 128. \<forall>j < 2. zq (r ! (b * 2 + j)) = residue 256 A 2 (kem_c (128 + b)) j)"
  by (auto simp: hat_def level_def)

lemma hatD: "hat A r \<Longrightarrow> b < 128 \<Longrightarrow> j < 2 \<Longrightarrow> zq (r ! (b * 2 + j)) = residue 256 A 2 (kem_c (128 + b)) j"
  by (simp add: hat_iff)

lemma hat_length: "hat A r \<Longrightarrow> length r = 256"
  by (simp add: hat_def)

lemma kem_half: "2 * (1665 :: zq) = 1"
proof -
  have "zq (2 * 1665) = zq 1" unfolding zq_eq_iff by (simp add: ML_KEM_Q_def)
  then show ?thesis by (simp only: of_int_mult of_int_numeral of_int_1)
qed

lemma kem_tree_pow: "1 \<le> k \<Longrightarrow> k < 2 ^ 7 \<Longrightarrow>
  kem_c (2 * k) = kem_z k \<and> kem_c (2 * k + 1) = - kem_z k \<and> (kem_z k) ^ 2 = kem_c k \<and> kem_z k * kem_z' k = 1"
  by (rule kem_tree) simp_all

lemma hat_unique:
  assumes "hat A r" and "hat B r" and "j < 256"
  shows "A j = B j"
proof (rule residue_unique [where i = 7 and m = 2 and n = 256, OF kem_half _ kem_tree_pow])
  fix k l :: nat assume k: "2 ^ 7 \<le> k" "k < 2 ^ Suc 7" and l: "l < 2"
  define b where "b = k - 128"
  have b: "b < 128" "k = 128 + b" using k by (simp_all add: b_def)
  show "residue 256 A 2 (kem_c k) l = residue 256 B 2 (kem_c k) l"
    using hatD [OF assms(1) b(1) l] hatD [OF assms(2) b(1) l] unfolding b(2) by simp
qed (use assms(3) in simp_all)

lemma hat_exists:
  assumes "length r = 256"
  obtains A where "hat A r"
proof -
  have "\<exists>A. \<forall>k j. 2 ^ 7 \<le> k \<longrightarrow> k < 2 ^ Suc 7 \<longrightarrow> j < 2 \<longrightarrow> residue 256 A 2 (kem_c k) j = zq (r ! ((k - 128) * 2 + j))"
    by (rule residue_surj [OF kem_half _ kem_tree_pow]) simp_all
  then obtain A where A: "\<forall>k j. 2 ^ 7 \<le> k \<longrightarrow> k < 2 ^ Suc 7 \<longrightarrow> j < 2 \<longrightarrow> residue 256 A 2 (kem_c k) j = zq (r ! ((k - 128) * 2 + j))" ..
  have "zq (r ! (b * 2 + j)) = residue 256 A 2 (kem_c (128 + b)) j" if "b < 128" "j < 2" for b j
    using A [rule_format, of "128 + b" j] that by simp
  then show thesis using that [of A] assms by (simp add: hat_iff)
qed

text \<open>Sums and multiples.\<close>

lemma residue_add: "residue n (\<lambda>j. A j + B j) m c j = residue n A m c j + residue n B m c j"
  by (simp add: residue_def sum.distrib algebra_simps)

lemma residue_scale: "residue n (\<lambda>j. x * A j) m c j = x * residue n A m c j"
  by (simp add: residue_def sum_distrib_left mult.assoc)

lemma hat_index: "b < 128 \<Longrightarrow> j < 2 \<Longrightarrow> b * 2 + j < (256 :: nat)"
  by simp

lemma hat_cong:
  assumes "hat A r" and "length r' = 256" and "\<And>i. i < 256 \<Longrightarrow> zq (r' ! i) = zq (r ! i)"
  shows "hat A r'"
  using assms by (simp add: hat_iff)

lemma hat_add:
  assumes "hat A a" and "hat B b" and "length r = 256" and "\<And>i. i < 256 \<Longrightarrow> zq (r ! i) = zq (a ! i) + zq (b ! i)"
  shows "hat (\<lambda>j. A j + B j) r"
  using assms by (simp add: hat_iff residue_add)

lemma hat_scale:
  assumes "hat A a" and "length r = 256" and "\<And>i. i < 256 \<Longrightarrow> zq (r ! i) = x * zq (a ! i)"
  shows "hat (\<lambda>j. x * A j) r"
  using assms by (simp add: hat_iff residue_scale)

text \<open>Products: the factors are \<open>X^2 - kem_c k\<close> for odd exponents, so \<open>kem_c k ^ 128 = - 1\<close>.\<close>

lemma kem_c_128:
  assumes "b < 128"
  shows "kem_c (128 + b) ^ 128 = - 1"
proof -
  have "list_all (\<lambda>k. odd (node_exp 256 (nat k))) [int 128..int 255]" by (simp add: upto.simps)
  then have "odd (node_exp 256 (128 + b))" by (rule list_all_range) (use assms in simp_all)
  moreover have "kem_c (128 + b) ^ 128 = (kem_zeta ^ 128) ^ node_exp 256 (128 + b)"
    by (simp only: power_mult [symmetric] mult.commute)
  ultimately show ?thesis by (simp add: kem_zeta_128)
qed

lemma kem_basemul_correct:
  assumes "\<bar>a ! 0\<bar> < ML_KEM_Q" "\<bar>a ! 1\<bar> < ML_KEM_Q" "\<bar>b ! 0\<bar> < ML_KEM_Q" "\<bar>b ! 1\<bar> < ML_KEM_Q"
    and "\<bar>zeta\<bar> \<le> 2 ^ 15" and "zq zeta = z * kem_R" and "j < 2"
  shows "zq (kem_basemul a b zeta ! j) = kem_Rinv * mul_mod 2 z (\<lambda>i. zq (a ! i)) (\<lambda>i. zq (b ! i)) j"
    and "\<bar>kem_basemul a b zeta ! j\<bar> < 2 * ML_KEM_Q" and "length (kem_basemul a b zeta) = 2"
proof -
  have le: "\<bar>b ! 0\<bar> \<le> 2 ^ 15" "\<bar>b ! 1\<bar> \<le> 2 ^ 15" using assms(3,4) by (simp_all add: ML_KEM_Q_def)
  note f11 = kem_fqmul_correct [OF assms(2) le(2)] note f00 = kem_fqmul_correct [OF assms(1) le(1)]
  note f01 = kem_fqmul_correct [OF assms(1) le(2)] note f10 = kem_fqmul_correct [OF assms(2) le(1)]
  note fz = kem_fqmul_correct [OF f11(2) assms(5)]
  have i: "i16 (x + y) = x + y" if "\<bar>x\<bar> < ML_KEM_Q" "\<bar>y\<bar> < ML_KEM_Q" for x y
    using that by (intro i16_id) (simp_all add: ML_KEM_Q_def)
  have k: "kem_basemul a b zeta = [kem_fqmul (kem_fqmul (a ! 1) (b ! 1)) zeta + kem_fqmul (a ! 0) (b ! 0),
      kem_fqmul (a ! 0) (b ! 1) + kem_fqmul (a ! 1) (b ! 0)]"
    unfolding kem_basemul_def Let_def by (simp only: i [OF fz(2) f00(2)] i [OF f01(2) f10(2)])
  then show "length (kem_basemul a b zeta) = 2" by simp
  have j: "j = 0 \<or> j = 1" using assms(7) by auto
  show "\<bar>kem_basemul a b zeta ! j\<bar> < 2 * ML_KEM_Q" using j fz(2) f00(2) f01(2) f10(2) by (auto simp: k)
  have "zq (kem_fqmul (kem_fqmul (a ! 1) (b ! 1)) zeta) = zq (a ! 1) * zq (b ! 1) * z * kem_Rinv * (kem_R * kem_Rinv)"
    unfolding fz(1) f11(1) assms(6) by (simp only: ac_simps)
  then have "zq (kem_fqmul (kem_fqmul (a ! 1) (b ! 1)) zeta) = kem_Rinv * (zq (a ! 1) * (z * zq (b ! 1)))"
    by (simp only: kem_R_inv mult_1_left mult_1_right ac_simps)
  then show "zq (kem_basemul a b zeta ! j) = kem_Rinv * mul_mod 2 z (\<lambda>i. zq (a ! i)) (\<lambda>i. zq (b ! i)) j"
    using j by (auto simp: k mul_mod_def f00(1) f01(1) [unfolded One_nat_def] f10(1) [unfolded One_nat_def] numeral_2_eq_2 algebra_simps)
qed


lemma nth_concat_4:
  assumes "\<And>i. i < n \<Longrightarrow> length (f i) = 2 \<and> length (g i) = 2" and "b < 2 * n" and "j < 2"
  shows "concat (map (\<lambda>i. f i @ g i) [0..<n]) ! (b * 2 + j) = (if even b then f (b div 2) ! j else g (b div 2) ! j)"
proof -
  let ?xs = "map (\<lambda>i. f i @ g i) [0..<n]"
  define i where "i = b div 2"
  have i: "i < n" using assms(2) by (simp add: i_def)
  have l: "length x = 4" if "x \<in> set ?xs" for x using that assms(1) by auto
  have s: "bslice (i * 4) 4 (concat ?xs) = f i @ g i"
    by (subst bslice_concat) (use l i in auto)
  have b: "b * 2 + j = i * 4 + (b mod 2 * 2 + j)" by (simp add: i_def) presburger
  have "Suc i * 4 \<le> n * 4" using i by (intro mult_le_mono1) simp
  moreover have "length (concat ?xs) = n * 4" using length_concat_blocks [of ?xs 4] l by (metis length_map length_upt minus_nat.diff_0)
  ultimately have "concat ?xs ! (i * 4 + k) = (f i @ g i) ! k" if "k < 4" for k
    using arg_cong [OF s, of "\<lambda>x. x ! k"] that by (simp add: bslice_def)
  from this [of "b mod 2 * 2 + j"] assms(1) [OF i] assms(3) show ?thesis
    unfolding b by (cases "even b") (auto simp: nth_append i_def mod_2_eq_odd)
qed

lemma nth_bslice: "off + n \<le> length a \<Longrightarrow> k < n \<Longrightarrow> bslice off n a ! k = a ! (off + k)"
  by (simp add: bslice_def)

lemma kem_zetas_top:
  assumes "i < 64"
  shows "zq (kem_zetas ! (64 + i)) = kem_c (128 + 2 * i) * kem_R" and "zq (i16 (- (kem_zetas ! (64 + i)))) = kem_c (128 + (2 * i + 1)) * kem_R"
    and "\<bar>kem_zetas ! (64 + i)\<bar> \<le> 2 ^ 15" and "\<bar>i16 (- (kem_zetas ! (64 + i)))\<bar> \<le> 2 ^ 15"
proof -
  have k: "1 \<le> 64 + i" "64 + i < 128" using assms by simp_all
  note Z = kem_zetas_table [OF k]
  have t: "kem_c (128 + 2 * i) = kem_z (64 + i)" "kem_c (128 + (2 * i + 1)) = - kem_z (64 + i)"
    using kem_tree [OF k] by (simp_all add: algebra_simps)
  show "zq (kem_zetas ! (64 + i)) = kem_c (128 + 2 * i) * kem_R" unfolding t by (rule Z)
  have n: "i16 (- (kem_zetas ! (64 + i))) = - (kem_zetas ! (64 + i))"
    using Z(2,3) by (intro i16_id) (simp_all add: ML_KEM_Q_def)
  show "zq (i16 (- (kem_zetas ! (64 + i)))) = kem_c (128 + (2 * i + 1)) * kem_R"
    unfolding n t by (simp only: of_int_minus Z(1) mult_minus_left)
  show "\<bar>kem_zetas ! (64 + i)\<bar> \<le> 2 ^ 15" "\<bar>i16 (- (kem_zetas ! (64 + i)))\<bar> \<le> 2 ^ 15"
    unfolding n using Z(2,3) by (simp_all add: ML_KEM_Q_def)
qed

lemma kem_poly_basemul_block:
  assumes a: "kem_reduced a" and b: "kem_reduced b" and t: "t < 128" and j: "j < 2"
  shows "zq (kem_poly_basemul_montgomery a b ! (t * 2 + j)) =
      kem_Rinv * mul_mod 2 (kem_c (128 + t)) (\<lambda>i. zq (a ! (t * 2 + i))) (\<lambda>i. zq (b ! (t * 2 + i))) j"
    and "\<bar>kem_poly_basemul_montgomery a b ! (t * 2 + j)\<bar> < 2 * ML_KEM_Q"
proof -
  have la: "length a = 256" "length b = 256" using a b by (simp_all add: kem_reduced_def)
  define f where "f i = kem_basemul (bslice (4 * i) 2 a) (bslice (4 * i) 2 b) (kem_zetas ! (64 + i))" for i
  define g where "g i = kem_basemul (bslice (4 * i + 2) 2 a) (bslice (4 * i + 2) 2 b) (i16 (- (kem_zetas ! (64 + i))))" for i
  define i where "i = t div 2"
  have i: "i < 64" using t by (simp add: i_def)
  have len: "length (f i) = 2 \<and> length (g i) = 2" for i by (simp add: f_def g_def kem_basemul_def Let_def)
  have e: "kem_poly_basemul_montgomery a b ! (t * 2 + j) = (if even t then f i ! j else g i ! j)"
    unfolding kem_poly_basemul_montgomery_def f_def [symmetric] g_def [symmetric] i_def
    by (rule nth_concat_4) (use len t j in \<open>simp_all add: ML_KEM_N_def\<close>)
  have rd: "\<bar>bslice o' 2 a ! k\<bar> < ML_KEM_Q" "\<bar>bslice o' 2 b ! k\<bar> < ML_KEM_Q" if "o' + 2 \<le> 256" "k < 2" for o' k
    using that la kem_reducedD [OF a, of "o' + k"] kem_reducedD [OF b, of "o' + k"] by (simp_all add: nth_bslice)
  have m: "mul_mod 2 z (\<lambda>i. zq (bslice o' 2 a ! i)) (\<lambda>i. zq (bslice o' 2 b ! i)) j =
      mul_mod 2 z (\<lambda>i. zq (a ! (o' + i))) (\<lambda>i. zq (b ! (o' + i))) j" if "o' + 2 \<le> 256" for o' z
    unfolding mul_mod_def using that la j by (intro sum.cong refl) (auto simp: nth_bslice)
  show "zq (kem_poly_basemul_montgomery a b ! (t * 2 + j)) =
      kem_Rinv * mul_mod 2 (kem_c (128 + t)) (\<lambda>i. zq (a ! (t * 2 + i))) (\<lambda>i. zq (b ! (t * 2 + i))) j"
    "\<bar>kem_poly_basemul_montgomery a b ! (t * 2 + j)\<bar> < 2 * ML_KEM_Q"
  proof -
    have *: "zq (kem_poly_basemul_montgomery a b ! (t * 2 + j)) =
        kem_Rinv * mul_mod 2 (kem_c (128 + t)) (\<lambda>i. zq (a ! (t * 2 + i))) (\<lambda>i. zq (b ! (t * 2 + i))) j \<and>
        \<bar>kem_poly_basemul_montgomery a b ! (t * 2 + j)\<bar> < 2 * ML_KEM_Q"
    proof (cases "even t")
      case True
      then have t': "t = 2 * i" by (simp add: i_def)
      have o': "4 * i + 2 \<le> 256" using i by simp
      note B = kem_basemul_correct [OF rd(1) [OF o'] rd(1) [OF o'] rd(2) [OF o'] rd(2) [OF o'] kem_zetas_top(3,1) [OF i] j, folded f_def]
      show ?thesis unfolding e using B(1,2) m [OF o'] True by (simp add: t')
    next
      case False
      then have t': "t = 2 * i + 1" by (simp add: i_def)
      have o': "4 * i + 2 + 2 \<le> 256" using i by simp
      note B = kem_basemul_correct [OF rd(1) [OF o'] rd(1) [OF o'] rd(2) [OF o'] rd(2) [OF o'] kem_zetas_top(4,2) [OF i] j, folded g_def]
      show ?thesis unfolding e using B(1,2) m [OF o'] False by (simp add: t')
    qed
    then show "zq (kem_poly_basemul_montgomery a b ! (t * 2 + j)) =
        kem_Rinv * mul_mod 2 (kem_c (128 + t)) (\<lambda>i. zq (a ! (t * 2 + i))) (\<lambda>i. zq (b ! (t * 2 + i))) j"
      "\<bar>kem_poly_basemul_montgomery a b ! (t * 2 + j)\<bar> < 2 * ML_KEM_Q" by blast+
  qed
qed

abbreviation val :: "poly \<Rightarrow> nat \<Rightarrow> zq" where "val a \<equiv> \<lambda>j. zq (a ! j)"
abbreviation pmul :: "(nat \<Rightarrow> zq) \<Rightarrow> (nat \<Rightarrow> zq) \<Rightarrow> nat \<Rightarrow> zq" where "pmul \<equiv> negacyclic 256"

lemma mul_mod_cong:
  assumes "j < m" and "\<And>i. i < m \<Longrightarrow> R i = R' i" and "\<And>i. i < m \<Longrightarrow> S i = S' i"
  shows "mul_mod m c R S j = mul_mod m c R' S' j"
  unfolding mul_mod_def using assms by (intro sum.cong refl) auto

lemma hat_mul:
  assumes "hat A a" and "hat B b" and "length r = 256"
    and "\<And>t j. t < 128 \<Longrightarrow> j < 2 \<Longrightarrow> zq (r ! (t * 2 + j)) =
      x * mul_mod 2 (kem_c (128 + t)) (\<lambda>i. zq (a ! (t * 2 + i))) (\<lambda>i. zq (b ! (t * 2 + i))) j"
  shows "hat (\<lambda>j. x * pmul A B j) r"
  unfolding hat_iff
proof (intro conjI allI impI)
  fix t j :: nat assume t: "t < 128" and j: "j < 2"
  have "residue 256 (pmul A B) 2 (kem_c (128 + t)) j =
      mul_mod 2 (kem_c (128 + t)) (residue 256 A 2 (kem_c (128 + t))) (residue 256 B 2 (kem_c (128 + t))) j"
    by (rule residue_conv) (use kem_c_128 [OF t] j in simp_all)
  also have "\<dots> = mul_mod 2 (kem_c (128 + t)) (\<lambda>i. zq (a ! (t * 2 + i))) (\<lambda>i. zq (b ! (t * 2 + i))) j"
    by (rule mul_mod_cong [OF j]) (simp_all add: hatD [OF assms(1) t] hatD [OF assms(2) t])
  finally show "zq (r ! (t * 2 + j)) = residue 256 (\<lambda>j. x * pmul A B j) 2 (kem_c (128 + t)) j"
    unfolding residue_scale using assms(4) [OF t j] by simp
qed (rule assms(3))

lemma block2: "i < (256 :: nat) \<Longrightarrow> i div 2 < 128" "i div 2 * 2 + i mod 2 = i" "i mod 2 < 2"
  by simp_all

lemma kem_poly_basemul_hat:
  assumes "kem_reduced a" "kem_reduced b" and "hat A a" "hat B b"
  defines "r \<equiv> kem_poly_basemul_montgomery a b"
  shows "hat (\<lambda>j. kem_Rinv * pmul A B j) r" and "length r = 256" and "i < 256 \<Longrightarrow> \<bar>r ! i\<bar> < 2 * ML_KEM_Q"
proof -
  show l: "length r = 256"
    unfolding r_def kem_poly_basemul_montgomery_def kem_basemul_def Let_def
    by (subst length_concat_blocks [where n = 4]) (auto simp: ML_KEM_N_def)
  show "hat (\<lambda>j. kem_Rinv * pmul A B j) r"
    by (rule hat_mul [OF assms(3,4) l]) (simp only: r_def kem_poly_basemul_block [OF assms(1,2)])
  show "i < 256 \<Longrightarrow> \<bar>r ! i\<bar> < 2 * ML_KEM_Q"
    using kem_poly_basemul_block(2) [OF assms(1,2) block2(1) [of i] block2(3) [of i]] unfolding block2(2) r_def .
qed

text \<open>Barrett reduction of a polynomial with 16-bit coefficients.\<close>

definition fits16 :: "poly \<Rightarrow> bool" where
  "fits16 r \<longleftrightarrow> length r = 256 \<and> (\<forall>x \<in> set r. - (2 ^ 15) \<le> x \<and> x < 2 ^ 15)"

lemma fits16I: "length r = 256 \<Longrightarrow> (\<And>i. i < 256 \<Longrightarrow> \<bar>r ! i\<bar> < 2 ^ 15) \<Longrightarrow> fits16 r"
  unfolding fits16_def by (fastforce simp: in_set_conv_nth abs_less_iff)

lemma kem_poly_reduce_correct:
  assumes "fits16 r"
  shows "kem_reduced (kem_poly_reduce r)" and "i < 256 \<Longrightarrow> zq (kem_poly_reduce r ! i) = zq (r ! i)"
    and "i < 256 \<Longrightarrow> \<bar>kem_poly_reduce r ! i\<bar> \<le> 1664"
proof -
  have r: "- (2 ^ 15) \<le> r ! i" "r ! i < 2 ^ 15" if "i < 256" for i
    using assms that by (simp_all add: fits16_def)
  have l: "length r = 256" using assms by (simp add: fits16_def)
  have b: "\<bar>kem_poly_reduce r ! i\<bar> \<le> 1664" if "i < 256" for i
    using kem_barrett_reduce_correct(2) [OF r [OF that]] that l by (simp add: kem_poly_reduce_def)
  then show "i < 256 \<Longrightarrow> \<bar>kem_poly_reduce r ! i\<bar> \<le> 1664" .
  have "\<bar>kem_poly_reduce r ! i\<bar> < ML_KEM_Q" if "i < 256" for i using b [OF that] by (simp add: ML_KEM_Q_def)
  then show "kem_reduced (kem_poly_reduce r)"
    using l by (auto simp: kem_reduced_def in_set_conv_nth kem_poly_reduce_def)
  show "i < 256 \<Longrightarrow> zq (kem_poly_reduce r ! i) = zq (r ! i)"
    using kem_barrett_zq [OF r] l by (simp add: kem_poly_reduce_def)
qed

lemma kem_poly_reduce_hat: "fits16 r \<Longrightarrow> hat A r \<Longrightarrow> hat A (kem_poly_reduce r)"
  by (rule hat_cong [of A r]) (simp_all add: kem_poly_reduce_correct(2), simp add: kem_poly_reduce_def fits16_def)

text \<open>The inner product.\<close>

lemma kem_poly_add_nth:
  assumes "length a = 256" "length b = 256" "i < 256" and "\<bar>a ! i + b ! i\<bar> < 2 ^ 15"
  shows "kem_poly_add a b ! i = a ! i + b ! i"
  using assms by (auto simp: kem_poly_add_def intro!: i16_id)

definition pdot :: "nat \<Rightarrow> (nat \<Rightarrow> nat \<Rightarrow> zq) \<Rightarrow> (nat \<Rightarrow> nat \<Rightarrow> zq) \<Rightarrow> nat \<Rightarrow> zq" where
  "pdot K A B j = (\<Sum>i<K. pmul (A i) (B i) j)"

lemma kem_acc_loop:
  assumes "\<And>i. i < k \<Longrightarrow> kem_reduced (a ! i) \<and> hat (A i) (a ! i)" "\<And>i. i < k \<Longrightarrow> kem_reduced (b ! i) \<and> hat (B i) (b ! i)"
    and "1 \<le> k" "k \<le> 4"
  defines "r \<equiv> fold (\<lambda>i r. let t = kem_poly_basemul_montgomery (a ! i) (b ! i) in kem_poly_add r t) [1..<k]
      (kem_poly_basemul_montgomery (a ! 0) (b ! 0))"
  shows "hat (\<lambda>j. kem_Rinv * pdot k A B j) r \<and> (\<forall>i < 256. \<bar>r ! i\<bar> \<le> int k * (2 * ML_KEM_Q - 1))"
proof -
  let ?P = "\<lambda>n r. hat (\<lambda>j. kem_Rinv * pdot n A B j) r \<and> (\<forall>i < 256. \<bar>r ! i\<bar> \<le> int n * (2 * ML_KEM_Q - 1))"
  show "?P k r"
    unfolding r_def
  proof (rule fold_upt_invar [where P = ?P])
    show "1 \<le> k" by (rule assms(3))
    have "0 < k" using assms(3) by simp
    then show "?P 1 (kem_poly_basemul_montgomery (a ! 0) (b ! 0))"
      using assms(1,2) [of 0] kem_poly_basemul_hat [of "a ! 0" "b ! 0" "A 0" "B 0"]
      by (fastforce simp: pdot_def)
    fix i r assume i: "1 \<le> i" "i < k" and r: "?P i r"
    let ?t = "kem_poly_basemul_montgomery (a ! i) (b ! i)"
    note T = kem_poly_basemul_hat [of "a ! i" "b ! i" "A i" "B i"]
    have t: "hat (\<lambda>j. kem_Rinv * pmul (A i) (B i) j) ?t" "length ?t = 256" "\<And>n. n < 256 \<Longrightarrow> \<bar>?t ! n\<bar> < 2 * ML_KEM_Q"
      using assms(1,2) [OF i(2)] T by auto
    have "int (Suc i) * (2 * ML_KEM_Q - 1) \<le> 4 * (2 * ML_KEM_Q - 1)"
      using i assms(4) by (intro mult_right_mono) (simp_all add: ML_KEM_Q_def)
    moreover have s: "\<bar>r ! n + ?t ! n\<bar> \<le> int (Suc i) * (2 * ML_KEM_Q - 1)" if "n < 256" for n
      using r t(3) [OF that] that by (auto simp: algebra_simps intro: order_trans [OF abs_triangle_ineq])
    ultimately have lt: "\<bar>r ! n + ?t ! n\<bar> < 2 ^ 15" if "n < 256" for n
      using s [OF that] by (simp add: ML_KEM_Q_def)
    have lr: "length r = 256" using r hat_length by blast
    have add: "kem_poly_add r ?t ! n = r ! n + ?t ! n" if "n < 256" for n
      by (rule kem_poly_add_nth [OF lr t(2) that lt [OF that]])
    have "hat (\<lambda>j. kem_Rinv * pdot i A B j + kem_Rinv * pmul (A i) (B i) j) (kem_poly_add r ?t)"
      by (rule hat_add [of _ r _ ?t]) (use r t lr add in \<open>simp_all add: kem_poly_add_def\<close>)
    moreover have "(\<lambda>j. kem_Rinv * pdot i A B j + kem_Rinv * pmul (A i) (B i) j) = (\<lambda>j. kem_Rinv * pdot (Suc i) A B j)"
      by (simp add: pdot_def algebra_simps)
    ultimately show "?P (Suc i) (let t = ?t in kem_poly_add r t)" using add s by (simp add: Let_def)
  qed
qed

lemma kem_pointwise_acc_hat:
  assumes "\<And>i. i < K \<Longrightarrow> kem_reduced (a ! i) \<and> hat (A i) (a ! i)" "\<And>i. i < K \<Longrightarrow> kem_reduced (b ! i) \<and> hat (B i) (b ! i)"
    and "1 \<le> K" "K \<le> 4"
  shows "hat (\<lambda>j. kem_Rinv * pdot K A B j) (kem_polyvec_pointwise_acc_montgomery K a b)"
    and "kem_reduced (kem_polyvec_pointwise_acc_montgomery K a b)"
proof -
  note L = kem_acc_loop [OF assms]
  have "int K * (2 * ML_KEM_Q - 1) \<le> 4 * (2 * ML_KEM_Q - 1)"
    using assms(4) by (intro mult_right_mono) (simp_all add: ML_KEM_Q_def)
  then have "fits16 (fold (\<lambda>i r. let t = kem_poly_basemul_montgomery (a ! i) (b ! i) in kem_poly_add r t) [1..<K]
      (kem_poly_basemul_montgomery (a ! 0) (b ! 0)))"
    using L hat_length by (intro fits16I) (fastforce simp: ML_KEM_Q_def)+
  then show "hat (\<lambda>j. kem_Rinv * pdot K A B j) (kem_polyvec_pointwise_acc_montgomery K a b)"
    "kem_reduced (kem_polyvec_pointwise_acc_montgomery K a b)"
    unfolding kem_polyvec_pointwise_acc_montgomery_def Let_def [of "kem_poly_basemul_montgomery (a ! 0) (b ! 0)"]
      Let_def [of "fold _ _ _"]
    using L by (blast intro: kem_poly_reduce_hat kem_poly_reduce_correct)+
qed

lemma kem_poly_tomont_hat:
  assumes "kem_reduced r" and "hat A r"
  shows "hat (\<lambda>j. kem_R * A j) (kem_poly_tomont r)" and "i < 256 \<Longrightarrow> \<bar>kem_poly_tomont r ! i\<bar> < ML_KEM_Q"
    and "length (kem_poly_tomont r) = 256"
proof -
  have l: "length r = 256" using assms(1) by (simp add: kem_reduced_def)
  have f: "i16 (2 ^ 32 mod ML_KEM_Q) = 1353" by (simp add: ML_KEM_Q_def i16_def)
  have "zq 1353 = zq (65536 * 65536)" unfolding zq_eq_iff by (simp add: ML_KEM_Q_def)
  then have R: "zq 1353 = kem_R * kem_R" by (simp only: kem_R_def of_int_mult of_int_numeral)
  have T: "kem_poly_tomont r ! i = kem_fqmul (r ! i) 1353" if "i < 256" for i
    unfolding kem_poly_tomont_def f Let_def kem_fqmul_def using that l by simp
  have F: "zq (kem_poly_tomont r ! i) = kem_R * zq (r ! i) \<and> \<bar>kem_poly_tomont r ! i\<bar> < ML_KEM_Q" if "i < 256" for i
  proof -
    have "\<bar>1353 :: int\<bar> \<le> 2 ^ 15" by simp
    note F = kem_fqmul_correct [OF kem_reducedD [OF assms(1) that] this]
    have "zq (kem_fqmul (r ! i) 1353) = kem_R * zq (r ! i) * (kem_R * kem_Rinv)" unfolding F(1) R by (simp only: ac_simps)
    then show ?thesis using F(2) by (simp add: T [OF that] kem_R_inv)
  qed
  show "length (kem_poly_tomont r) = 256" by (simp add: kem_poly_tomont_def l)
  then show "hat (\<lambda>j. kem_R * A j) (kem_poly_tomont r)" by (intro hat_scale [OF assms(2)]) (use F in blast)+
  show "i < 256 \<Longrightarrow> \<bar>kem_poly_tomont r ! i\<bar> < ML_KEM_Q" using F by blast
qed

lemma kem_poly_ntt_hat:
  assumes "length a = 256" and "\<And>i. i < 256 \<Longrightarrow> \<bar>a ! i\<bar> \<le> 9471"
  shows "hat (val a) (kem_poly_ntt a)" and "kem_reduced (kem_poly_ntt a)"
proof -
  have "list_all (small 9471) a" using assms by (simp add: list_all_length small_def)
  note N = kem_ntt_level [OF assms(1) this order_refl]
  have "fits16 (kem_ntt a)"
    using N(1,3) by (intro fits16I) (auto simp: list_all_length small_def ML_KEM_Q_def)
  moreover have "hat (val a) (kem_ntt a)" using N(1,2) by (simp add: hat_def)
  ultimately show "hat (val a) (kem_poly_ntt a)" "kem_reduced (kem_poly_ntt a)"
    unfolding kem_poly_ntt_def by (blast intro: kem_poly_reduce_hat kem_poly_reduce_correct)+
qed

lemma kem_poly_invntt_hat:
  assumes "kem_reduced r" and "hat A r"
  shows "length (kem_poly_invntt_tomont r) = 256" and "j < 256 \<Longrightarrow> zq (kem_poly_invntt_tomont r ! j) = kem_R * A j"
    and "j < 256 \<Longrightarrow> \<bar>kem_poly_invntt_tomont r ! j\<bar> < ML_KEM_Q"
proof -
  have P: "list_all (small 16383) r" "length r = 256"
    using assms(1) by (auto simp: kem_reduced_def list_all_iff small_def ML_KEM_Q_def)
  have lv: "level zq A 1 kem_c 2 r" using assms(2) by (simp add: hat_def)
  note I = kem_invntt_level [OF lv P]
  show l: "length (kem_poly_invntt_tomont r) = 256" using I(1) by (simp add: kem_poly_invntt_tomont_def)
  show "j < 256 \<Longrightarrow> zq (kem_poly_invntt_tomont r ! j) = kem_R * A j"
    using I(2) by (simp add: kem_poly_invntt_tomont_def)
  show "j < 256 \<Longrightarrow> \<bar>kem_poly_invntt_tomont r ! j\<bar> < ML_KEM_Q"
    using I(1,3) by (auto simp: kem_poly_invntt_tomont_def list_all_length small_def)
qed

section \<open>The ring of polynomials modulo \<open>X^256 + 1\<close>\<close>

lemma pmul_comm: "pmul A B = pmul B A"
proof
  fix k
  have "pmul A B k = (\<Sum>j<256. \<Sum>i<256. if i + j = k then A i * B j else if i + j = k + 256 then - (A i * B j) else 0)"
    unfolding negacyclic_def by (rule sum.swap)
  also have "\<dots> = pmul B A k" unfolding negacyclic_def by (intro sum.cong refl) (simp add: add.commute mult.commute)
  finally show "pmul A B k = pmul B A k" .
qed

lemma pmul_add: "pmul A (\<lambda>j. B j + C j) k = pmul A B k + pmul A C k"
  unfolding negacyclic_def sum.distrib [symmetric] by (intro sum.cong refl) (simp add: algebra_simps)

lemma pmul_zero: "pmul A (\<lambda>j. 0) k = 0"
  unfolding negacyclic_def by (simp cong: if_cong)

lemma pmul_sum: "pmul A (\<lambda>j. \<Sum>i<n. B i j) k = (\<Sum>i<(n :: nat). pmul A (B i) k)"
  by (induction n) (simp_all add: pmul_add pmul_zero)

lemma pmul_cong: "(\<And>j. j < 256 \<Longrightarrow> A j = A' j) \<Longrightarrow> (\<And>j. j < 256 \<Longrightarrow> B j = B' j) \<Longrightarrow> pmul A B k = pmul A' B' k"
  unfolding negacyclic_def by (intro sum.cong refl) simp

lemma mul_mod_2:
  "mul_mod 2 c R S 0 = R 0 * S 0 + c * R 1 * S 1" "mul_mod 2 c R S 1 = R 0 * S 1 + R 1 * S 0"
  by (simp_all add: mul_mod_def numeral_2_eq_2 algebra_simps)

lemma mul_mod_2_assoc:
  fixes c :: "'a::comm_ring_1"
  assumes "j < 2"
  shows "mul_mod 2 c (mul_mod 2 c R S) T j = mul_mod 2 c R (mul_mod 2 c S T) j"
proof -
  have "j = 0 \<or> j = 1" using assms by auto
  then show ?thesis by (elim disjE) (simp_all only: mul_mod_2, simp_all only: algebra_simps)
qed

lemma pmul_residue:
  assumes "b < 128" and "j < 2"
  shows "residue 256 (pmul A B) 2 (kem_c (128 + b)) j =
    mul_mod 2 (kem_c (128 + b)) (residue 256 A 2 (kem_c (128 + b))) (residue 256 B 2 (kem_c (128 + b))) j"
  by (rule residue_conv) (use kem_c_128 [OF assms(1)] assms(2) in simp_all)

lemma pmul_assoc:
  assumes "k < 256"
  shows "pmul (pmul A B) C k = pmul A (pmul B C) k"
proof (rule residue_unique [where i = 7 and m = 2 and n = 256, OF kem_half _ kem_tree_pow])
  fix n j :: nat assume n: "2 ^ 7 \<le> n" "n < 2 ^ Suc 7" and j: "j < 2"
  define b where "b = n - 128"
  have b: "b < 128" "n = 128 + b" using n by (simp_all add: b_def)
  let ?r = "\<lambda>A. residue 256 A 2 (kem_c (128 + b))"
  have "?r (pmul (pmul A B) C) j = mul_mod 2 (kem_c (128 + b)) (mul_mod 2 (kem_c (128 + b)) (?r A) (?r B)) (?r C) j"
    unfolding pmul_residue [OF b(1) j] by (rule mul_mod_cong [OF j]) (simp_all add: pmul_residue [OF b(1)])
  also have "\<dots> = mul_mod 2 (kem_c (128 + b)) (?r A) (mul_mod 2 (kem_c (128 + b)) (?r B) (?r C)) j"
    by (rule mul_mod_2_assoc [OF j])
  also have "\<dots> = ?r (pmul A (pmul B C)) j"
    unfolding pmul_residue [OF b(1) j] by (rule mul_mod_cong [OF j]) (simp_all add: pmul_residue [OF b(1)])
  finally show "residue 256 (pmul (pmul A B) C) 2 (kem_c n) j = residue 256 (pmul A (pmul B C)) 2 (kem_c n) j"
    unfolding b(2) .
qed (use assms in simp_all)

text \<open>The two ways to compute \<open>s^T A^T r\<close>.\<close>

lemma pdot_transpose:
  assumes "k < 256"
  shows "pdot K (\<lambda>i. pdot K (A i) S) R k = pdot K S (\<lambda>i. pdot K (\<lambda>j. A j i) R) k"
proof -
  have L: "pmul (pdot K (A i) S) (R i) k = (\<Sum>j<K. pmul (pmul (A i j) (S j)) (R i) k)" for i
    unfolding pmul_comm [of "pdot K (A i) S"] pmul_comm [of "pmul (A i _) (S _)" "R i"] pdot_def by (rule pmul_sum)
  have R: "pmul (S j) (pdot K (\<lambda>i. A i j) R) k = (\<Sum>i<K. pmul (S j) (pmul (A i j) (R i)) k)" for j
    unfolding pdot_def by (rule pmul_sum)
  have e: "pmul (pmul (A i j) (S j)) (R i) k = pmul (S j) (pmul (A i j) (R i)) k" for i j
    unfolding pmul_comm [of "A i j" "S j"] by (rule pmul_assoc [OF assms])
  have "pdot K (\<lambda>i. pdot K (A i) S) R k = (\<Sum>i<K. \<Sum>j<K. pmul (S j) (pmul (A i j) (R i)) k)"
    by (simp only: pdot_def [of K "\<lambda>i. pdot K (A i) S"] L e)
  also have "\<dots> = (\<Sum>j<K. \<Sum>i<K. pmul (S j) (pmul (A i j) (R i)) k)" by (rule sum.swap)
  also have "\<dots> = pdot K S (\<lambda>i. pdot K (\<lambda>j. A j i) R) k"
    by (simp only: pdot_def [of K S] R)
  finally show ?thesis .
qed

lemma pdot_add_left: "pdot K (\<lambda>i j. A i j + B i j) C k = pdot K A C k + pdot K B C k"
proof -
  have "pmul (\<lambda>j. A i j + B i j) (C i) k = pmul (A i) (C i) k + pmul (B i) (C i) k" for i
    using pmul_add [of "C i" "A i" "B i" k] by (simp only: pmul_comm [of "C i"])
  then show ?thesis by (simp only: pdot_def sum.distrib)
qed

lemma pdot_add_right: "pdot K A (\<lambda>i j. B i j + C i j) k = pdot K A B k + pdot K A C k"
  by (simp only: pdot_def pmul_add sum.distrib)

lemma pdot_cong:
  "(\<And>i j. i < K \<Longrightarrow> j < 256 \<Longrightarrow> A i j = A' i j) \<Longrightarrow> (\<And>i j. i < K \<Longrightarrow> j < 256 \<Longrightarrow> B i j = B' i j) \<Longrightarrow>
   pdot K A B k = pdot K A' B' k"
  unfolding pdot_def by (intro sum.cong refl pmul_cong) simp_all

end
