(* ===== verification/MLKEM_Correct.thy ===== *)
theory MLKEM_Correct
  imports MLKEM_Sample MLKEM_Ring
begin

text \<open>
  ML-KEM as a whole.  The symmetric primitives are an interface (\<open>kem_primitives\<close>) that both builds
  satisfy.  Over it, key generation, encryption and decryption are described in the ring
  (\<open>keypair_ring\<close>, \<open>enc_ring\<close>, \<open>dec_ring\<close>): decryption returns the message whenever the noise of
  the ciphertext stays below a quarter of \<open>q\<close> (\<open>pke_correct\<close>), decapsulation is the one of FIPS 203
  (\<open>dec_spec\<close>), and it recovers the shared secret (\<open>kem_correct\<close>).
\<close>

section \<open>The interface of the symmetric primitives\<close>

locale kem_primitives =
  fixes S :: kem_sym
  assumes hash_g_length: "length (kem_hash_g S m) = 2 * ML_KEM_SYMBYTES"
    and hash_h_length: "length (kem_hash_h S m) = ML_KEM_SYMBYTES"
    and prf_length: "length (kem_prf S n key nonce) = n"
    and rkprf_length: "length (kem_rkprf S key ct) = ML_KEM_SSBYTES"
    and gen_poly_range: "kem_gen_poly S seed x y = Some p \<Longrightarrow> length p = 256 \<and> (\<forall>c \<in> set p. 0 \<le> c \<and> c < ML_KEM_Q)"

lemma shake256_rkprf_eq: "shake256_rkprf key ct = shake256 ML_KEM_SSBYTES (key @ ct)"
  using shake256_incremental [of "[ML_KEM_SSBYTES]" "[key, ct]"] by (simp add: shake256_rkprf_def case_prod_beta Let_def)

interpretation kem_shake_primitives: kem_primitives kem_shake
proof
  fix seed x y p assume "kem_gen_poly kem_shake seed x y = Some p"
  then obtain n where n: "256 \<le> length (accepted (shake128 (SHAKE128_RATE * n) (seed @ [x, y])))"
    "p = take 256 (accepted (shake128 (SHAKE128_RATE * n) (seed @ [x, y])))"
    by (auto simp: kem_shake_def kem_shake_gen_poly_stream)
  then show "length p = 256 \<and> (\<forall>c \<in> set p. 0 \<le> c \<and> c < ML_KEM_Q)"
    using accepted_range by (auto dest!: in_set_takeD)
qed (simp_all add: kem_shake_def sha3_256_def sha3_512_def case_prod_beta Let_def ML_KEM_SYMBYTES_def shake256_prf_def
      shake256_rkprf_eq)

interpretation kem_sm3_primitives: kem_primitives kem_sm3
  by unfold_locales
     (auto simp: kem_sm3_def sm3_256_def sm3_512_def sm3_prf_def sm3_rkprf_def ML_KEM_SYMBYTES_def ML_KEM_SSBYTES_def
       dest: kem_sm3_gen_poly_cases)

section \<open>Noise polynomials\<close>

lemma kem_noise_range:
  assumes "length buf = 128"
  shows "length (kem_cbd_eta2 buf) = 256" and "x \<in> set (kem_cbd_eta2 buf) \<Longrightarrow> \<bar>x\<bar> \<le> 3"
  using kem_cbd2_spec [OF assms] cbd_spec_range [of x 2 "byte_bits buf"]
  by (auto simp: kem_cbd_eta2_def cbd_spec_def)

context kem_primitives
begin

lemma getnoise_eta1:
  "length (kem_poly_getnoise_eta1 S K seed nonce) = 256" "i < 256 \<Longrightarrow> \<bar>kem_poly_getnoise_eta1 S K seed nonce ! i\<bar> \<le> 3"
proof -
  let ?b = "kem_prf S (ML_KEM_ETA1 K * ML_KEM_N div 4) seed nonce"
  have "kem_poly_getnoise_eta1 S K seed nonce = cbd_spec (ML_KEM_ETA1 K) (byte_bits ?b)"
    using kem_cbd2_spec [of ?b] kem_cbd3_spec [of ?b]
    by (auto simp: kem_poly_getnoise_eta1_def kem_cbd_eta1_def ML_KEM_ETA1_def ML_KEM_N_def prf_length)
  moreover have "ML_KEM_ETA1 K \<le> 3" by (simp add: ML_KEM_ETA1_def)
  moreover have "length (cbd_spec e bs) = 256" for e bs by (simp add: cbd_spec_def)
  ultimately show "length (kem_poly_getnoise_eta1 S K seed nonce) = 256"
    "i < 256 \<Longrightarrow> \<bar>kem_poly_getnoise_eta1 S K seed nonce ! i\<bar> \<le> 3"
    using cbd_spec_range [OF nth_mem, of i "ML_KEM_ETA1 K" "byte_bits ?b"] by simp_all
qed

lemma getnoise_eta2:
  "length (kem_poly_getnoise_eta2 S seed nonce) = 256" "i < 256 \<Longrightarrow> \<bar>kem_poly_getnoise_eta2 S seed nonce ! i\<bar> \<le> 3"
proof -
  have l: "length (kem_prf S (ML_KEM_ETA2 * ML_KEM_N div 4) seed nonce) = 128"
    by (simp add: prf_length ML_KEM_ETA2_def ML_KEM_N_def)
  show "length (kem_poly_getnoise_eta2 S seed nonce) = 256" using kem_noise_range(1) [OF l]
    by (simp add: kem_poly_getnoise_eta2_def)
  then show "i < 256 \<Longrightarrow> \<bar>kem_poly_getnoise_eta2 S seed nonce ! i\<bar> \<le> 3"
    using kem_noise_range(2) [OF l, of "kem_poly_getnoise_eta2 S seed nonce ! i"] nth_mem [of i "kem_poly_getnoise_eta2 S seed nonce"]
    by (simp add: kem_poly_getnoise_eta2_def)
qed

end

section \<open>Key generation, encryption and decryption in the ring\<close>

lemma those_map_nth:
  assumes "those (map f [0..<n]) = Some xs"
  shows "length xs = n" and "i < n \<Longrightarrow> f i = Some (xs ! i)"
proof -
  have "those ys = Some xs \<Longrightarrow> ys = map Some xs" for ys
    by (induction ys arbitrary: xs) (auto split: option.splits)
  then have e: "map f [0..<n] = map Some xs" using assms by blast
  show l: "length xs = n" using arg_cong [OF e, of length] by simp
  show "i < n \<Longrightarrow> f i = Some (xs ! i)" using arg_cong [OF e, of "\<lambda>l. l ! i"] l by simp
qed

lemma kem_gen_matrix_nth:
  assumes "kem_gen_matrix S K seed t = Some a" and "i < K" and "j < K"
  shows "(if t then kem_gen_poly S seed (of_nat i) (of_nat j) else kem_gen_poly S seed (of_nat j) (of_nat i)) = Some (a ! i ! j)"
  using those_map_nth(2) [OF those_map_nth(2) [OF assms(1) [unfolded kem_gen_matrix_def] assms(2)] assms(3)] .

text \<open>The transposed matrix has the same entries.\<close>

lemma kem_gen_at_transpose:
  assumes "kem_gen_a S K seed = Some a" and "kem_gen_at S K seed = Some a'" and "i < K" and "j < K"
  shows "a' ! i ! j = a ! j ! i"
  using kem_gen_matrix_nth [OF assms(1) [unfolded kem_gen_a_def] assms(4,3)]
    kem_gen_matrix_nth [OF assms(2) [unfolded kem_gen_at_def] assms(3,4)] by simp

lemma zq_mod: "zq (x mod ML_KEM_Q) = zq x"
  unfolding zq_eq_iff by (simp add: mod_eq_dvd [symmetric])

lemma kem_mod_hat: "hat A r \<Longrightarrow> hat A (map (\<lambda>x. x mod ML_KEM_Q) r)"
  by (rule hat_cong [of A r]) (auto simp: zq_mod hat_length)

lemma kem_mod_reduced: "length r = 256 \<Longrightarrow> kem_reduced (map (\<lambda>x. x mod ML_KEM_Q) r)"
  by (auto simp: kem_reduced_def ML_KEM_Q_def)

lemma kem_polyvec_add_nth:
  "length a = K \<Longrightarrow> length b = K \<Longrightarrow> i < K \<Longrightarrow> kem_polyvec_add a b ! i = kem_poly_add (a ! i) (b ! i)"
  by (simp add: kem_polyvec_add_def)

text \<open>Adding small polynomials and reducing.\<close>

lemma kem_add_reduce:
  assumes "length a = 256" "length b = 256" and "\<And>j. j < 256 \<Longrightarrow> \<bar>a ! j + b ! j\<bar> < 2 ^ 15"
  shows "kem_reduced (kem_poly_reduce (kem_poly_add a b))"
    and "j < 256 \<Longrightarrow> zq (kem_poly_reduce (kem_poly_add a b) ! j) = zq (a ! j) + zq (b ! j)"
    and "length (kem_poly_add a b) = 256"
proof -
  have n: "kem_poly_add a b ! j = a ! j + b ! j" if "j < 256" for j
    by (rule kem_poly_add_nth) (use assms that in simp_all)
  show l: "length (kem_poly_add a b) = 256" using assms(1,2) by (simp add: kem_poly_add_def)
  then have "fits16 (kem_poly_add a b)" by (rule fits16I) (use n assms(3) in simp)
  from kem_poly_reduce_correct [OF this] n show "kem_reduced (kem_poly_reduce (kem_poly_add a b))"
    "j < 256 \<Longrightarrow> zq (kem_poly_reduce (kem_poly_add a b) ! j) = zq (a ! j) + zq (b ! j)" by simp_all
qed

context kem_primitives
begin

lemma matrix_hats:
  assumes "kem_gen_a S K seed = Some a"
  obtains A where "\<And>i j. i < K \<Longrightarrow> j < K \<Longrightarrow> kem_reduced (a ! i ! j) \<and> hat (A i j) (a ! i ! j)"
proof -
  have r: "kem_reduced (a ! i ! j)" if "i < K" "j < K" for i j
    using kem_gen_matrix_nth [OF assms [unfolded kem_gen_a_def] that] gen_poly_range by (fastforce simp: kem_reduced_def)
  have "\<exists>A. hat A (a ! i ! j)" if "i < K" "j < K" for i j
    using r [OF that] hat_exists by (metis kem_reduced_def)
  then have "\<exists>A. \<forall>i j. i < K \<longrightarrow> j < K \<longrightarrow> hat (A i j) (a ! i ! j)" by metis
  then show thesis using r that by blast
qed

lemma noise_hat:
  assumes "length a = 256" and "\<And>i. i < 256 \<Longrightarrow> \<bar>a ! i\<bar> \<le> 3"
  shows "kem_reduced (kem_poly_ntt a)" and "hat (val a) (kem_poly_ntt a)"
  using kem_poly_ntt_hat [OF assms(1)] assms(2) by force+

lemma keypair_ring:
  assumes kp: "kem_indcpa_keypair S K d = Some (pk, sk)" and K: "1 \<le> K" "K \<le> 4"
  defines "buf \<equiv> kem_hash_g S (take ML_KEM_SYMBYTES d @ [of_nat K])"
  defines "ns \<equiv> bslice ML_KEM_SYMBYTES ML_KEM_SYMBYTES buf" and "seed \<equiv> take ML_KEM_SYMBYTES buf"
  defines "s \<equiv> \<lambda>i. kem_poly_getnoise_eta1 S K ns (of_nat i)" and "e \<equiv> \<lambda>i. kem_poly_getnoise_eta1 S K ns (of_nat (K + i))"
  obtains a A t where "kem_gen_a S K seed = Some a"
    and "\<forall>i<K. \<forall>j<K. kem_reduced (a ! i ! j) \<and> hat (A i j) (a ! i ! j)"
    and "sk = kem_polyvec_tobytes (map (\<lambda>i. kem_poly_ntt (s i)) [0..<K])"
    and "pk = kem_polyvec_tobytes t @ seed" and "length t = K"
    and "\<forall>i<K. kem_reduced (t ! i) \<and> hat (\<lambda>j. pdot K (A i) (\<lambda>i. val (s i)) j + val (e i) j) (t ! i)"
proof -
  obtain a where a: "kem_gen_a S K seed = Some a"
    using kp by (auto simp: kem_indcpa_keypair_def Let_def buf_def seed_def split: option.splits)
  obtain A where A: "\<And>i j. i < K \<Longrightarrow> j < K \<Longrightarrow> kem_reduced (a ! i ! j) \<and> hat (A i j) (a ! i ! j)"
    using matrix_hats [OF a] by blast
  define sv where "sv = map (\<lambda>i. kem_poly_ntt (s i)) [0..<K]"
  define p where "p i = kem_poly_tomont (kem_polyvec_pointwise_acc_montgomery K (a ! i) sv)" for i
  define t where "t = map (\<lambda>i. kem_poly_reduce (kem_poly_add (p i) (kem_poly_ntt (e i)))) [0..<K]"
  have sh: "kem_reduced (sv ! i) \<and> hat (val (s i)) (sv ! i)" if "i < K" for i
    using noise_hat [OF getnoise_eta1] that by (simp add: sv_def s_def)
  have eh: "kem_reduced (kem_poly_ntt (e i))" "hat (val (e i)) (kem_poly_ntt (e i))" for i
    using noise_hat [OF getnoise_eta1] by (simp_all add: e_def)
  have T: "kem_reduced (t ! i) \<and> hat (\<lambda>j. pdot K (A i) (\<lambda>i. val (s i)) j + val (e i) j) (t ! i)" if i: "i < K" for i
  proof -
    have acc: "hat (\<lambda>j. kem_Rinv * pdot K (A i) (\<lambda>i. val (s i)) j) (kem_polyvec_pointwise_acc_montgomery K (a ! i) sv)"
      "kem_reduced (kem_polyvec_pointwise_acc_montgomery K (a ! i) sv)"
      by (rule kem_pointwise_acc_hat [OF _ _ K]; use A [OF i] sh in blast)+
    note M = kem_poly_tomont_hat [OF acc(2,1), folded p_def]
    have "(\<lambda>j. kem_R * (kem_Rinv * pdot K (A i) (\<lambda>i. val (s i)) j)) = pdot K (A i) (\<lambda>i. val (s i))"
      by (simp add: mult.assoc [symmetric] kem_R_inv)
    with M(1) have h: "hat (pdot K (A i) (\<lambda>i. val (s i))) (p i)" by simp
    have le: "length (kem_poly_ntt (e i)) = 256" using eh(1) by (simp add: kem_reduced_def)
    have b: "\<bar>p i ! j + kem_poly_ntt (e i) ! j\<bar> < 2 ^ 15" if "j < 256" for j
      using M(2) [OF that] kem_reducedD [OF eh(1) [of i] that] by (simp add: ML_KEM_Q_def)
    note R = kem_add_reduce [OF M(3) le b]
    have "hat (\<lambda>j. pdot K (A i) (\<lambda>i. val (s i)) j + val (e i) j) (kem_poly_reduce (kem_poly_add (p i) (kem_poly_ntt (e i))))"
      by (rule hat_add [OF h eh(2)]) (use R in \<open>simp_all add: kem_reduced_def\<close>)
    then show ?thesis using R(1) i by (simp add: t_def)
  qed
  have "pk = kem_polyvec_tobytes t @ seed \<and> sk = kem_polyvec_tobytes sv"
  proof -
    have "kem_polyvec_ntt (map s [0..<K]) = sv" "kem_polyvec_ntt (map e [0..<K]) = map (\<lambda>i. kem_poly_ntt (e i)) [0..<K]"
      by (simp_all add: kem_polyvec_ntt_def sv_def comp_def)
    moreover have "kem_polyvec_reduce (kem_polyvec_add (map p [0..<K]) (map (\<lambda>i. kem_poly_ntt (e i)) [0..<K])) = t"
      by (rule nth_equalityI) (simp_all add: kem_polyvec_reduce_def kem_polyvec_add_def t_def)
    ultimately show ?thesis
      using kp a by (simp add: kem_indcpa_keypair_def Let_def buf_def [symmetric] seed_def [symmetric] ns_def [symmetric]
        s_def [symmetric] e_def [symmetric] p_def [symmetric] kem_pack_pk_def kem_pack_sk_def del: of_nat_add)
  qed
  moreover have "length t = K" by (simp add: t_def)
  moreover have "\<forall>i<K. \<forall>j<K. kem_reduced (a ! i ! j) \<and> hat (A i j) (a ! i ! j)" using A by blast
  ultimately show thesis using that [OF a] T sv_def by blast
qed

end

lemma kem_poly_frommsg_range:
  assumes "length m = 32"
  shows "length (kem_poly_frommsg m) = 256" and "j < 256 \<Longrightarrow> \<bar>kem_poly_frommsg m ! j\<bar> \<le> 1665"
  unfolding kem_poly_frommsg_bits [OF assms] using assms by (simp_all add: length_byte_bits)

lemma kem_unpack_pk_pack:
  assumes "\<forall>p \<in> set t. kem_reduced p" and "length t = K" and "length seed = ML_KEM_SYMBYTES"
  shows "kem_unpack_pk K (kem_polyvec_tobytes t @ seed) = (map (map (\<lambda>x. x mod ML_KEM_Q)) t, seed)"
  using assms kem_polyvec_frombytes_tobytes [OF assms(1,2)] kem_polyvec_tobytes_length [OF assms(1)]
  by (simp add: kem_unpack_pk_def bslice_def ML_KEM_POLYVECBYTES_def)

context kem_primitives
begin

lemma enc_ring:
  assumes enc: "kem_indcpa_enc_polys S K m (kem_polyvec_tobytes t @ seed) coins = Some (u, v)" and K: "1 \<le> K" "K \<le> 4"
    and a: "kem_gen_a S K seed = Some a" "\<forall>i<K. \<forall>j<K. kem_reduced (a ! i ! j) \<and> hat (A i j) (a ! i ! j)"
    and t: "length t = K" "\<forall>i<K. kem_reduced (t ! i) \<and> hat (T i) (t ! i)"
    and m: "length m = 32" and seed: "length seed = ML_KEM_SYMBYTES"
  defines "r \<equiv> \<lambda>i. kem_poly_getnoise_eta1 S K coins (of_nat i)" and "e1 \<equiv> \<lambda>i. kem_poly_getnoise_eta2 S coins (of_nat (K + i))"
    and "e2 \<equiv> kem_poly_getnoise_eta2 S coins (of_nat (2 * K))"
  shows "length u = K" and "i < K \<Longrightarrow> kem_reduced (u ! i)" and "kem_reduced v"
    and "i < K \<Longrightarrow> j < 256 \<Longrightarrow> zq (u ! i ! j) = pdot K (\<lambda>l. A l i) (\<lambda>i. val (r i)) j + val (e1 i) j"
    and "j < 256 \<Longrightarrow> zq (v ! j) = pdot K T (\<lambda>i. val (r i)) j + val e2 j + zq (kem_poly_frommsg m ! j)"
proof -
  define tm where "tm = map (map (\<lambda>x. x mod ML_KEM_Q)) t"
  have rt: "\<forall>p \<in> set t. kem_reduced p" using t by (auto simp: in_set_conv_nth)
  note up = kem_unpack_pk_pack [OF rt t(1) seed, folded tm_def]
  obtain a' where a': "kem_gen_at S K seed = Some a'"
    using enc by (auto simp: kem_indcpa_enc_polys_def up Let_def split: option.splits)
  define rv where "rv = map (\<lambda>i. kem_poly_ntt (r i)) [0..<K]"
  define b where "b i = kem_poly_invntt_tomont (kem_polyvec_pointwise_acc_montgomery K (a' ! i) rv)" for i
  define w where "w = kem_poly_invntt_tomont (kem_polyvec_pointwise_acc_montgomery K tm rv)"
  have code: "u = map (\<lambda>i. kem_poly_reduce (kem_poly_add (b i) (e1 i))) [0..<K] \<and>
      v = kem_poly_reduce (kem_poly_add (kem_poly_add w e2) (kem_poly_frommsg m))"
  proof -
    have "kem_polyvec_ntt (map r [0..<K]) = rv" by (simp add: kem_polyvec_ntt_def rv_def comp_def)
    moreover have "kem_polyvec_reduce (kem_polyvec_add (kem_polyvec_invntt_tomont
        (map (\<lambda>i. kem_polyvec_pointwise_acc_montgomery K (a' ! i) rv) [0..<K])) (map e1 [0..<K])) =
        map (\<lambda>i. kem_poly_reduce (kem_poly_add (b i) (e1 i))) [0..<K]"
      by (rule nth_equalityI) (simp_all add: kem_polyvec_reduce_def kem_polyvec_add_def kem_polyvec_invntt_tomont_def b_def)
    ultimately show ?thesis
      using enc a' by (simp add: kem_indcpa_enc_polys_def up Let_def r_def [symmetric] e1_def [symmetric] e2_def [symmetric]
        w_def [symmetric] del: of_nat_add of_nat_mult)
  qed
  then show "length u = K" by simp
  have rh: "kem_reduced (rv ! i) \<and> hat (val (r i)) (rv ! i)" if "i < K" for i
    using noise_hat [OF getnoise_eta1] that by (simp add: rv_def r_def)
  have th: "kem_reduced (tm ! i) \<and> hat (T i) (tm ! i)" if "i < K" for i
    using t(2) that t(1) kem_mod_reduced [OF hat_length] kem_mod_hat by (fastforce simp: tm_def)
  have B: "length (b i) = 256 \<and> (\<forall>j<256. zq (b i ! j) = pdot K (\<lambda>l. A l i) (\<lambda>i. val (r i)) j \<and> \<bar>b i ! j\<bar> < ML_KEM_Q)" if i: "i < K" for i
  proof -
    have ah: "kem_reduced (a' ! i ! j) \<and> hat (A j i) (a' ! i ! j)" if "j < K" for j
      using a(2) that i kem_gen_at_transpose [OF a(1) a' i that] by simp
    have acc: "hat (\<lambda>j. kem_Rinv * pdot K (\<lambda>l. A l i) (\<lambda>i. val (r i)) j) (kem_polyvec_pointwise_acc_montgomery K (a' ! i) rv)"
      "kem_reduced (kem_polyvec_pointwise_acc_montgomery K (a' ! i) rv)"
      by (rule kem_pointwise_acc_hat [OF _ _ K]; use ah rh in blast)+
    show ?thesis using kem_poly_invntt_hat [OF acc(2,1), folded b_def] by (simp add: mult.assoc [symmetric] kem_R_inv)
  qed
  have W: "length w = 256 \<and> (\<forall>j<256. zq (w ! j) = pdot K T (\<lambda>i. val (r i)) j \<and> \<bar>w ! j\<bar> < ML_KEM_Q)"
  proof -
    have acc: "hat (\<lambda>j. kem_Rinv * pdot K T (\<lambda>i. val (r i)) j) (kem_polyvec_pointwise_acc_montgomery K tm rv)"
      "kem_reduced (kem_polyvec_pointwise_acc_montgomery K tm rv)"
      by (rule kem_pointwise_acc_hat [OF _ _ K]; use th rh in blast)+
    show ?thesis using kem_poly_invntt_hat [OF acc(2,1), folded w_def] by (simp add: mult.assoc [symmetric] kem_R_inv)
  qed
  show "i < K \<Longrightarrow> kem_reduced (u ! i)"
    and "i < K \<Longrightarrow> j < 256 \<Longrightarrow> zq (u ! i ! j) = pdot K (\<lambda>l. A l i) (\<lambda>i. val (r i)) j + val (e1 i) j"
  proof -
    assume i: "i < K"
    have bd: "\<bar>b i ! j + e1 i ! j\<bar> < 2 ^ 15" if "j < 256" for j
    proof -
      have "\<bar>b i ! j\<bar> < ML_KEM_Q" "\<bar>e1 i ! j\<bar> \<le> 3" using B [OF i] getnoise_eta2(2) that by (auto simp: e1_def)
      then show ?thesis by (simp add: ML_KEM_Q_def)
    qed
    have l: "length (b i) = 256" "length (e1 i) = 256" using B [OF i] getnoise_eta2(1) by (auto simp: e1_def)
    note R = kem_add_reduce [OF l bd]
    show "kem_reduced (u ! i)" using R(1) i by (simp add: code)
    show "j < 256 \<Longrightarrow> zq (u ! i ! j) = pdot K (\<lambda>l. A l i) (\<lambda>i. val (r i)) j + val (e1 i) j"
      using R(2) B [OF i] i by (simp add: code)
  qed
  note M = kem_poly_frommsg_range [OF m]
  have le2: "length e2 = 256" "\<And>j. j < 256 \<Longrightarrow> \<bar>e2 ! j\<bar> \<le> 3" using getnoise_eta2 by (simp_all add: e2_def)
  have bw: "\<bar>w ! j + e2 ! j\<bar> < ML_KEM_Q + 3" if "j < 256" for j
  proof -
    have "\<bar>w ! j\<bar> < ML_KEM_Q" "\<bar>e2 ! j\<bar> \<le> 3" using W le2 that by auto
    then show ?thesis by simp
  qed
  have n: "kem_poly_add w e2 ! j = w ! j + e2 ! j" if "j < 256" for j
    by (rule kem_poly_add_nth) (use W le2 bw [OF that] that in \<open>auto simp: ML_KEM_Q_def\<close>)
  have l: "length (kem_poly_add w e2) = 256" using W le2 by (simp add: kem_poly_add_def)
  have "\<bar>kem_poly_add w e2 ! j + kem_poly_frommsg m ! j\<bar> < 2 ^ 15" if "j < 256" for j
    unfolding n [OF that] using bw [OF that] M(2) [OF that] by (simp add: ML_KEM_Q_def)
  note R = kem_add_reduce [OF l M(1) this]
  show "kem_reduced v" using R(1) code by simp
  show "j < 256 \<Longrightarrow> zq (v ! j) = pdot K T (\<lambda>i. val (r i)) j + val e2 j + zq (kem_poly_frommsg m ! j)"
    using R(2) n W code by simp
qed

end

lemma int_div_lt: "a < b * c \<Longrightarrow> 0 < b \<Longrightarrow> a div b < c" for a b c :: int
proof (rule ccontr)
  assume a: "a < b * c" "0 < b" "\<not> a div b < c"
  have "b * c \<le> b * (a div b)" using a by simp
  also have "\<dots> \<le> a" using a(2) mult_div_mod_eq [of b a] pos_mod_sign [of b a] by linarith
  finally show False using a(1) by simp
qed

lemma Decompress_range: "0 \<le> y \<Longrightarrow> y < 2 ^ d \<Longrightarrow> 0 \<le> Decompress d y \<and> Decompress d y \<le> ML_KEM_Q"
proof
  assume y: "0 \<le> y" "y < 2 ^ d"
  show "0 \<le> Decompress d y" using y unfolding Decompress_div by (simp add: ML_KEM_Q_def pos_imp_zdiv_nonneg_iff)
  have "y * ML_KEM_Q + 2 ^ d div 2 < 2 ^ d * (ML_KEM_Q + 1)"
  proof -
    have "y * ML_KEM_Q \<le> 2 ^ d * ML_KEM_Q" using y by (simp add: ML_KEM_Q_def)
    moreover have "(2 :: int) ^ d div 2 < 2 ^ d" by (rule int_div_less_self) simp_all
    ultimately show ?thesis by (simp add: distrib_left)
  qed
  then have "(y * ML_KEM_Q + 2 ^ d div 2) div 2 ^ d < ML_KEM_Q + 1" by (intro int_div_lt) simp_all
  then show "Decompress d y \<le> ML_KEM_Q" unfolding Decompress_div by simp
qed

definition kem_lossy :: "nat \<Rightarrow> int \<Rightarrow> int" where
  "kem_lossy d x = Decompress d (Compress d x)"

lemma kem_lossy_range: "0 \<le> kem_lossy d x" "kem_lossy d x \<le> ML_KEM_Q"
  using Decompress_range [OF Compress_range] by (simp_all add: kem_lossy_def)

lemma kem_unpack_pack_ciphertext:
  assumes "\<forall>p \<in> set u. kem_reduced p" and "length u = K" and "2 \<le> K" and "kem_reduced v"
  shows "kem_unpack_ciphertext K (kem_pack_ciphertext K u v) = (map (map (kem_lossy (kem_du K))) u, map (kem_lossy (kem_dv K)) v)"
    and "length (kem_pack_ciphertext K u v) = ML_KEM_CIPHERTEXTBYTES K"
  using kem_polyvec_compress_decompress [OF assms(1-3)] kem_poly_compress_decompress [OF assms(4)]
  by (simp_all add: kem_unpack_ciphertext_def kem_pack_ciphertext_def kem_lossy_def [abs_def] ML_KEM_CIPHERTEXTBYTES_def ML_KEM_INDCPA_BYTES_def)

lemma kem_poly_sub_nth:
  assumes "length a = 256" "length b = 256" "i < 256" and "\<bar>a ! i - b ! i\<bar> < 2 ^ 15"
  shows "kem_poly_sub a b ! i = a ! i - b ! i"
  using assms by (auto simp: kem_poly_sub_def intro!: i16_id)

lemma kem_sub_reduce:
  assumes "length a = 256" "length b = 256" and "\<And>j. j < 256 \<Longrightarrow> \<bar>a ! j - b ! j\<bar> < 2 ^ 15"
  shows "kem_reduced (kem_poly_reduce (kem_poly_sub a b))"
    and "j < 256 \<Longrightarrow> zq (kem_poly_reduce (kem_poly_sub a b) ! j) = zq (a ! j) - zq (b ! j)"
proof -
  have n: "kem_poly_sub a b ! j = a ! j - b ! j" if "j < 256" for j
    by (rule kem_poly_sub_nth) (use assms that in simp_all)
  have l: "length (kem_poly_sub a b) = 256" using assms(1,2) by (simp add: kem_poly_sub_def)
  then have "fits16 (kem_poly_sub a b)" by (rule fits16I) (use n assms(3) in simp)
  from kem_poly_reduce_correct [OF this] n show "kem_reduced (kem_poly_reduce (kem_poly_sub a b))"
    "j < 256 \<Longrightarrow> zq (kem_poly_reduce (kem_poly_sub a b) ! j) = zq (a ! j) - zq (b ! j)" by simp_all
qed

lemma hat_cong_poly: "hat A r \<Longrightarrow> (\<And>j. j < 256 \<Longrightarrow> A j = B j) \<Longrightarrow> hat B r"
  unfolding hat_iff residue_def by (auto intro!: sum.cong)

lemma dec_ring:
  assumes u: "\<forall>p \<in> set u. kem_reduced p" "length u = K" and v: "kem_reduced v" and K: "2 \<le> K" "K \<le> 4"
    and s: "\<forall>i<K. kem_reduced (sh ! i) \<and> hat (Sv i) (sh ! i)" "length sh = K"
  obtains mp where "kem_indcpa_dec K (kem_pack_ciphertext K u v) (kem_polyvec_tobytes sh @ rest) = kem_poly_tomsg mp"
    and "kem_reduced mp"
    and "\<And>j. j < 256 \<Longrightarrow> zq (mp ! j) = zq (kem_lossy (kem_dv K) (v ! j)) -
        pdot K Sv (\<lambda>i j. zq (kem_lossy (kem_du K) (u ! i ! j))) j"
proof -
  have rs: "\<forall>p \<in> set sh. kem_reduced p" using s by (auto simp: in_set_conv_nth)
  define sm where "sm = map (map (\<lambda>x. x mod ML_KEM_Q)) sh"
  define bp where "bp = map (\<lambda>p. kem_poly_ntt (map (kem_lossy (kem_du K)) p)) u"
  define w where "w = kem_poly_invntt_tomont (kem_polyvec_pointwise_acc_montgomery K sm bp)"
  define mp where "mp = kem_poly_reduce (kem_poly_sub (map (kem_lossy (kem_dv K)) v) w)"
  have "kem_indcpa_dec K (kem_pack_ciphertext K u v) (kem_polyvec_tobytes sh @ rest) = kem_poly_tomsg mp"
    using kem_unpack_pack_ciphertext [OF u K(1) v] kem_polyvec_frombytes_tobytes [OF rs s(2)]
    by (simp add: kem_indcpa_dec_def kem_unpack_sk_def mp_def w_def bp_def sm_def kem_polyvec_ntt_def comp_def)
  moreover
  have sh: "kem_reduced (sm ! i) \<and> hat (Sv i) (sm ! i)" if "i < K" for i
    using s(1) that s(2) kem_mod_reduced [OF hat_length] kem_mod_hat by (fastforce simp: sm_def)
  have bh: "kem_reduced (bp ! i) \<and> hat (\<lambda>j. zq (kem_lossy (kem_du K) (u ! i ! j))) (bp ! i)" if "i < K" for i
  proof -
    have "kem_reduced (u ! i)" using u that by simp
    then have l: "length (map (kem_lossy (kem_du K)) (u ! i)) = 256" by (simp add: kem_reduced_def)
    have "\<bar>kem_lossy d x\<bar> \<le> 9471" for d x using kem_lossy_range [of d x] by (simp add: ML_KEM_Q_def)
    then have "hat (val (map (kem_lossy (kem_du K)) (u ! i))) (bp ! i)" "kem_reduced (bp ! i)"
      using kem_poly_ntt_hat [OF l] l that u(2) by (simp_all add: bp_def)
    then show ?thesis using l by (auto elim!: hat_cong_poly)
  qed
  have acc: "hat (\<lambda>j. kem_Rinv * pdot K Sv (\<lambda>i j. zq (kem_lossy (kem_du K) (u ! i ! j))) j) (kem_polyvec_pointwise_acc_montgomery K sm bp)"
    "kem_reduced (kem_polyvec_pointwise_acc_montgomery K sm bp)"
    by (rule kem_pointwise_acc_hat; use sh bh K in force)+
  note W = kem_poly_invntt_hat [OF acc(2,1), folded w_def]
  have lv: "length (map (kem_lossy (kem_dv K)) v) = 256" using v by (simp add: kem_reduced_def)
  have "\<bar>map (kem_lossy (kem_dv K)) v ! j - w ! j\<bar> < 2 ^ 15" if "j < 256" for j
    using W(3) [OF that] kem_lossy_range [of "kem_dv K" "v ! j"] that lv by (simp add: ML_KEM_Q_def)
  note R = kem_sub_reduce [OF lv W(1) this, folded mp_def]
  ultimately show thesis
    using that R lv W(2) by (simp add: mult.assoc [symmetric] kem_R_inv)
qed

section \<open>Decryption recovers the message\<close>

text \<open>
  The error that decryption sees in coefficient \<open>j\<close>: \<open>e\<^sup>T r + e2 + dv - s\<^sup>T (e1 + du)\<close>, where \<open>du\<close> and
  \<open>dv\<close> are what compressing the ciphertext loses.
\<close>

definition kem_noise :: "kem_sym \<Rightarrow> nat \<Rightarrow> bytes \<Rightarrow> bytes \<Rightarrow> polyvec \<Rightarrow> poly \<Rightarrow> nat \<Rightarrow> zq" where
  "kem_noise S K noiseseed coins u v j =
     (let s = (\<lambda>i. val (kem_poly_getnoise_eta1 S K noiseseed (of_nat i)));
          e = (\<lambda>i. val (kem_poly_getnoise_eta1 S K noiseseed (of_nat (K + i))));
          r = (\<lambda>i. val (kem_poly_getnoise_eta1 S K coins (of_nat i)));
          e1 = (\<lambda>i. val (kem_poly_getnoise_eta2 S coins (of_nat (K + i))));
          e2 = val (kem_poly_getnoise_eta2 S coins (of_nat (2 * K)));
          du = (\<lambda>i l. zq (kem_lossy (kem_du K) (u ! i ! l) - u ! i ! l));
          dv = zq (kem_lossy (kem_dv K) (v ! j) - v ! j)
      in pdot K e r j + e2 j + dv - pdot K s (\<lambda>i l. e1 i l + du i l) j)"

definition kem_noise_small :: "(nat \<Rightarrow> zq) \<Rightarrow> bool" where
  "kem_noise_small n \<longleftrightarrow> (\<forall>j<256. \<exists>w. \<bar>w\<bar> < 832 \<and> n j = zq w)"

context kem_primitives
begin

lemma pke_correct:
  assumes kp: "kem_indcpa_keypair S K d = Some (pk, sk)" and K: "2 \<le> K" "K \<le> 4" and m: "length m = 32"
    and enc: "kem_indcpa_enc_polys S K m pk coins = Some (u, v)"
    and noise: "kem_noise_small (kem_noise S K
      (bslice ML_KEM_SYMBYTES ML_KEM_SYMBYTES (kem_hash_g S (take ML_KEM_SYMBYTES d @ [of_nat K]))) coins u v)"
  shows "kem_indcpa_dec K (kem_pack_ciphertext K u v) (sk @ rest) = m"
proof -
  have K1: "1 \<le> K" using K by simp
  define ns where "ns = bslice ML_KEM_SYMBYTES ML_KEM_SYMBYTES (kem_hash_g S (take ML_KEM_SYMBYTES d @ [of_nat K]))"
  define seed where "seed = take ML_KEM_SYMBYTES (kem_hash_g S (take ML_KEM_SYMBYTES d @ [of_nat K]))"
  define s where "s i = kem_poly_getnoise_eta1 S K ns (of_nat i)" for i
  define e where "e i = kem_poly_getnoise_eta1 S K ns (of_nat (K + i))" for i
  define r where "r i = kem_poly_getnoise_eta1 S K coins (of_nat i)" for i
  define e1 where "e1 i = kem_poly_getnoise_eta2 S coins (of_nat (K + i))" for i
  define e2 where "e2 = kem_poly_getnoise_eta2 S coins (of_nat (2 * K))"
  define du where "du i l = zq (kem_lossy (kem_du K) (u ! i ! l) - u ! i ! l)" for i l
  define dv where "dv j = zq (kem_lossy (kem_dv K) (v ! j) - v ! j)" for j
  define T where "T A i j = pdot K (A i) (\<lambda>i. val (s i)) j + val (e i) j" for A i j
  obtain a A t where a: "kem_gen_a S K seed = Some a" "\<forall>i<K. \<forall>j<K. kem_reduced (a ! i ! j) \<and> hat (A i j) (a ! i ! j)"
    and sk: "sk = kem_polyvec_tobytes (map (\<lambda>i. kem_poly_ntt (s i)) [0..<K])" and pk: "pk = kem_polyvec_tobytes t @ seed"
    and t: "length t = K" "\<forall>i<K. kem_reduced (t ! i) \<and> hat (T A i) (t ! i)"
    by (rule keypair_ring [OF kp K1 K(2), folded ns_def seed_def, folded e_def, folded s_def, folded T_def])
  have seed: "length seed = ML_KEM_SYMBYTES" by (simp add: seed_def hash_g_length)
  note E = enc_ring [OF enc [unfolded pk] K1 K(2) a t m seed, folded r_def e1_def e2_def]
  have ur: "\<forall>p \<in> set u. kem_reduced p" using E(1,2) by (auto simp: in_set_conv_nth)
  have sh: "\<forall>i<K. kem_reduced (map (\<lambda>i. kem_poly_ntt (s i)) [0..<K] ! i) \<and> hat (val (s i)) (map (\<lambda>i. kem_poly_ntt (s i)) [0..<K] ! i)"
    using noise_hat [OF getnoise_eta1] by (simp add: s_def)
  obtain mp where mp: "kem_indcpa_dec K (kem_pack_ciphertext K u v) (sk @ rest) = kem_poly_tomsg mp" "kem_reduced mp"
    "\<And>j. j < 256 \<Longrightarrow> zq (mp ! j) = zq (kem_lossy (kem_dv K) (v ! j)) - pdot K (\<lambda>i. val (s i)) (\<lambda>i j. zq (kem_lossy (kem_du K) (u ! i ! j))) j"
    unfolding sk by (rule dec_ring [OF ur E(1,3) K sh, of rest]) (simp, blast)
  have "kem_poly_tomsg mp = m"
  proof (rule kem_tomsg_noise [OF mp(2) m])
    fix j :: nat assume j: "j < 256"
    define AR where "AR i = pdot K (\<lambda>l. A l i) (\<lambda>i. val (r i))" for i
    have "pdot K (\<lambda>i. val (s i)) (\<lambda>i j. zq (kem_lossy (kem_du K) (u ! i ! j))) j = pdot K (\<lambda>i. val (s i)) (\<lambda>i l. AR i l + (val (e1 i) l + du i l)) j"
      by (rule pdot_cong) (use E(4) in \<open>simp_all add: du_def AR_def\<close>)
    then have 1: "zq (mp ! j) = zq (v ! j) + dv j - pdot K (\<lambda>i. val (s i)) AR j - pdot K (\<lambda>i. val (s i)) (\<lambda>i l. val (e1 i) l + du i l) j"
      unfolding mp(3) [OF j] pdot_add_right [of K _ AR] by (simp add: dv_def)
    have "pdot K (T A) (\<lambda>i. val (r i)) j = pdot K (\<lambda>i. pdot K (A i) (\<lambda>i. val (s i))) (\<lambda>i. val (r i)) j + pdot K (\<lambda>i. val (e i)) (\<lambda>i. val (r i)) j"
      using pdot_add_left [of K "\<lambda>i. pdot K (A i) (\<lambda>i. val (s i))" "\<lambda>i. val (e i)" "\<lambda>i. val (r i)" j] by (simp add: T_def [abs_def])
    then have 2: "zq (v ! j) = pdot K (\<lambda>i. val (s i)) AR j + pdot K (\<lambda>i. val (e i)) (\<lambda>i. val (r i)) j + val e2 j + zq (kem_poly_frommsg m ! j)"
      unfolding E(5) [OF j] pdot_transpose [OF j, of K A] AR_def by simp
    have "kem_noise S K ns coins u v j = pdot K (\<lambda>i. val (e i)) (\<lambda>i. val (r i)) j + val e2 j + dv j - pdot K (\<lambda>i. val (s i)) (\<lambda>i l. val (e1 i) l + du i l) j"
      unfolding kem_noise_def Let_def s_def e_def r_def e1_def e2_def du_def dv_def by (rule refl)
    moreover obtain w where "\<bar>w\<bar> < 832" "kem_noise S K ns coins u v j = zq w"
      using noise j by (auto simp: kem_noise_small_def ns_def)
    ultimately have "\<bar>w\<bar> < 832" "zq (mp ! j) = zq (kem_poly_frommsg m ! j + w)" using 1 2 by simp_all
    then show "\<exists>e. \<bar>e\<bar> < 832 \<and> ML_KEM_Q dvd mp ! j - (kem_poly_frommsg m ! j + e)" unfolding zq_eq_iff by blast
  qed
  then show ?thesis using mp(1) by simp
qed

end

section \<open>Sizes\<close>

lemma kem_ciphertext_length:
  assumes "length u = K" and "2 \<le> K"
  shows "length (kem_pack_ciphertext K u v) = ML_KEM_CIPHERTEXTBYTES K"
  using assms
  by (simp add: kem_pack_ciphertext_def kem_polyvec_compress_def kem_polyvec_compress352_def kem_polyvec_compress320_def
      kem_poly_compress_def kem_poly_compress128_def kem_poly_compress160_def length_concat comp_def Let_def
      sum_list_triv ML_KEM_CIPHERTEXTBYTES_def ML_KEM_INDCPA_BYTES_def ML_KEM_POLYVECCOMPRESSEDBYTES_def
      ML_KEM_POLYCOMPRESSEDBYTES_def ML_KEM_N_def del: upt_rec_numeral)

lemma kem_polyvec_tobytes_size: "length (kem_polyvec_tobytes a) = ML_KEM_POLYVECBYTES (length a)"
  by (simp add: kem_polyvec_tobytes_def kem_poly_tobytes_def length_concat comp_def Let_def sum_list_triv
      ML_KEM_POLYVECBYTES_def ML_KEM_POLYBYTES_def ML_KEM_N_def del: upt_rec_numeral)

lemma kem_enc_polys_shape: "kem_indcpa_enc_polys S K m pk coins = Some (u, v) \<Longrightarrow> length u = K"
  by (auto simp: kem_indcpa_enc_polys_def Let_def case_prod_beta kem_polyvec_reduce_def kem_polyvec_add_def
      kem_polyvec_invntt_tomont_def split: option.splits)

lemma kem_indcpa_enc_length:
  "kem_indcpa_enc S K m pk coins = Some ct \<Longrightarrow> 2 \<le> K \<Longrightarrow> length ct = ML_KEM_CIPHERTEXTBYTES K"
  by (auto simp: kem_indcpa_enc_def kem_enc_polys_shape kem_ciphertext_length split: option.splits)

lemma kem_polyvec_frombytes_append:
  assumes "length x = ML_KEM_POLYVECBYTES K"
  shows "kem_polyvec_frombytes K (x @ rest) = kem_polyvec_frombytes K x"
proof -
  have "bslice (i * ML_KEM_POLYBYTES) ML_KEM_POLYBYTES (x @ rest) = bslice (i * ML_KEM_POLYBYTES) ML_KEM_POLYBYTES x" if "i < K" for i
  proof -
    have "Suc i * ML_KEM_POLYBYTES \<le> K * ML_KEM_POLYBYTES" using that by (intro mult_right_mono) simp_all
    then have "i * ML_KEM_POLYBYTES + ML_KEM_POLYBYTES \<le> length x" using assms by (simp add: ML_KEM_POLYVECBYTES_def)
    then show ?thesis by (simp add: bslice_def)
  qed
  then show ?thesis by (simp add: kem_polyvec_frombytes_def)
qed

lemma kem_unpack_pk_append:
  assumes "length pk = ML_KEM_PUBLICKEYBYTES K"
  shows "kem_unpack_pk K (pk @ rest) = kem_unpack_pk K pk"
proof -
  define x y where "x = take (ML_KEM_POLYVECBYTES K) pk" and "y = drop (ML_KEM_POLYVECBYTES K) pk"
  have l: "length x = ML_KEM_POLYVECBYTES K" "length y = ML_KEM_SYMBYTES"
    using assms by (simp_all add: x_def y_def ML_KEM_PUBLICKEYBYTES_def ML_KEM_INDCPA_PUBLICKEYBYTES_def)
  have "pk = x @ y" by (simp add: x_def y_def)
  then show ?thesis using l kem_polyvec_frombytes_append [OF l(1), of "y @ rest"] kem_polyvec_frombytes_append [OF l(1), of y]
    by (simp add: kem_unpack_pk_def bslice_def)
qed

lemma kem_indcpa_enc_append:
  "length pk = ML_KEM_PUBLICKEYBYTES K \<Longrightarrow> kem_indcpa_enc S K m (pk @ rest) coins = kem_indcpa_enc S K m pk coins"
  by (simp add: kem_indcpa_enc_def kem_indcpa_enc_polys_def kem_unpack_pk_append)

lemma kem_indcpa_keypair_length:
  assumes "kem_indcpa_keypair S K d = Some (pk, sk)" and "\<And>m. length (kem_hash_g S m) = 2 * ML_KEM_SYMBYTES"
  shows "length pk = ML_KEM_PUBLICKEYBYTES K" and "length sk = ML_KEM_INDCPA_SECRETKEYBYTES K"
  using assms
  by (auto simp: kem_indcpa_keypair_def Let_def kem_pack_pk_def kem_pack_sk_def kem_polyvec_tobytes_size kem_polyvec_reduce_def
      kem_polyvec_add_def kem_polyvec_ntt_def ML_KEM_PUBLICKEYBYTES_def ML_KEM_INDCPA_PUBLICKEYBYTES_def
      ML_KEM_INDCPA_SECRETKEYBYTES_def split: option.splits)

section \<open>Comparison and conditional move\<close>

lemma or_fold_zero:
  "fold (\<lambda>i r. r OR f i) xs (r0 :: u8) = 0 \<longleftrightarrow> r0 = 0 \<and> (\<forall>i \<in> set xs. f i = 0)"
proof (induction xs arbitrary: r0)
  case (Cons x xs)
  have "r0 OR f x = 0 \<longleftrightarrow> r0 = 0 \<and> f x = 0" by (auto simp: bit_eq_iff bit_or_iff)
  then show ?case using Cons by auto
qed simp

lemma kem_verify_flag: "sint (ucast (drop_bit 63 (- ucast r :: u64)) :: u32) = (if r = 0 then 0 else 1)" for r :: u8
proof (cases "r = 0")
  case False
  then have "0 < uint r" by (simp add: less_le uint_0_iff)
  moreover have "uint r < 256" using uint_bounded [of r] by simp
  ultimately have "uint (- ucast r :: u64) = 2 ^ 64 - uint r" "(2 ^ 64 - uint r) div 2 ^ 63 = 1"
    by (simp_all add: uint_word_ariths(4) unsigned_ucast_eq take_bit_eq_mod zmod_zminus1_eq_if)
  then have "drop_bit 63 (- ucast r :: u64) = 1"
    by (simp add: word_eq_iff_unsigned unsigned_drop_bit_eq drop_bit_eq_div word_uint_eq_iff uint_div)
  then show ?thesis using False by simp
qed simp

lemma kem_verify_correct:
  assumes "length a = len" "length b = len"
  shows "kem_verify a b len = (if a = b then 0 else 1)"
proof -
  have x: "x XOR y = 0 \<longleftrightarrow> x = y" for x y :: u8
  proof
    assume "x XOR y = 0"
    then have "(x XOR y) XOR y = 0 XOR y" by (rule arg_cong)
    then show "x = y" by (simp only: xor.assoc xor_self_eq xor.right_neutral xor.left_neutral)
  qed (simp only: xor_self_eq)
  have "a = b \<longleftrightarrow> fold (\<lambda>i r. r OR (a ! i XOR b ! i)) [0..<len] (0 :: u8) = 0"
    using assms unfolding or_fold_zero list_eq_iff_nth_eq x by auto
  then show ?thesis by (simp add: kem_verify_def Let_def kem_verify_flag)
qed

lemma fold_update_each:
  assumes "len \<le> length r"
  shows "fold (\<lambda>i r. r[i := f i (r ! i)]) [0..<len] r = map (\<lambda>i. f i (r ! i)) [0..<len] @ drop len r"
  using assms
proof (induction len)
  case (Suc n)
  then have IH: "fold (\<lambda>i r. r[i := f i (r ! i)]) [0..<n] r = map (\<lambda>i. f i (r ! i)) [0..<n] @ drop n r" by simp
  have d: "drop n r = r ! n # drop (Suc n) r" using Suc.prems by (simp add: Cons_nth_drop_Suc)
  show ?case unfolding upt_Suc_append [OF le0] fold_append comp_def IH d by (simp add: nth_append list_update_append)
qed simp

lemma kem_cmov_correct:
  assumes "len \<le> length r" "len \<le> length x"
  shows "kem_cmov r x len 1 = take len x @ drop len r" and "kem_cmov r x len 0 = r"
proof -
  have 1: "c XOR (- 1 AND (c XOR d)) = d" for c d :: u8 by (simp add: xor.assoc [symmetric])
  have "map ((!) x) [0..<len] = take len x" using assms by (intro nth_equalityI) simp_all
  then show "kem_cmov r x len 1 = take len x @ drop len r"
    using fold_update_each [OF assms(1), of "\<lambda>i c. c XOR (- 1 AND (c XOR x ! i))"] by (simp add: kem_cmov_def 1)
  have "map ((!) r) [0..<len] = take len r" using assms by (intro nth_equalityI) simp_all
  then show "kem_cmov r x len 0 = r"
    using fold_update_each [OF assms(1), of "\<lambda>i c. c XOR (0 AND (c XOR x ! i))"] by (simp add: kem_cmov_def)
qed

section \<open>Decapsulation\<close>

text \<open>The secret of decapsulation as FIPS 203 states it: the re-encryption decides between the two keys.\<close>

definition kem_decaps_spec :: "kem_sym \<Rightarrow> nat \<Rightarrow> bytes \<Rightarrow> bytes \<Rightarrow> bytes \<Rightarrow> bytes \<Rightarrow> bytes \<Rightarrow> bytes option" where
  "kem_decaps_spec S K dk ek h z ct =
     (let m' = kem_indcpa_dec K ct dk;
          kr = kem_hash_g S (m' @ h)
      in map_option (\<lambda>ct'. if ct = ct' then take 32 kr else kem_rkprf S z ct)
           (kem_indcpa_enc S K m' ek (drop 32 kr)))"

lemma kem_poly_tomsg_length: "length (kem_poly_tomsg a) = 32"
  by (simp add: kem_poly_tomsg_def ML_KEM_N_def)

lemma kem_indcpa_dec_length: "length (kem_indcpa_dec K c sk) = 32"
  by (simp add: kem_indcpa_dec_def Let_def case_prod_beta kem_poly_tomsg_length)

lemma kem_indcpa_dec_append:
  "length sk = ML_KEM_INDCPA_SECRETKEYBYTES K \<Longrightarrow> kem_indcpa_dec K c (sk @ rest) = kem_indcpa_dec K c sk"
  by (simp add: kem_indcpa_dec_def kem_unpack_sk_def kem_polyvec_frombytes_append ML_KEM_INDCPA_SECRETKEYBYTES_def)

lemmas kem_sizes = ML_KEM_SYMBYTES_def ML_KEM_SSBYTES_def ML_KEM_INDCPA_MSGBYTES_def ML_KEM_SECRETKEYBYTES_def
  ML_KEM_PUBLICKEYBYTES_def ML_KEM_INDCPA_PUBLICKEYBYTES_def ML_KEM_INDCPA_SECRETKEYBYTES_def

context kem_primitives
begin

lemma dec_spec:
  assumes dk: "length dk = ML_KEM_INDCPA_SECRETKEYBYTES K" and ek: "length ek = ML_KEM_PUBLICKEYBYTES K"
    and h: "length h = ML_KEM_SYMBYTES" and z: "length z = ML_KEM_SYMBYTES"
    and ct: "length ct = ML_KEM_CIPHERTEXTBYTES K" and K: "2 \<le> K"
  shows "crypto_kem_dec S K ct (dk @ ek @ h @ z) = kem_decaps_spec S K dk ek h z ct"
proof -
  define m where "m = kem_indcpa_dec K ct dk"
  define kr where "kr = kem_hash_g S (m @ h)"
  have lm: "length m = 32" by (simp add: m_def kem_indcpa_dec_length)
  have lk: "length kr = 64" using hash_g_length by (simp add: kr_def ML_KEM_SYMBYTES_def)
  have sl: "bslice (ML_KEM_SECRETKEYBYTES K - 2 * ML_KEM_SYMBYTES) ML_KEM_SYMBYTES (dk @ ek @ h @ z) = h"
    "bslice (ML_KEM_SECRETKEYBYTES K - ML_KEM_SYMBYTES) ML_KEM_SYMBYTES (dk @ ek @ h @ z) = z"
    "bslice ML_KEM_SYMBYTES ML_KEM_SYMBYTES kr = drop 32 kr"
    using dk ek h z lk by (simp_all add: bslice_def kem_sizes)
  have tk: "take ML_KEM_INDCPA_MSGBYTES (m @ h) = m" by (simp add: lm kem_sizes)
  have code: "crypto_kem_dec S K ct (dk @ ek @ h @ z) = (case kem_indcpa_enc S K m ek (drop 32 kr) of None \<Rightarrow> None
      | Some cmp \<Rightarrow> let fail = kem_verify ct cmp (ML_KEM_CIPHERTEXTBYTES K)
          in Some (kem_cmov (kem_rkprf S z ct) kr ML_KEM_SYMBYTES (if fail = 0 then 1 else 0)))"
    using kem_indcpa_dec_append [OF dk, of ct "ek @ h @ z"] kem_indcpa_enc_append [OF ek, of S m "h @ z"] dk ct
    by (simp only: crypto_kem_dec_def Let_def sl m_def [symmetric] kr_def [symmetric] tk take_all order_refl
        dk [symmetric] append_eq_conv_conj [THEN iffD1, OF refl, THEN conjunct2, symmetric])
  show ?thesis
  proof (cases "kem_indcpa_enc S K m ek (drop 32 kr)")
    case None
    then show ?thesis by (simp add: code kem_decaps_spec_def m_def kr_def Let_def)
  next
    case (Some c)
    then have lc: "length c = ML_KEM_CIPHERTEXTBYTES K" using K by (rule kem_indcpa_enc_length)
    have r: "length (kem_rkprf S z ct) = 32" by (simp add: rkprf_length ML_KEM_SSBYTES_def)
    show ?thesis
      using Some kem_verify_correct [OF ct lc] kem_cmov_correct [of 32 "kem_rkprf S z ct" kr] lk r
      unfolding code by (cases "ct = c") (simp_all add: kem_decaps_spec_def m_def kr_def Let_def ML_KEM_SYMBYTES_def)
  qed
qed

lemma keypair_layout:
  assumes "crypto_kem_keypair_internal S K coins = Some (pk, sk)" and "2 * ML_KEM_SYMBYTES \<le> length coins"
  obtains dk where "kem_indcpa_keypair S K coins = Some (pk, dk)"
    and "sk = dk @ pk @ kem_hash_h S pk @ bslice ML_KEM_SYMBYTES ML_KEM_SYMBYTES coins"
    and "length dk = ML_KEM_INDCPA_SECRETKEYBYTES K" and "length pk = ML_KEM_PUBLICKEYBYTES K"
    and "length (bslice ML_KEM_SYMBYTES ML_KEM_SYMBYTES coins) = ML_KEM_SYMBYTES"
  using assms kem_indcpa_keypair_length [OF _ hash_g_length]
  by (auto simp: crypto_kem_keypair_internal_def bslice_def split: option.splits)

lemma keypair_lengths:
  assumes "crypto_kem_keypair_internal S K coins = Some (pk, sk)" and "2 * ML_KEM_SYMBYTES \<le> length coins"
  shows "length pk = ML_KEM_PUBLICKEYBYTES K \<and> length sk = ML_KEM_SECRETKEYBYTES K"
  by (rule keypair_layout [OF assms]) (simp add: hash_h_length ML_KEM_SECRETKEYBYTES_def ML_KEM_PUBLICKEYBYTES_def)

lemma enc_lengths:
  assumes "crypto_kem_enc_internal S K pk coins = Some (ct, ss)" and "2 \<le> K"
  shows "length ct = ML_KEM_CIPHERTEXTBYTES K \<and> length ss = ML_KEM_SSBYTES"
  using assms kem_indcpa_enc_length
  by (auto simp: crypto_kem_enc_internal_def Let_def hash_g_length ML_KEM_SSBYTES_def ML_KEM_SYMBYTES_def split: option.splits)

lemma kem_correct:
  assumes kp: "crypto_kem_keypair_internal S K d = Some (pk, sk)" "2 * ML_KEM_SYMBYTES \<le> length d"
    and K: "2 \<le> K" "K \<le> 4" and m: "length m = ML_KEM_SYMBYTES"
    and enc: "crypto_kem_enc_internal S K pk m = Some (ct, ss)"
    and polys: "kem_indcpa_enc_polys S K m pk (drop 32 (kem_hash_g S (m @ kem_hash_h S pk))) = Some (u, v)"
    and noise: "kem_noise_small (kem_noise S K
      (bslice ML_KEM_SYMBYTES ML_KEM_SYMBYTES (kem_hash_g S (take ML_KEM_SYMBYTES d @ [of_nat K])))
      (drop 32 (kem_hash_g S (m @ kem_hash_h S pk))) u v)"
  shows "crypto_kem_dec S K ct sk = Some ss"
proof -
  obtain dk where dk: "kem_indcpa_keypair S K d = Some (pk, dk)"
    and sk: "sk = dk @ pk @ kem_hash_h S pk @ bslice ML_KEM_SYMBYTES ML_KEM_SYMBYTES d"
    and l: "length dk = ML_KEM_INDCPA_SECRETKEYBYTES K" "length pk = ML_KEM_PUBLICKEYBYTES K"
      "length (bslice ML_KEM_SYMBYTES ML_KEM_SYMBYTES d) = ML_KEM_SYMBYTES"
    by (rule keypair_layout [OF kp])
  define kr where "kr = kem_hash_g S (m @ kem_hash_h S pk)"
  have b: "bslice 32 32 kr = drop 32 kr" using hash_g_length [of "m @ kem_hash_h S pk"]
    by (simp add: bslice_def kr_def ML_KEM_SYMBYTES_def)
  have e: "kem_indcpa_enc S K m pk (drop 32 kr) = Some (kem_pack_ciphertext K u v)"
    using polys by (simp add: kem_indcpa_enc_def kr_def)
  with enc m b have ct: "ct = kem_pack_ciphertext K u v" "ss = take 32 kr"
    by (auto simp: crypto_kem_enc_internal_def Let_def ML_KEM_SYMBYTES_def ML_KEM_INDCPA_MSGBYTES_def kr_def)
  have "kem_indcpa_dec K ct dk = m"
    using pke_correct [OF dk K _ polys noise, of "[]"] m by (simp add: ct ML_KEM_SYMBYTES_def)
  then have "kem_decaps_spec S K dk pk (kem_hash_h S pk) (bslice ML_KEM_SYMBYTES ML_KEM_SYMBYTES d) ct = Some ss"
    using e by (simp add: kem_decaps_spec_def Let_def kr_def ct)
  then show ?thesis
    using dec_spec [OF l(1,2) hash_h_length l(3) _ K(1)] kem_ciphertext_length [OF kem_enc_polys_shape [OF polys] K(1)] sk ct by simp
qed

end

section \<open>Products through the transform\<close>

lemma zq_negacyclic: "zq (negacyclic 256 A B j) = pmul (\<lambda>i. zq (A i)) (\<lambda>i. zq (B i)) j"
  unfolding negacyclic_def of_int_sum by (intro sum.cong refl) simp

lemma kem_ntt_dot:
  assumes "length a = K" "length b = K" "1 \<le> K" "K \<le> 4"
    and a: "\<And>p. p \<in> set a \<union> set b \<Longrightarrow> length p = 256 \<and> (\<forall>x \<in> set p. \<bar>x\<bar> \<le> 9471)" and j: "j < 256"
  defines "r \<equiv> kem_poly_invntt_tomont (kem_polyvec_pointwise_acc_montgomery K (kem_polyvec_ntt a) (kem_polyvec_ntt b))"
  shows "r ! j mod ML_KEM_Q = (\<Sum>i<K. negacyclic 256 ((!) (a ! i)) ((!) (b ! i)) j) mod ML_KEM_Q"
    and "\<bar>r ! j\<bar> < ML_KEM_Q"
proof -
  have h: "kem_reduced (kem_poly_ntt p) \<and> hat (val p) (kem_poly_ntt p)" if "p \<in> set a \<union> set b" for p
    using kem_poly_ntt_hat [of p] a [OF that] by simp
  have acc: "hat (\<lambda>j. kem_Rinv * pdot K (\<lambda>i. val (a ! i)) (\<lambda>i. val (b ! i)) j)
      (kem_polyvec_pointwise_acc_montgomery K (kem_polyvec_ntt a) (kem_polyvec_ntt b))"
    "kem_reduced (kem_polyvec_pointwise_acc_montgomery K (kem_polyvec_ntt a) (kem_polyvec_ntt b))"
    by (rule kem_pointwise_acc_hat [where A = "\<lambda>i. val (a ! i)" and B = "\<lambda>i. val (b ! i)"];
      use h assms(1-4) in \<open>simp add: kem_polyvec_ntt_def\<close>)+
  note I = kem_poly_invntt_hat [OF acc(2,1), folded r_def]
  have "zq (r ! j) = zq (\<Sum>i<K. negacyclic 256 ((!) (a ! i)) ((!) (b ! i)) j)"
    using I(2) [OF j] by (simp only: of_int_sum zq_negacyclic pdot_def [symmetric] mult.assoc [symmetric] kem_R_inv mult_1)
  then show "r ! j mod ML_KEM_Q = (\<Sum>i<K. negacyclic 256 ((!) (a ! i)) ((!) (b ! i)) j) mod ML_KEM_Q"
    unfolding zq_eq_iff mod_eq_dvd_iff .
  show "\<bar>r ! j\<bar> < ML_KEM_Q" using I(3) [OF j] .
qed

section \<open>An instance without noise\<close>

text \<open>Primitives that return constants: the matrix, the secrets and the noise are zero.\<close>

definition kem_constant :: kem_sym where
  "kem_constant = \<lparr>kem_hash_h = \<lambda>m. replicate 32 1, kem_hash_g = \<lambda>m. replicate 64 2,
     kem_prf = \<lambda>n key nonce. replicate n 0, kem_rkprf = \<lambda>key ct. replicate 32 3,
     kem_gen_poly = \<lambda>seed x y. Some (replicate 256 0)\<rparr>"

interpretation kem_constant_primitives: kem_primitives kem_constant
  by unfold_locales (auto simp: kem_constant_def kem_sizes ML_KEM_Q_def)

lemma kem_constant_noise:
  "kem_poly_getnoise_eta1 kem_constant K seed nonce = replicate 256 0"
  "kem_poly_getnoise_eta2 kem_constant seed nonce = replicate 256 0"
proof -
  have b: "bit_count (bslice i n (byte_bits (replicate k 0))) = 0" for i n k
  proof -
    have "b = False" if "b \<in> set (byte_bits (replicate k 0))" for b using that by (auto simp: byte_bits_def bits_def split: if_splits)
    then have "\<forall>b \<in> set (bslice i n (byte_bits (replicate k 0))). \<not> b" by (auto simp: bslice_def dest: in_set_takeD in_set_dropD)
    moreover have "\<forall>b \<in> set bs. \<not> b \<Longrightarrow> bit_count bs = 0" for bs by (induction bs) (auto simp: bit_count_def)
    ultimately show ?thesis by blast
  qed
  show "kem_poly_getnoise_eta1 kem_constant K seed nonce = replicate 256 0"
    "kem_poly_getnoise_eta2 kem_constant seed nonce = replicate 256 0"
    by (simp_all add: kem_poly_getnoise_eta1_def kem_poly_getnoise_eta2_def kem_cbd_eta1_def kem_cbd_eta2_def kem_constant_def
        ML_KEM_ETA1_def ML_KEM_ETA2_def ML_KEM_N_def kem_cbd2_spec kem_cbd3_spec cbd_spec_def b map_replicate_trivial
        map_replicate_const)
qed

lemma kem_constant_noise_small: "kem_noise_small (kem_noise kem_constant K ns coins u v)"
proof -
  have z: "val (replicate 256 0) j = 0" if "j < 256" for j using that by simp
  have "\<exists>w. \<bar>w\<bar> < 832 \<and> kem_noise kem_constant K ns coins u v j = zq w" if j: "j < 256" for j
  proof -
    let ?d = "kem_dv K"
    obtain e where e: "ML_KEM_Q dvd Decompress ?d (Compress ?d (v ! j)) - v ! j - e" "?d = 4 \<Longrightarrow> \<bar>e\<bar> \<le> 104" "?d = 5 \<Longrightarrow> \<bar>e\<bar> \<le> 52"
      by (rule Compress_error_bounds [of ?d "v ! j"]) blast
    have "pdot K (\<lambda>i. val (replicate 256 0)) B j = 0" for B
      unfolding pdot_def negacyclic_def by (simp cong: if_cong)
    then have "kem_noise kem_constant K ns coins u v j = zq (kem_lossy ?d (v ! j) - v ! j)"
      using j by (simp add: kem_noise_def kem_constant_noise)
    moreover have "zq (kem_lossy ?d (v ! j) - v ! j) = zq e" using e(1) unfolding zq_eq_iff kem_lossy_def .
    moreover have "\<bar>e\<bar> < 832" using e(2,3) by (force simp: kem_dv_def split: if_splits)
    ultimately show ?thesis by metis
  qed
  then show ?thesis by (simp add: kem_noise_small_def)
qed

lemma kem_constant_gen: "kem_gen_matrix kem_constant K seed t = Some (replicate K (replicate K (replicate 256 0)))"
proof -
  have t: "those (replicate n (Some c)) = Some (replicate n c)" for c :: 'b and n by (induction n) simp_all
  show ?thesis by (cases t) (simp_all add: t kem_gen_matrix_def kem_constant_def map_replicate_const)
qed

lemma kem_constant_keypair: "\<exists>pk sk. crypto_kem_keypair_internal kem_constant K d = Some (pk, sk)"
  by (simp add: crypto_kem_keypair_internal_def kem_indcpa_keypair_def kem_gen_a_def kem_constant_gen Let_def)

lemma kem_constant_enc: "\<exists>u v. kem_indcpa_enc_polys kem_constant K m pk coins = Some (u, v)"
  by (simp add: kem_indcpa_enc_polys_def kem_gen_at_def kem_constant_gen Let_def case_prod_beta)

lemma kem_constant_encaps: "\<exists>ct ss. crypto_kem_enc_internal kem_constant K pk m = Some (ct, ss)"
proof -
  have "\<exists>ct. kem_indcpa_enc kem_constant K m' pk c = Some ct" for m' c
    using kem_constant_enc [of K m' pk c] by (auto simp: kem_indcpa_enc_def)
  then show ?thesis by (auto simp: crypto_kem_enc_internal_def Let_def split: option.splits)
qed

end
