(* ===== verification/Spec2Isabelle.thy ===== *)
theory Spec2Isabelle
  imports SLH_Sm3 MLKEM_Correct
begin

text \<open>
  A verification library for the post-quantum code of a TLCP/TLS monorepo (\<open>src/\<close>): the PQMagic
  implementations of SLH-DSA with their hash functions.

  \<^item> \<open>Prelude\<close>: byte buffers, counted loops, words.
  \<^item> \<open>SLH_Address\<close>, \<open>SLH_Interface\<close>, \<open>SLH_Tree\<close>, \<open>SLH_Wots\<close>, \<open>SLH_Fors\<close>, \<open>SLH_Sign\<close>: the scheme of
    \<open>pqmagic/sig/slh_dsa/std\<close>, over an interface of hash functions (a locale).
  \<^item> \<open>Keccak\<close>, \<open>Keccak_Spec\<close>, \<open>Keccak_Sponge\<close>: \<open>pqmagic/hash/keccak\<close>, FIPS 202, and their equivalence.
  \<^item> \<open>Sm3\<close>, \<open>Sm3_Spec\<close>, \<open>Sm3_Stream\<close>, \<open>Sm3_Mgf\<close>: \<open>pqmagic/hash/sm3\<close>, the standard, and their equivalence.
  \<^item> \<open>SLH_Shake\<close>, \<open>SLH_Sm3\<close>: the two instances of the hash interface.
  \<^item> \<open>Ntt_Algebra\<close>: the algebra of number-theoretic transforms.
\<close>

section \<open>SLH-DSA\<close>

text \<open>C1: for the SHAKE instance of SLH-DSA and every well-formed parameter set (in particular the six
  the repository builds), a signature made by \<open>crypto_sign_signature\<close> with a key pair of
  \<open>crypto_sign_seed_keypair\<close> is accepted by \<open>crypto_sign_verify\<close>, whatever the seed, the message, the
  randomness and the initial contents of the buffers and contexts.\<close>

theorem slh_dsa_shake_sign_verify:
  assumes "wf_params p" and "length seed = 3 * SPX_N p"
    and "length pk0 = SPX_PK_BYTES p" and "length sk0 = SPX_SK_BYTES p" and "length sig0 = SPX_BYTES p"
    and "length auth_path = SPX_WOTS_BYTES p + SPX_TREE_HEIGHT p * SPX_N p"
  shows "case crypto_sign_seed_keypair p (shake_hash p) ctx1 auth_path pk0 sk0 seed of (ret1, pk, sk) \<Rightarrow>
         case crypto_sign_signature p (shake_hash p) ctx2 optrand sig0 m sk of (ret2, sig, siglen) \<Rightarrow>
           crypto_sign_verify p (shake_hash p) ctx3 sig siglen m pk = 0"
  using spx_hash_laws.sign_then_verify [OF shake_hash_laws(1) [OF assms(1)] assms(2-4,6,5)]
  by (simp split: prod.splits)

theorem slh_dsa_shake_sign_verify_witness:
  "case crypto_sign_seed_keypair slh_dsa_shake_128f (shake_hash slh_dsa_shake_128f) (spx_ctx.make [] [] [] [])
      (replicate (SPX_WOTS_BYTES slh_dsa_shake_128f + SPX_TREE_HEIGHT slh_dsa_shake_128f * SPX_N slh_dsa_shake_128f) 0)
      (replicate (SPX_PK_BYTES slh_dsa_shake_128f) 0) (replicate (SPX_SK_BYTES slh_dsa_shake_128f) 0)
      (replicate (3 * SPX_N slh_dsa_shake_128f) 7) of (ret1, pk, sk) \<Rightarrow>
    case crypto_sign_signature slh_dsa_shake_128f (shake_hash slh_dsa_shake_128f) (spx_ctx.make [] [] [] [])
      (replicate (SPX_N slh_dsa_shake_128f) 9) (replicate (SPX_BYTES slh_dsa_shake_128f) 0) [1, 2, 3] sk
      of (ret2, sig, siglen) \<Rightarrow>
      crypto_sign_verify slh_dsa_shake_128f (shake_hash slh_dsa_shake_128f) (spx_ctx.make [] [] [] [])
        sig siglen [1, 2, 3] pk = 0"
  by (rule slh_dsa_shake_sign_verify) simp_all

text \<open>C2: with the robust tweakable hash, \<open>crypto_sign\<close> followed by \<open>crypto_sign_open\<close> returns the
  message and its length.\<close>

theorem slh_dsa_shake_sign_open:
  assumes "wf_params p" and "length seed = 3 * SPX_N p"
    and "length pk0 = SPX_PK_BYTES p" and "length sk0 = SPX_SK_BYTES p"
    and "length sm0 = SPX_BYTES p + length m"
    and "length auth_path = SPX_WOTS_BYTES p + SPX_TREE_HEIGHT p * SPX_N p"
  shows "case crypto_sign_seed_keypair p (shake_robust_hash p) ctx1 auth_path pk0 sk0 seed of (ret1, pk, sk) \<Rightarrow>
         case crypto_sign p (shake_robust_hash p) ctx2 optrand sm0 m sk of (ret2, sm, smlen) \<Rightarrow>
           crypto_sign_open p (shake_robust_hash p) ctx3 mbuf sm smlen pk = (0, memcpy_at mbuf 0 m, length m)"
  using spx_hash_laws.sign_then_open [OF shake_hash_laws(2) [OF assms(1)] assms(2-4,6,5)]
  by (simp split: prod.splits)

theorem slh_dsa_shake_sign_open_witness:
  "case crypto_sign_seed_keypair slh_dsa_shake_192s (shake_robust_hash slh_dsa_shake_192s) (spx_ctx.make [] [] [] [])
      (replicate (SPX_WOTS_BYTES slh_dsa_shake_192s + SPX_TREE_HEIGHT slh_dsa_shake_192s * SPX_N slh_dsa_shake_192s) 0)
      (replicate (SPX_PK_BYTES slh_dsa_shake_192s) 0) (replicate (SPX_SK_BYTES slh_dsa_shake_192s) 0)
      (replicate (3 * SPX_N slh_dsa_shake_192s) 7) of (ret1, pk, sk) \<Rightarrow>
    case crypto_sign slh_dsa_shake_192s (shake_robust_hash slh_dsa_shake_192s) (spx_ctx.make [] [] [] [])
      (replicate (SPX_N slh_dsa_shake_192s) 9) (replicate (SPX_BYTES slh_dsa_shake_192s + length [1, 2, 3 :: u8]) 0)
      [1, 2, 3] sk of (ret2, sm, smlen) \<Rightarrow>
      crypto_sign_open slh_dsa_shake_192s (shake_robust_hash slh_dsa_shake_192s) (spx_ctx.make [] [] [] [])
        [0, 0, 0] sm smlen pk = (0, memcpy_at [0, 0, 0] 0 [1, 2, 3], length [1, 2, 3 :: u8])"
  by (rule slh_dsa_shake_sign_open) simp_all

text \<open>C3: when \<open>crypto_sign_open\<close> rejects, it returns \<open>-1\<close>, length 0 and an output buffer whose first
  \<open>smlen\<close> bytes are zero: nothing of an unauthenticated message is released.\<close>

theorem slh_dsa_open_reject:
  assumes "crypto_sign_open p H ctx m sm smlen pk = (ret, m', mlen)" and "ret \<noteq> 0"
  shows "ret = - 1 \<and> mlen = 0 \<and> m' = memcpy_at m 0 (replicate smlen 0)"
  using assms by (rule crypto_sign_open_reject)

theorem slh_dsa_open_reject_witness:
  "crypto_sign_open slh_dsa_shake_128f (shake_hash slh_dsa_shake_128f) (spx_ctx.make [] [] [] []) [5] [1] 1 [] =
    (- 1, [0], 0) \<and> (- 1 :: int) \<noteq> 0 \<and> [0 :: u8] = memcpy_at [5] 0 (replicate 1 0)"
proof -
  have "SPX_BYTES slh_dsa_shake_128f > 1"
    by (simp add: spx_size_defs slh_dsa_shake_128f_def shake_params_def)
  then have *: "crypto_sign_open slh_dsa_shake_128f (shake_hash slh_dsa_shake_128f) (spx_ctx.make [] [] [] []) [5] [1] 1 [] =
    (- 1, [0], 0)"
    by (simp add: crypto_sign_open_def memcpy_at_def)
  from slh_dsa_open_reject [OF *] * show ?thesis by simp
qed

text \<open>C4: two different roots of the length WOTS+ signs never give chain positions of which one
  dominates the other: somewhere the second message needs a step further along the chain than the
  first, so a signature cannot be extended to another message without inverting the hash.\<close>

theorem wots_no_dominated_message:
  assumes "wf_params p" and "length m = SPX_N p" and "length m' = SPX_N p" and "m \<noteq> m'"
  shows "\<exists>i < SPX_WOTS_LEN p. chain_lengths p m ! i < chain_lengths p m' ! i"
  using assms by (rule chain_lengths_incomparable)

theorem wots_no_dominated_message_witness:
  "\<exists>i < SPX_WOTS_LEN slh_dsa_shake_128f.
     chain_lengths slh_dsa_shake_128f (replicate 16 255) ! i < chain_lengths slh_dsa_shake_128f (replicate 16 0) ! i"
  by (rule wots_no_dominated_message, rule wf_shake_params) (simp_all add: slh_dsa_shake_128f_def shake_params_def)

text \<open>C5: the indices of the FORS trees are the consecutive \<open>SPX_FORS_HEIGHT\<close>-bit digits of the
  message, read as a big-endian number.\<close>

theorem fors_indices_are_digits:
  assumes "wf_params p" and "SPX_FORS_HEIGHT p * SPX_FORS_TREES p \<le> 8 * length m"
  shows "map unat (message_to_indices p m) =
    map (\<lambda>i. be_value m div 2 ^ (8 * length m - SPX_FORS_HEIGHT p * Suc i) mod 2 ^ SPX_FORS_HEIGHT p)
      [0..<SPX_FORS_TREES p]"
  using message_to_indices_digits [OF assms] by (simp add: be_digit_def)

theorem fors_indices_are_digits_witness:
  "map unat (message_to_indices slh_dsa_shake_128f (replicate 25 0xa5)) =
    map (\<lambda>i. be_value (replicate 25 0xa5) div 2 ^ (8 * length (replicate 25 (0xa5 :: u8)) -
      SPX_FORS_HEIGHT slh_dsa_shake_128f * Suc i) mod 2 ^ SPX_FORS_HEIGHT slh_dsa_shake_128f)
      [0..<SPX_FORS_TREES slh_dsa_shake_128f]"
  by (rule fors_indices_are_digits, rule wf_shake_params) (simp_all add: slh_dsa_shake_128f_def shake_params_def)

section \<open>Keccak\<close>

text \<open>C6: the unrolled permutation of \<open>fips202.c\<close> is Keccak-f[1600] as FIPS 202 defines it from its
  step mappings.\<close>

theorem keccak_permutation_fips202:
  assumes "length s = 25"
  shows "KeccakF1600_StatePermute s = keccak_f s"
  using assms by (rule KeccakF1600_StatePermute_eq)

theorem keccak_permutation_fips202_witness:
  "KeccakF1600_StatePermute (replicate 25 1) = keccak_f (replicate 25 1)"
  by (rule keccak_permutation_fips202) simp

text \<open>C7: hashing with the \<open>shake256_inc\<close> interface gives the one-shot SHAKE256, however the input is
  cut into calls of \<open>absorb\<close> and the output into calls of \<open>squeeze\<close>.\<close>

theorem shake256_inc_one_shot:
  "shake256_inc_squeezes ns (shake256_inc_finalize (fold (\<lambda>c st. shake256_inc_absorb st c) cs shake256_inc_init)) =
   shake256 (sum_list ns) (concat cs)"
  by (rule shake256_inc_incremental)

text \<open>C8: the same for the \<open>shake256\<close> state interface.\<close>

theorem shake256_state_one_shot:
  "shake256_squeezes ns (shake256_finalize (fold (\<lambda>c st. shake256_absorb st c) cs shake256_init)) =
   shake256 (sum_list ns) (concat cs)"
  by (rule shake256_incremental)

text \<open>C9: writing an integer big-endian and reading it back is the identity up to the truncation to
  the bytes written.\<close>

theorem ull_bytes_round_trip:
  assumes "n \<le> 8"
  shows "bytes_to_ull (ull_to_bytes n x) n = take_bit (8 * n) x"
  using assms by (rule unat_bytes_to_ull_to_bytes)

theorem ull_bytes_round_trip_witness:
  "bytes_to_ull (ull_to_bytes 2 0x12345) 2 = 0x2345"
  using ull_bytes_round_trip [of 2 "0x12345"] by simp

section \<open>SM3\<close>

text \<open>C10: for an input of less than \<open>2^38\<close> bytes in all, cut in any way into calls of \<open>sm3_update\<close> that
  take less than \<open>2^32\<close> bytes each, the streaming interface of SM3 computes the hash of the standard,
  whatever the context held before \<open>sm3_init\<close>.  Both bounds come from 32-bit counters of the code: the
  offset in the data of one update, and the number of blocks that the length in bits is computed from.\<close>

theorem sm3_stream_standard:
  assumes "length (sm3_block ctx) = 64" and "\<And>c. c \<in> set cs \<Longrightarrow> length c < 2 ^ 32"
    and "length (concat cs) < 2 ^ 38"
  shows "snd (sm3_final (fold (\<lambda>c ctx. sm3_update ctx c) cs (sm3_init ctx))) = sm3_hash (concat cs)"
  using assms by (rule sm3_chunks)

theorem sm3_stream_standard_witness:
  "snd (sm3_final (fold (\<lambda>c ctx. sm3_update ctx c) [[97], [98, 99]] (sm3_init sm3_local))) =
    sm3_hash (concat [[97], [98, 99]])"
  by (rule sm3_stream_standard) (auto simp: sm3_local_def)

text \<open>C11: an update of 4 GiB and one byte does not hash its last byte: two inputs that differ there
  have the same digest.\<close>

theorem sm3_large_update_collision:
  assumes "length m = 2 ^ 32"
  shows "sm3 ctx (m @ [x]) = sm3 ctx (m @ [y])"
  using sm3_update_blocks_offset [OF assms, of "sm3_init ctx" x y]
  by (simp add: sm3_def sm3_update_def sm3_init_def)

theorem sm3_large_update_collision_witness:
  "sm3 sm3_local (replicate (2 ^ 32) 0 @ [1]) = sm3 sm3_local (replicate (2 ^ 32) 0 @ [2])"
  by (rule sm3_large_update_collision) (rule length_replicate)

text \<open>C12: for a key and a message of less than \<open>2^32\<close> bytes each, \<open>sm3_hmac\<close> is HMAC of RFC 2104 over
  SM3.  The bound is that of one call of \<open>sm3_update\<close>.\<close>

theorem sm3_hmac_rfc2104:
  assumes "length (sm3_block (sm3_ctx ctx)) = 64" and "length (hmac_key ctx) = 64"
    and "length k < 2 ^ 32" and "length m < 2 ^ 32"
  shows "sm3_hmac ctx m k = hmac_spec k m"
  using assms by (rule sm3_hmac_spec)

theorem sm3_hmac_rfc2104_witness: "sm3_hmac hmac_local [1, 2, 3] [4] = hmac_spec [4] [1, 2, 3]"
  by (rule sm3_hmac_rfc2104) (simp_all add: hmac_local_def sm3_local_def)

text \<open>C13: the loop of \<open>mgf1_sm3\<close> ends exactly when less than \<open>2^32 - 32\<close> bytes are asked for: its
  32-bit product wraps before it passes a larger length.\<close>

theorem mgf1_sm3_terminates_iff: "(\<exists>out. mgf1_sm3 outlen inp = Some out) \<longleftrightarrow> outlen < 2 ^ 32 - 32"
  by (rule mgf1_sm3_returns_iff)

text \<open>C14: for the SM3 instance of SLH-DSA, with the simple or the robust tweakable hash, and every
  well-formed parameter set whose nodes fit in an SM3 digest and whose message digest MGF1 can produce (in
  particular the two that the repository builds, \<open>sm3-128f\<close> and \<open>sm3-128s\<close>), a signature made by
  \<open>crypto_sign_signature\<close> with a key pair of \<open>crypto_sign_seed_keypair\<close> is accepted by
  \<open>crypto_sign_verify\<close>.\<close>

theorem slh_dsa_sm3_sign_verify:
  assumes "wf_params p" and "sm3_fits p" and "H = sm3_hash_fns p \<or> H = sm3_robust_hash_fns p"
    and "length seed = 3 * SPX_N p"
    and "length pk0 = SPX_PK_BYTES p" and "length sk0 = SPX_SK_BYTES p" and "length sig0 = SPX_BYTES p"
    and "length auth_path = SPX_WOTS_BYTES p + SPX_TREE_HEIGHT p * SPX_N p"
  shows "case crypto_sign_seed_keypair p H ctx1 auth_path pk0 sk0 seed of (ret1, pk, sk) \<Rightarrow>
         case crypto_sign_signature p H ctx2 optrand sig0 m sk of (ret2, sig, siglen) \<Rightarrow>
           crypto_sign_verify p H ctx3 sig siglen m pk = 0"
proof -
  have "spx_hash_laws p H" using sm3_hash_laws [OF assms(1,2)] assms(3) by blast
  from spx_hash_laws.sign_then_verify [OF this assms(4-6,8,7)] show ?thesis by (simp split: prod.splits)
qed

theorem slh_dsa_sm3_sign_verify_witness:
  "(case crypto_sign_seed_keypair slh_dsa_sm3_128f (sm3_hash_fns slh_dsa_sm3_128f) (spx_ctx.make [] [] [] [])
       (replicate (SPX_WOTS_BYTES slh_dsa_sm3_128f + SPX_TREE_HEIGHT slh_dsa_sm3_128f * SPX_N slh_dsa_sm3_128f) 0)
       (replicate (SPX_PK_BYTES slh_dsa_sm3_128f) 0) (replicate (SPX_SK_BYTES slh_dsa_sm3_128f) 0)
       (replicate (3 * SPX_N slh_dsa_sm3_128f) 7) of (ret1, pk, sk) \<Rightarrow>
     case crypto_sign_signature slh_dsa_sm3_128f (sm3_hash_fns slh_dsa_sm3_128f) (spx_ctx.make [] [] [] [])
       (replicate (SPX_N slh_dsa_sm3_128f) 9) (replicate (SPX_BYTES slh_dsa_sm3_128f) 0) [1, 2, 3] sk of (ret2, sig, siglen) \<Rightarrow>
       crypto_sign_verify slh_dsa_sm3_128f (sm3_hash_fns slh_dsa_sm3_128f) (spx_ctx.make [] [] [] []) sig siglen [1, 2, 3] pk = 0) \<and>
    (case crypto_sign_seed_keypair slh_dsa_sm3_128s (sm3_robust_hash_fns slh_dsa_sm3_128s) (spx_ctx.make [] [] [] [])
       (replicate (SPX_WOTS_BYTES slh_dsa_sm3_128s + SPX_TREE_HEIGHT slh_dsa_sm3_128s * SPX_N slh_dsa_sm3_128s) 0)
       (replicate (SPX_PK_BYTES slh_dsa_sm3_128s) 0) (replicate (SPX_SK_BYTES slh_dsa_sm3_128s) 0)
       (replicate (3 * SPX_N slh_dsa_sm3_128s) 7) of (ret1, pk, sk) \<Rightarrow>
     case crypto_sign_signature slh_dsa_sm3_128s (sm3_robust_hash_fns slh_dsa_sm3_128s) (spx_ctx.make [] [] [] [])
       (replicate (SPX_N slh_dsa_sm3_128s) 9) (replicate (SPX_BYTES slh_dsa_sm3_128s) 0) [1, 2, 3] sk of (ret2, sig, siglen) \<Rightarrow>
       crypto_sign_verify slh_dsa_sm3_128s (sm3_robust_hash_fns slh_dsa_sm3_128s) (spx_ctx.make [] [] [] []) sig siglen [1, 2, 3] pk = 0)"
  by (intro conjI slh_dsa_sm3_sign_verify) simp_all

section \<open>ML-KEM\<close>

text \<open>C15: decapsulation recovers the shared secret of encapsulation.  For every choice of primitives that
  keep the lengths and ranges of \<open>kem_primitives\<close> (both builds do), every key pair of
  \<open>crypto_kem_keypair_internal\<close> and every encapsulation of \<open>crypto_kem_enc_internal\<close> under its public
  key whose noise is below 832, the integer part of \<open>q / 4\<close>, in absolute value in every coefficient.\<close>

theorem ml_kem_decapsulation_correct:
  assumes "kem_primitives S" and "2 \<le> K" "K \<le> 4" and "2 * ML_KEM_SYMBYTES \<le> length d" and "length m = ML_KEM_SYMBYTES"
    and "crypto_kem_keypair_internal S K d = Some (pk, sk)" and "crypto_kem_enc_internal S K pk m = Some (ct, ss)"
    and "kem_indcpa_enc_polys S K m pk (drop 32 (kem_hash_g S (m @ kem_hash_h S pk))) = Some (u, v)"
    and "kem_noise_small (kem_noise S K
      (bslice ML_KEM_SYMBYTES ML_KEM_SYMBYTES (kem_hash_g S (take ML_KEM_SYMBYTES d @ [of_nat K])))
      (drop 32 (kem_hash_g S (m @ kem_hash_h S pk))) u v)"
  shows "crypto_kem_dec S K ct sk = Some ss"
  by (rule kem_primitives.kem_correct [OF assms(1,6,4,2,3,5,7-9)])

theorem ml_kem_decapsulation_correct_witness:
  "\<exists>pk sk ct ss. crypto_kem_keypair_internal kem_constant 3 (replicate 64 5) = Some (pk, sk) \<and>
     crypto_kem_enc_internal kem_constant 3 pk (replicate 32 0xa7) = Some (ct, ss) \<and> crypto_kem_dec kem_constant 3 ct sk = Some ss"
proof -
  obtain pk sk where kp: "crypto_kem_keypair_internal kem_constant 3 (replicate 64 5) = Some (pk, sk)"
    using kem_constant_keypair by blast
  let ?m = "replicate 32 0xa7 :: bytes" let ?c = "drop 32 (kem_hash_g kem_constant (?m @ kem_hash_h kem_constant pk))"
  obtain u v where p: "kem_indcpa_enc_polys kem_constant 3 ?m pk ?c = Some (u, v)" using kem_constant_enc by blast
  obtain ct ss where e: "crypto_kem_enc_internal kem_constant 3 pk ?m = Some (ct, ss)" using kem_constant_encaps by blast
  have "crypto_kem_dec kem_constant 3 ct sk = Some ss"
    by (rule ml_kem_decapsulation_correct [OF kem_constant_primitives.kem_primitives_axioms _ _ _ _ kp e p kem_constant_noise_small])
       (simp_all add: ML_KEM_SYMBYTES_def)
  then show ?thesis using kp e by blast
qed

text \<open>C16: decapsulation is that of FIPS 203, for both builds and every key and ciphertext of the right
  lengths: a ciphertext that the re-encryption does not reproduce gives the
  pseudo-random rejection secret, never an error.\<close>

theorem ml_kem_implicit_rejection:
  assumes "S \<in> {kem_shake, kem_sm3}" and "2 \<le> K"
    and "length dk = ML_KEM_INDCPA_SECRETKEYBYTES K" and "length ek = ML_KEM_PUBLICKEYBYTES K"
    and "length h = ML_KEM_SYMBYTES" and "length z = ML_KEM_SYMBYTES" and "length ct = ML_KEM_CIPHERTEXTBYTES K"
  shows "crypto_kem_dec S K ct (dk @ ek @ h @ z) = kem_decaps_spec S K dk ek h z ct"
  using assms kem_shake_primitives.dec_spec [OF assms(3-7,2)] kem_sm3_primitives.dec_spec [OF assms(3-7,2)] by auto

theorem ml_kem_implicit_rejection_witness:
  "crypto_kem_dec kem_sm3 2 (replicate (ML_KEM_CIPHERTEXTBYTES 2) 1)
     (replicate (ML_KEM_INDCPA_SECRETKEYBYTES 2) 2 @ replicate (ML_KEM_PUBLICKEYBYTES 2) 3 @ replicate ML_KEM_SYMBYTES 4 @
      replicate ML_KEM_SYMBYTES 5) =
   kem_decaps_spec kem_sm3 2 (replicate (ML_KEM_INDCPA_SECRETKEYBYTES 2) 2) (replicate (ML_KEM_PUBLICKEYBYTES 2) 3)
     (replicate ML_KEM_SYMBYTES 4) (replicate ML_KEM_SYMBYTES 5) (replicate (ML_KEM_CIPHERTEXTBYTES 2) 1)"
  by (rule ml_kem_implicit_rejection) simp_all

text \<open>C17: the sizes of \<open>api.h\<close>: keys, ciphertexts and shared secrets have the lengths the macros
  announce.\<close>

theorem ml_kem_sizes:
  assumes "kem_primitives S" and "2 \<le> K" and "2 * ML_KEM_SYMBYTES \<le> length d"
    and "crypto_kem_keypair_internal S K d = Some (pk, sk)" and "crypto_kem_enc_internal S K pk m = Some (ct, ss)"
  shows "length pk = ML_KEM_PUBLICKEYBYTES K \<and> length sk = ML_KEM_SECRETKEYBYTES K \<and>
    length ct = ML_KEM_CIPHERTEXTBYTES K \<and> length ss = ML_KEM_SSBYTES"
  using kem_primitives.keypair_lengths [OF assms(1,4,3)] kem_primitives.enc_lengths [OF assms(1,5,2)] by simp

theorem ml_kem_sizes_witness:
  "\<exists>pk sk ct ss. crypto_kem_keypair_internal kem_constant 4 (replicate 64 5) = Some (pk, sk) \<and>
     crypto_kem_enc_internal kem_constant 4 pk (replicate 32 0xa7) = Some (ct, ss) \<and>
     length pk = 1568 \<and> length sk = 3168 \<and> length ct = 1568 \<and> length ss = 32"
proof -
  obtain pk sk where kp: "crypto_kem_keypair_internal kem_constant 4 (replicate 64 5) = Some (pk, sk)"
    using kem_constant_keypair by blast
  obtain ct ss where e: "crypto_kem_enc_internal kem_constant 4 pk (replicate 32 0xa7) = Some (ct, ss)"
    using kem_constant_encaps by blast
  show ?thesis
    using ml_kem_sizes [OF kem_constant_primitives.kem_primitives_axioms _ _ kp e] kp e
    by (simp add: kem_sizes ML_KEM_CIPHERTEXTBYTES_def ML_KEM_INDCPA_BYTES_def ML_KEM_POLYVECCOMPRESSEDBYTES_def
        ML_KEM_POLYCOMPRESSEDBYTES_def ML_KEM_POLYVECBYTES_def ML_KEM_POLYBYTES_def)
qed

text \<open>C18: the transform multiplies.  Transforming two vectors of polynomials with \<open>polyvec_ntt\<close>, multiplying
  with \<open>polyvec_pointwise_acc_montgomery\<close> and transforming back gives, coefficient by coefficient modulo
  \<open>q\<close>, the inner product in \<open>Z[X]/(X^256 + 1)\<close>; no intermediate value overflows 16 bits.\<close>

theorem ml_kem_ntt_inner_product:
  assumes "length a = K" "length b = K" "1 \<le> K" "K \<le> 4" and "j < 256"
    and "\<And>p. p \<in> set a \<union> set b \<Longrightarrow> length p = 256 \<and> (\<forall>x \<in> set p. \<bar>x\<bar> \<le> 9471)"
  shows "kem_poly_invntt_tomont (kem_polyvec_pointwise_acc_montgomery K (kem_polyvec_ntt a) (kem_polyvec_ntt b)) ! j mod ML_KEM_Q =
    (\<Sum>i<K. negacyclic 256 ((!) (a ! i)) ((!) (b ! i)) j) mod ML_KEM_Q"
  by (rule kem_ntt_dot(1) [OF assms(1-4,6,5)])

theorem ml_kem_ntt_inner_product_witness:
  "kem_poly_invntt_tomont (kem_polyvec_pointwise_acc_montgomery 1 (kem_polyvec_ntt [replicate 256 9471])
      (kem_polyvec_ntt [replicate 256 (- 3)])) ! 255 mod ML_KEM_Q =
    (\<Sum>i<1. negacyclic 256 ((!) ([replicate 256 9471] ! i)) ((!) ([replicate 256 (- 3)] ! i)) 255) mod ML_KEM_Q"
  by (rule ml_kem_ntt_inner_product) auto

text \<open>C19: Montgomery and Barrett reduction return the right residue, in the range the callers rely on.\<close>

theorem ml_kem_reductions:
  assumes "- (ML_KEM_Q * 2 ^ 15) \<le> a" "a < ML_KEM_Q * 2 ^ 15" and "- (2 ^ 15) \<le> b" "b < 2 ^ 15"
  shows "ML_KEM_Q dvd kem_montgomery_reduce a * 2 ^ 16 - a \<and> \<bar>kem_montgomery_reduce a\<bar> < ML_KEM_Q \<and>
    ML_KEM_Q dvd kem_barrett_reduce b - b \<and> \<bar>kem_barrett_reduce b\<bar> \<le> 1664"
  using kem_montgomery_reduce_correct [OF assms(1,2)] kem_barrett_reduce_correct [OF assms(3,4)] by blast

theorem ml_kem_reductions_witness:
  "ML_KEM_Q dvd kem_montgomery_reduce (- 109084672) * 2 ^ 16 - (- 109084672) \<and> \<bar>kem_montgomery_reduce (- 109084672)\<bar> < ML_KEM_Q \<and>
    ML_KEM_Q dvd kem_barrett_reduce 32767 - 32767 \<and> \<bar>kem_barrett_reduce 32767\<bar> \<le> 1664"
  by (rule ml_kem_reductions) (simp_all add: ML_KEM_Q_def)

text \<open>C20: \<open>poly_frombytes\<close> inverts \<open>poly_tobytes\<close> on reduced polynomials, up to the canonical
  representatives, and \<open>poly_tobytes\<close> inverts \<open>poly_frombytes\<close> on canonical byte strings.\<close>

theorem ml_kem_poly_bytes_round_trip:
  assumes "kem_reduced a" and "length bs = ML_KEM_POLYBYTES" and "\<forall>x \<in> set (kem_poly_frombytes bs). x < ML_KEM_Q"
  shows "kem_poly_frombytes (kem_poly_tobytes a) = map (\<lambda>x. x mod ML_KEM_Q) a \<and> kem_poly_tobytes (kem_poly_frombytes bs) = bs"
  using kem_poly_frombytes_tobytes [OF assms(1)] kem_poly_tobytes_frombytes [OF assms(2,3)] by simp

theorem ml_kem_poly_bytes_round_trip_witness:
  "kem_poly_frombytes (kem_poly_tobytes (replicate 256 (- 5))) = map (\<lambda>x. x mod ML_KEM_Q) (replicate 256 (- 5)) \<and>
   kem_poly_tobytes (kem_poly_frombytes (replicate 384 0)) = replicate 384 0"
  by (rule ml_kem_poly_bytes_round_trip)
     (auto simp: kem_reduced_def ML_KEM_Q_def ML_KEM_POLYBYTES_def kem_poly_frombytes_def ML_KEM_N_def simp del: upt_rec_numeral)

text \<open>C21: compression writes the bits of \<open>Compress_d\<close> of FIPS 203, for the four widths, and decompressing
  gives \<open>Decompress_d\<close> of it.\<close>

theorem ml_kem_compression:
  assumes "kem_reduced v" and "\<forall>p \<in> set u. kem_reduced p" and "length u = K" and "2 \<le> K"
  shows "byte_bits (kem_poly_compress128 v) = concat (map (\<lambda>x. bits 4 (Compress 4 x)) v) \<and>
    byte_bits (kem_poly_compress160 v) = concat (map (\<lambda>x. bits 5 (Compress 5 x)) v) \<and>
    byte_bits (kem_polyvec_compress320 u) = concat (map (\<lambda>p. concat (map (\<lambda>x. bits 10 (Compress 10 x)) p)) u) \<and>
    byte_bits (kem_polyvec_compress352 u) = concat (map (\<lambda>p. concat (map (\<lambda>x. bits 11 (Compress 11 x)) p)) u) \<and>
    kem_poly_decompress K (kem_poly_compress K v) = map (\<lambda>x. Decompress (kem_dv K) (Compress (kem_dv K) x)) v \<and>
    kem_polyvec_decompress K (kem_polyvec_compress K u) = map (map (\<lambda>x. Decompress (kem_du K) (Compress (kem_du K) x))) u"
  using kem_poly_compress_bits [OF assms(1)] kem_polyvec_compress_bits [OF assms(2)] kem_poly_compress_decompress(1) [OF assms(1)]
    kem_polyvec_compress_decompress(1) [OF assms(2-4), of "[]"] by simp

theorem ml_kem_compression_witness:
  "byte_bits (kem_poly_compress128 (replicate 256 1000)) = concat (map (\<lambda>x. bits 4 (Compress 4 x)) (replicate 256 1000)) \<and>
   kem_polyvec_decompress 2 (kem_polyvec_compress 2 [replicate 256 (- 3), replicate 256 3328]) =
     map (map (\<lambda>x. Decompress (kem_du 2) (Compress (kem_du 2) x))) [replicate 256 (- 3), replicate 256 3328]"
proof -
  have "kem_reduced (replicate 256 1000)" "\<forall>p \<in> set [replicate 256 (- 3), replicate 256 3328]. kem_reduced p"
    by (simp_all add: kem_reduced_def ML_KEM_Q_def)
  from ml_kem_compression [OF this, of 2] show ?thesis by simp
qed

text \<open>C22: the samplers of \<open>cbd.c\<close>, which add bit pairs and triples in 32-bit words, are \<open>SamplePolyCBD\<close> of
  FIPS 203.\<close>

theorem ml_kem_cbd:
  assumes "length b2 = 128" and "length b3 = 192"
  shows "kem_cbd2 b2 = cbd_spec 2 (byte_bits b2) \<and> kem_cbd3 b3 = cbd_spec 3 (byte_bits b3)"
  using kem_cbd2_spec [OF assms(1)] kem_cbd3_spec [OF assms(2)] by simp

theorem ml_kem_cbd_witness:
  "kem_cbd2 (replicate 128 0x1b) = cbd_spec 2 (byte_bits (replicate 128 0x1b)) \<and>
   kem_cbd3 (replicate 192 0xe4) = cbd_spec 3 (byte_bits (replicate 192 0xe4))"
  by (rule ml_kem_cbd) simp_all

text \<open>C23: the sampling loop of \<open>gen_matrix\<close> returns exactly when the SHAKE128 stream of the seed contains
  256 accepted 12-bit values, and then returns the first 256.\<close>

theorem ml_kem_gen_poly_returns_iff:
  "kem_shake_gen_poly seed x y = Some r \<longleftrightarrow>
    (\<exists>n. 256 \<le> length (accepted (shake128 (SHAKE128_RATE * n) (seed @ [x, y]))) \<and>
         r = take 256 (accepted (shake128 (SHAKE128_RATE * n) (seed @ [x, y]))))"
  by (rule kem_shake_gen_poly_stream)

end
